(* ===== verification/Sam_Prelude.thy ===== *)
theory Sam_Prelude
  imports Main "HOL-Library.Monad_Syntax" "HOL-Library.Word"
begin

section \<open>Vocabulary shared by every component\<close>

text \<open>
  Conventions of the development.

  A C++ statement that has no defined continuation (a read or a write through a
  dangling pointer, a dereferenced null pointer, a signed overflow, a failed assertion,
  a second \<open>lock()\<close> on a non-recursive internal mutex) is the value \<open>None\<close>; a loop that
  does not end is \<open>None\<close> as well.  So operations have results of type \<open>'a option\<close>, they
  are written with the \<open>do\<close> notation of the option monad, and every theorem about what
  an operation does is a total one: \<open>ok m P\<close> says that \<open>m\<close> does return and that what
  it returns satisfies \<open>P\<close>.
\<close>

named_theorems sam_eval \<open>definitions of the operations, for evaluating them on concrete states\<close>

type_synonym addr = nat
type_synonym executor = nat
type_synonym slot = nat

subsection \<open>Error codes\<close>

text \<open>
  The values of \<open>error_code\<close> the library assigns, and any other error a caller may have
  left in a variable it passes by reference.  \<open>success\<close> is the value-initialised
  \<open>error_code()\<close>, the only one that converts to \<open>false\<close>.
\<close>

datatype error_code =
    success
  | in_progress
  | operation_aborted
  | shut_down
  | other_error nat

definition failed :: "error_code \<Rightarrow> bool" where
  "failed ec \<longleftrightarrow> ec \<noteq> success"

lemma failed_simps [simp]:
  "\<not> failed success" "failed in_progress" "failed operation_aborted" "failed shut_down"
  "failed (other_error n)"
  by (simp_all add: failed_def)

subsection \<open>Signed integers of the source\<close>

text \<open>
  \<open>int\<close> has 32 bits and \<open>std::ptrdiff_t\<close> has 64; a signed result outside the range is
  undefined behaviour, hence \<open>None\<close>.
\<close>

definition checked_int :: "int \<Rightarrow> int option" where
  "checked_int x = (if - (2 ^ 31) \<le> x \<and> x < 2 ^ 31 then Some x else None)"

definition checked_ptrdiff :: "int \<Rightarrow> int option" where
  "checked_ptrdiff x = (if - (2 ^ 63) \<le> x \<and> x < 2 ^ 63 then Some x else None)"

text \<open>\<open>static_cast<int>\<close> of a \<open>std::size_t\<close> keeps the low 32 bits; small sizes are kept.\<close>

definition size_to_int :: "64 word \<Rightarrow> int" where
  "size_to_int n = sint (ucast n :: 32 word)"

lemma size_to_int_of_nat:
  assumes "n < 2 ^ 31"
  shows "size_to_int (of_nat n) = int n"
proof -
  have "uint (of_nat n :: 64 word) = int n"
    using assms by (simp add: unsigned_of_nat take_bit_nat_eq_self)
  then have "(ucast (of_nat n :: 64 word) :: 32 word) = word_of_int (int n)"
    by (metis word_of_int_uint ucast_eq)
  then have "size_to_int (of_nat n) = (int n + 2 ^ 31) mod 2 ^ 32 - 2 ^ 31"
    by (simp only: size_to_int_def int_word_sint) simp
  also have "\<dots> = int n" using assms by (simp add: mod_pos_pos_trivial)
  finally show ?thesis .
qed

subsection \<open>Total correctness over option\<close>

definition ok :: "'a option \<Rightarrow> ('a \<Rightarrow> bool) \<Rightarrow> bool" where
  "ok m P \<longleftrightarrow> (\<exists>x. m = Some x \<and> P x)"

lemma ok_simps [simp]:
  "ok (Some x) P = P x"
  "\<not> ok None P"
  by (simp_all add: ok_def)

lemma ok_bind [simp]: "ok (m \<bind> f) P = ok m (\<lambda>x. ok (f x) P)"
  by (cases m) simp_all

lemma ok_conseq: "ok m P \<Longrightarrow> (\<And>x. P x \<Longrightarrow> Q x) \<Longrightarrow> ok m Q"
  by (auto simp: ok_def)

lemma ok_SomeI: "m = Some x \<Longrightarrow> P x \<Longrightarrow> ok m P"
  by (simp add: ok_def)

lemma okE: "ok m P \<Longrightarrow> (\<And>x. m = Some x \<Longrightarrow> P x \<Longrightarrow> thesis) \<Longrightarrow> thesis"
  by (auto simp: ok_def)

subsection \<open>Lists\<close>

lemma successively_frame:
  assumes "\<And>x y. x \<in> set (butlast L) \<Longrightarrow> y \<in> set (tl L) \<Longrightarrow> P x y = Q x y"
  shows "successively P L = successively Q L"
  using assms
proof (induction L rule: induct_list012)
  case (3 x y zs)
  then show ?case by (cases zs) auto
qed simp_all

lemma disjoint_subsets: "A \<subseteq> C \<Longrightarrow> B \<subseteq> D \<Longrightarrow> C \<inter> D = {} \<Longrightarrow> A \<inter> B = {}"
  by blast

lemma distinct_interleave:
  "distinct (map f xs @ concat (map g xs)) \<Longrightarrow> distinct (concat (map (\<lambda>x. f x # g x) xs))"
  by (induction xs) (auto simp: Int_Un_distrib)

text \<open>Looking up and removing a key of an association list without duplicates.\<close>

lemma filter_key_id: "a \<notin> fst ` set xs \<Longrightarrow> filter (\<lambda>p. fst p \<noteq> a) xs = xs"
  by (induction xs) auto

lemma assoc_split:
  assumes "distinct (map fst (ys @ (a, x) # zs))"
  shows "map_of (ys @ (a, x) # zs) a = Some x"
    "filter (\<lambda>p. fst p \<noteq> a) (ys @ (a, x) # zs) = ys @ zs"
  using assms by (auto simp: filter_key_id map_add_Some_iff intro!: rev_image_eqI)

end
