(* ===== verification/Bilist.thy ===== *)
theory Bilist
  imports Sam_Prelude
begin

section \<open>The intrusive circular list (\<open>detail/bilist_node.hpp\<close>)\<close>

text \<open>
  Every queue of the library, and the list of queues a service keeps, is a circular
  doubly linked list of nodes that are base classes of the objects they link.  The
  heap maps the address of a live node to its two pointer fields; a read or a write
  through an address that is not live is \<open>None\<close>.  The functions below are the member
  functions of \<open>bilist_node\<close>, statement by statement, in the source's order of reads
  and writes.  \<open>is_bilist h r xs\<close> says that the nodes linked behind the root \<open>r\<close> are
  \<open>xs\<close>, in this order; the lemmas say what each member function does to that list and
  that it touches nothing else.
\<close>

subsection \<open>Nodes and the heap\<close>

record bilist_node =
  next_node :: addr
  prev_node :: addr

type_synonym heap = "addr \<rightharpoonup> bilist_node"

definition get_next :: "addr \<Rightarrow> heap \<Rightarrow> addr option" where
  "get_next a h = map_option next_node (h a)"

definition get_prev :: "addr \<Rightarrow> heap \<Rightarrow> addr option" where
  "get_prev a h = map_option prev_node (h a)"

definition set_next :: "addr \<Rightarrow> addr \<Rightarrow> heap \<Rightarrow> heap option" where
  "set_next a v h = map_option (\<lambda>n. h(a \<mapsto> n\<lparr>next_node := v\<rparr>)) (h a)"

definition set_prev :: "addr \<Rightarrow> addr \<Rightarrow> heap \<Rightarrow> heap option" where
  "set_prev a v h = map_option (\<lambda>n. h(a \<mapsto> n\<lparr>prev_node := v\<rparr>)) (h a)"

definition node_ctor :: "addr \<Rightarrow> heap \<Rightarrow> heap" where
  "node_ctor this h = h(this \<mapsto> \<lparr>next_node = this, prev_node = this\<rparr>)"

subsection \<open>Member functions\<close>

definition unlink :: "addr \<Rightarrow> heap \<Rightarrow> heap option" where
  "unlink this h = do {
     p \<leftarrow> get_prev this h;
     n \<leftarrow> get_next this h;
     h \<leftarrow> set_prev n p h;
     set_next p n h }"

definition link_before :: "addr \<Rightarrow> addr \<Rightarrow> heap \<Rightarrow> heap option" where
  "link_before this nxt h = do {
     h \<leftarrow> set_next this nxt h;
     p \<leftarrow> get_prev nxt h;
     h \<leftarrow> set_prev this p h;
     p \<leftarrow> get_prev this h;
     h \<leftarrow> set_next p this h;
     set_prev nxt this h }"

text \<open>\<open>size()\<close> counts in a \<open>std::size_t\<close>, which wraps around at 64 bits.\<close>

partial_function (option) size_loop :: "addr \<Rightarrow> addr \<Rightarrow> 64 word \<Rightarrow> heap \<Rightarrow> 64 word option" where
  "size_loop this p sz h =
     (if p = this then Some sz
      else do { q \<leftarrow> get_next p h; size_loop this q (sz + 1) h })"

definition node_size :: "addr \<Rightarrow> heap \<Rightarrow> 64 word option" where
  "node_size this h = do { p \<leftarrow> get_next this h; size_loop this p 0 h }"

text \<open>The move constructor and the move assignment, the members "for the root node".\<close>

definition node_move_ctor :: "addr \<Rightarrow> addr \<Rightarrow> heap \<Rightarrow> heap option" where
  "node_move_ctor this lhs h = do {
     n \<leftarrow> get_next lhs h;
     p \<leftarrow> get_prev lhs h;
     let h = h(this \<mapsto> \<lparr>next_node = n, prev_node = p\<rparr>);
     h \<leftarrow> set_next lhs lhs h;
     h \<leftarrow> set_prev lhs lhs h;
     n \<leftarrow> get_next this h;
     h \<leftarrow> (if n = lhs then set_next this this h else set_prev n this h);
     p \<leftarrow> get_prev this h;
     (if p = lhs then set_prev this this h else set_next p this h) }"

definition node_move_assign :: "addr \<Rightarrow> addr \<Rightarrow> heap \<Rightarrow> heap option" where
  "node_move_assign this lhs h = do {
     ln \<leftarrow> get_next lhs h;
     h \<leftarrow> (if ln = lhs then set_next this this h
           else do { n \<leftarrow> get_next this h; set_prev n this h });
     lp \<leftarrow> get_prev lhs h;
     (if lp = lhs then set_prev this this h
      else do { p \<leftarrow> get_prev this h; set_next p this h }) }"

subsection \<open>The list behind a root\<close>

definition link :: "heap \<Rightarrow> addr \<Rightarrow> addr \<Rightarrow> bool" where
  "link h a b \<longleftrightarrow> get_next a h = Some b \<and> get_prev b h = Some a"

definition is_bilist :: "heap \<Rightarrow> addr \<Rightarrow> addr list \<Rightarrow> bool" where
  "is_bilist h r xs \<longleftrightarrow> distinct (r # xs) \<and> successively (link h) (r # xs @ [r])"

text \<open>The effect of the two writes of \<open>unlink\<close>: \<open>p\<close> and \<open>n\<close> become neighbours.\<close>

definition relinked :: "heap \<Rightarrow> heap \<Rightarrow> addr \<Rightarrow> addr \<Rightarrow> bool" where
  "relinked h h' p n \<longleftrightarrow>
     (\<forall>x. get_next x h' = (if x = p then Some n else get_next x h)) \<and>
     (\<forall>x. get_prev x h' = (if x = n then Some p else get_prev x h)) \<and>
     (\<forall>x. x \<noteq> p \<and> x \<noteq> n \<longrightarrow> h' x = h x) \<and> dom h' = dom h"

subsection \<open>Reading and writing the fields\<close>

lemmas heap_access = get_next_def get_prev_def set_next_def set_prev_def

lemmas bilist_eval [sam_eval] = heap_access node_ctor_def unlink_def link_before_def node_move_ctor_def

lemma get_upd [simp]:
  "get_next a (h(b \<mapsto> n)) = (if a = b then Some (next_node n) else get_next a h)"
  "get_prev a (h(b \<mapsto> n)) = (if a = b then Some (prev_node n) else get_prev a h)"
  by (simp_all add: heap_access)

subsection \<open>Facts about the list predicate\<close>

lemma is_bilist_frame:
  assumes "\<And>x. x \<in> set (r # xs) \<Longrightarrow> h' x = h x"
  shows "is_bilist h' r xs = is_bilist h r xs"
proof -
  have "successively (link h') (r # xs @ [r]) = successively (link h) (r # xs @ [r])"
    by (rule successively_frame)
      (use assms in \<open>auto simp: link_def heap_access butlast_append split: if_splits\<close>)
  then show ?thesis by (simp add: is_bilist_def)
qed

lemma is_bilist_split:
  "is_bilist h r (ys @ a # zs) \<longleftrightarrow>
     distinct (r # ys @ a # zs) \<and> successively (link h) (r # ys) \<and>
     link h (last (r # ys)) a \<and> link h a (hd (zs @ [r])) \<and> successively (link h) (zs @ [r])"
  by (cases zs) (auto simp: is_bilist_def successively_append_iff successively_Cons)

lemma is_bilist_join:
  "is_bilist h r (ys @ zs) \<longleftrightarrow>
     distinct (r # ys @ zs) \<and> successively (link h) (r # ys) \<and>
     link h (last (r # ys)) (hd (zs @ [r])) \<and> successively (link h) (zs @ [r])"
  unfolding is_bilist_def by (simp flip: append_Cons append_assoc add: successively_append_iff) auto



subsection \<open>What the member functions do to the list\<close>

lemma relink_ok:
  assumes "p \<in> dom h" "n \<in> dom h"
  shows "ok (do { h \<leftarrow> set_prev n p h; set_next p n h }) (\<lambda>h'. relinked h h' p n)"
  using assms by (auto simp: relinked_def heap_access)

lemma relinked_link: "relinked h h' p n \<Longrightarrow> link h' p n"
  by (simp add: relinked_def link_def)

lemma relinked_successively:
  assumes "relinked h h' p n" "p \<notin> set (butlast L)" "n \<notin> set (tl L)"
  shows "successively (link h') L = successively (link h) L"
  by (rule successively_frame) (use assms in \<open>auto simp: relinked_def link_def\<close>)

lemma is_bilist_dom: "is_bilist h r xs \<Longrightarrow> set (r # xs) \<subseteq> dom h"
proof -
  assume "is_bilist h r xs"
  then have "successively (link h) ((r # xs) @ [r])"
    by (simp add: is_bilist_def)
  moreover have "successively (link h) (L @ [b]) \<Longrightarrow> set L \<subseteq> dom h" for L b
    by (induction L arbitrary: b rule: induct_list012) (auto simp: link_def heap_access)
  ultimately show ?thesis by blast
qed

lemma relinked_bilist:
  assumes "relinked h h' (last (r # ys)) (hd (zs @ [r]))"
    and "distinct (r # ys @ zs)" "successively (link h) (r # ys)" "successively (link h) (zs @ [r])"
  shows "is_bilist h' r (ys @ zs)"
proof -
  have "last (r # ys) \<notin> set (butlast (r # ys))" "last (r # ys) \<notin> set zs"
    using assms(2) by (cases ys rule: rev_cases; auto)+
  moreover have "hd (zs @ [r]) \<notin> set (tl (zs @ [r]))" "hd (zs @ [r]) \<notin> set ys"
    using assms(2) by (cases zs; auto)+
  ultimately show ?thesis
    using assms by (simp add: is_bilist_join relinked_link relinked_successively)
qed


lemma unlink_bilist:
  assumes "is_bilist h r (ys @ a # zs)"
  shows "ok (unlink a h) (\<lambda>h'. is_bilist h' r (ys @ zs) \<and>
    (\<forall>x. x \<notin> set (r # ys @ zs) \<longrightarrow> h' x = h x) \<and> dom h' = dom h)"
proof -
  define p n where "p = last (r # ys)" and "n = hd (zs @ [r])"
  have D: "distinct (r # ys @ zs)" and 1: "successively (link h) (r # ys)"
    and 2: "link h p a" "link h a n" and 3: "successively (link h) (zs @ [r])"
    using assms by (auto simp: is_bilist_split p_def n_def)
  have pn: "p \<in> set (r # ys @ zs)" "n \<in> set (r # ys @ zs)"
    by (auto simp: hd_append p_def n_def)
  moreover have "set (r # ys @ zs) \<subseteq> dom h"
    using is_bilist_dom[OF assms] by auto
  ultimately have "ok (do { h \<leftarrow> set_prev n p h; set_next p n h }) (\<lambda>h'. relinked h h' p n)"
    by (blast intro: relink_ok)
  then have "ok (unlink a h) (\<lambda>h'. relinked h h' p n)"
    using 2 by (simp add: unlink_def link_def)
  then show ?thesis
  proof (rule ok_conseq)
    fix h' assume R: "relinked h h' p n"
    then have "is_bilist h' r (ys @ zs)"
      using D 1 3 by (auto intro!: relinked_bilist simp: p_def n_def)
    with R pn show "is_bilist h' r (ys @ zs) \<and>
        (\<forall>x. x \<notin> set (r # ys @ zs) \<longrightarrow> h' x = h x) \<and> dom h' = dom h"
      by (auto simp: relinked_def)
  qed
qed


lemma is_bilist_next: "is_bilist h r xs \<Longrightarrow> get_next r h = Some (hd (xs @ [r]))"
  by (cases xs) (auto simp: is_bilist_def link_def)

lemma is_bilist_next_elem: "is_bilist h r (ys @ a # zs) \<Longrightarrow> get_next a h = Some (hd (zs @ [r]))"
  by (simp add: is_bilist_split link_def)

lemma is_bilist_prev: "is_bilist h r xs \<Longrightarrow> get_prev r h = Some (last (r # xs))"
  by (cases xs rule: rev_cases) (auto simp: is_bilist_split link_def, auto simp: is_bilist_def link_def)

lemma is_bilist_unique: "is_bilist h r xs \<Longrightarrow> is_bilist h r ys \<Longrightarrow> xs = ys"
proof -
  have step: "successively (link h) (a # xs @ [r]) \<Longrightarrow> successively (link h) (a # ys @ [r]) \<Longrightarrow>
      r \<notin> set xs \<Longrightarrow> r \<notin> set ys \<Longrightarrow> xs = ys" for a xs ys
  proof (induction xs arbitrary: a ys)
    case Nil
    then show ?case by (cases ys) (auto simp: link_def)
  next
    case (Cons x xs)
    then show ?case by (cases ys) (auto simp: link_def)
  qed
  assume "is_bilist h r xs" "is_bilist h r ys"
  then show "xs = ys" by (auto simp: is_bilist_def intro: step)
qed

lemma node_ctor_bilist: "is_bilist (node_ctor a h) a []"
  by (simp add: is_bilist_def node_ctor_def link_def)

lemma link_before_bilist:
  assumes "is_bilist h r xs" "a \<in> dom h" "a \<notin> set (r # xs)"
  shows "ok (link_before a r h) (\<lambda>h'. is_bilist h' r (xs @ [a]) \<and>
    (\<forall>x. x \<notin> set (r # xs @ [a]) \<longrightarrow> h' x = h x) \<and> dom h' = dom h)"
proof -
  define p where "p = last (r # xs)"
  obtain na nr np where n: "h a = Some na" "h r = Some nr" "h p = Some np"
    using assms is_bilist_dom[OF assms(1)] last_in_set[of "r # xs"] unfolding p_def by fastforce
  have pr: "get_prev r h = Some p" using is_bilist_prev[OF assms(1)] by (simp add: p_def)
  have ne: "a \<noteq> r" "a \<noteq> p" "p \<in> set (r # xs)" using assms(3) by (auto simp: p_def)
  have S: "successively (link h) (r # xs)" and D: "distinct (r # xs)"
    using assms(1) by (auto simp: is_bilist_join[of h r xs "[]", simplified])
  have p': "p \<notin> set (butlast (r # xs))"
    using D by (cases xs rule: rev_cases) (auto simp: p_def)
  have "ok (link_before a r h) (\<lambda>h'.
     (\<forall>x. get_next x h' = (if x = a then Some r else if x = p then Some a else get_next x h)) \<and>
     (\<forall>x. get_prev x h' = (if x = a then Some p else if x = r then Some a else get_prev x h)) \<and>
     (\<forall>x. x \<noteq> a \<and> x \<noteq> p \<and> x \<noteq> r \<longrightarrow> h' x = h x) \<and> dom h' = dom h)"
    using n pr ne by (auto simp: link_before_def heap_access)
  then show ?thesis
  proof (rule ok_conseq)
    fix h' assume H: "(\<forall>x. get_next x h' = (if x = a then Some r else if x = p then Some a else get_next x h)) \<and>
     (\<forall>x. get_prev x h' = (if x = a then Some p else if x = r then Some a else get_prev x h)) \<and>
     (\<forall>x. x \<noteq> a \<and> x \<noteq> p \<and> x \<noteq> r \<longrightarrow> h' x = h x) \<and> dom h' = dom h"
    have "successively (link h') (r # xs) = successively (link h) (r # xs)"
      by (rule successively_frame) (use H p' assms(3) D in \<open>auto simp: link_def dest: in_set_butlastD split: if_splits\<close>)
    then have "is_bilist h' r (xs @ [a])"
      using H S D assms(3) ne by (auto simp: is_bilist_split link_def p_def)
    with H ne show "is_bilist h' r (xs @ [a]) \<and>
      (\<forall>x. x \<notin> set (r # xs @ [a]) \<longrightarrow> h' x = h x) \<and> dom h' = dom h" by auto
  qed
qed

lemma size_loop_bilist:
  "successively (link h) (p # zs @ [r]) \<Longrightarrow> r \<notin> set (p # zs) \<Longrightarrow>
   size_loop r p sz h = Some (sz + of_nat (length (p # zs)))"
proof (induction zs arbitrary: p sz)
  case Nil
  then show ?case by (simp add: size_loop.simps[of r p] size_loop.simps[of r r] link_def)
next
  case (Cons z zs)
  then show ?case by (simp add: size_loop.simps[of r p] link_def)
qed

lemma node_size_bilist:
  assumes "is_bilist h r xs"
  shows "node_size r h = Some (of_nat (length xs))"
proof (cases xs)
  case Nil
  with assms show ?thesis
    by (simp add: node_size_def is_bilist_next size_loop.simps)
next
  case (Cons p zs)
  with assms have "successively (link h) (p # zs @ [r])" "r \<notin> set (p # zs)"
    by (auto simp: is_bilist_def)
  then show ?thesis
    using assms Cons by (simp add: node_size_def is_bilist_next size_loop_bilist)
qed

lemma node_move_ctor_bilist:
  assumes "is_bilist h r xs" "b \<notin> dom h"
  shows "ok (node_move_ctor b r h) (\<lambda>h'. is_bilist h' b xs \<and> is_bilist h' r [] \<and>
    (\<forall>x. x \<notin> set (b # r # xs) \<longrightarrow> h' x = h x) \<and> dom h' = insert b (dom h))"
proof (cases "xs = []")
  case True
  obtain nr where "h r = Some nr" using is_bilist_dom[OF assms(1)] by auto
  with True assms show ?thesis
    by (auto simp: node_move_ctor_def is_bilist_def link_def heap_access)
next
  case False
  define f l where "f = hd xs" and "l = last xs"
  have D: "distinct (r # xs)" and S: "successively (link h) xs" and fl: "link h r f" "link h l r"
    using assms(1) False unfolding f_def l_def
    by (auto simp: is_bilist_def successively_Cons successively_append_iff)
  have b: "b \<noteq> r" "b \<notin> set xs" using assms is_bilist_dom[OF assms(1)] by auto
  have m: "f \<in> set xs" "l \<in> set xs" using False by (auto simp: f_def l_def)
  obtain nr nf nl where n: "h r = Some nr" "h f = Some nf" "h l = Some nl"
    using is_bilist_dom[OF assms(1)] m by fastforce
  have "r \<noteq> f" "r \<noteq> l" "b \<noteq> f" "b \<noteq> l" using D b m by auto
  then have "ok (node_move_ctor b r h) (\<lambda>h'.
     (\<forall>x. get_next x h' = (if x = b then Some f else if x = r then Some r else if x = l then Some b else get_next x h)) \<and>
     (\<forall>x. get_prev x h' = (if x = b then Some l else if x = r then Some r else if x = f then Some b else get_prev x h)) \<and>
     (\<forall>x. x \<noteq> b \<and> x \<noteq> r \<and> x \<noteq> f \<and> x \<noteq> l \<longrightarrow> h' x = h x) \<and> dom h' = insert b (dom h))"
    using n fl b by (cases "f = l") (auto simp: node_move_ctor_def heap_access link_def Let_def)
  then show ?thesis
  proof (rule ok_conseq)
    fix h' assume H: "(\<forall>x. get_next x h' = (if x = b then Some f else if x = r then Some r else if x = l then Some b else get_next x h)) \<and>
     (\<forall>x. get_prev x h' = (if x = b then Some l else if x = r then Some r else if x = f then Some b else get_prev x h)) \<and>
     (\<forall>x. x \<noteq> b \<and> x \<noteq> r \<and> x \<noteq> f \<and> x \<noteq> l \<longrightarrow> h' x = h x) \<and> dom h' = insert b (dom h)"
    have "l \<notin> set (butlast xs)"
      using D False by (cases xs rule: rev_cases) (auto simp: l_def)
    moreover have "f \<notin> set (tl xs)" using D by (cases xs) (auto simp: f_def)
    moreover have "r \<notin> set (butlast xs) \<and> r \<notin> set (tl xs) \<and> b \<notin> set (butlast xs) \<and> b \<notin> set (tl xs)"
      using D b False by (auto dest: in_set_butlastD list.set_sel(2))
    ultimately have "successively (link h') xs = successively (link h) xs"
      by (intro successively_frame) (use H in \<open>auto simp: link_def\<close>)
    then have "is_bilist h' b xs"
      using S D b H False by (auto simp: is_bilist_def successively_Cons successively_append_iff f_def l_def link_def)
    moreover have "is_bilist h' r []" using H b by (auto simp: is_bilist_def link_def)
    ultimately show "is_bilist h' b xs \<and> is_bilist h' r [] \<and>
        (\<forall>x. x \<notin> set (b # r # xs) \<longrightarrow> h' x = h x) \<and> dom h' = insert b (dom h)"
      using H m by auto
  qed
qed


lemma is_bilist_disjoint:
  assumes "is_bilist h r xs" "is_bilist h q ys" "r \<noteq> q" "r \<notin> set ys" "q \<notin> set xs"
  shows "set (r # xs) \<inter> set (q # ys) = {}"
proof -
  have step: "successively (link h) (x # as @ [r]) \<Longrightarrow> successively (link h) (x # bs @ [q]) \<Longrightarrow>
      r \<notin> set bs \<Longrightarrow> q \<notin> set as \<Longrightarrow> r = q" for x as bs
  proof (induction as arbitrary: x bs)
    case Nil
    then show ?case by (cases bs) (auto simp: link_def)
  next
    case (Cons a as)
    then show ?case by (cases bs) (auto simp: link_def)
  qed
  have "x \<notin> set ys" if "x \<in> set xs" for x
  proof
    assume "x \<in> set ys"
    then obtain ys1 ys2 where ys: "ys = ys1 @ x # ys2" by (meson split_list)
    from that obtain xs1 xs2 where xs: "xs = xs1 @ x # xs2" by (meson split_list)
    have "successively (link h) (x # xs2 @ [r])" "successively (link h) (x # ys2 @ [q])"
      using assms(1,2) by (auto simp: xs ys is_bilist_split successively_Cons)
    then show False using step assms(3-5) by (auto simp: xs ys)
  qed
  then show ?thesis using assms(3-5) by auto
qed


text \<open>
  The move assignment as it is written does not look at the fields of its source beyond
  the emptiness test: a non-empty source leaves the heap as it is, an empty one detaches
  the nodes of the target.
\<close>

lemma node_move_assign_nonempty:
  assumes "is_bilist h this xs" "is_bilist h lhs ys" "ys \<noteq> []"
  shows "node_move_assign this lhs h = Some h"
proof -
  have l: "get_next lhs h = Some (hd (ys @ [lhs]))" "get_prev lhs h = Some (last (lhs # ys))"
    using assms(2) by (auto dest: is_bilist_next is_bilist_prev)
  have ne: "hd (ys @ [lhs]) \<noteq> lhs" "last (lhs # ys) \<noteq> lhs"
    using assms(2,3) hd_in_set[of ys] last_in_set[of ys] by (auto simp: is_bilist_def)
  have t: "get_next this h = Some (hd (xs @ [this]))" "get_prev this h = Some (last (this # xs))"
    using assms(1) by (auto dest: is_bilist_next is_bilist_prev)
  have "get_prev (hd (xs @ [this])) h = Some this"
    using assms(1) by (cases xs) (auto simp: is_bilist_def link_def)
  then have s1: "set_prev (hd (xs @ [this])) this h = Some h"
    by (auto simp: heap_access fun_upd_idem)
  have "get_next (last (this # xs)) h = Some this"
    using assms(1) by (cases xs rule: rev_cases) (auto simp: is_bilist_split link_def, auto simp: is_bilist_def link_def)
  then have s2: "set_next (last (this # xs)) this h = Some h"
    by (auto simp: heap_access fun_upd_idem)
  show ?thesis
    using l t ne s1 s2 by (simp add: node_move_assign_def del: last.simps)
qed

lemma node_move_assign_empty:
  assumes "is_bilist h this xs" "is_bilist h lhs []"
  shows "node_move_assign this lhs h = Some (node_ctor this h)"
proof -
  obtain n where n: "h this = Some n" using is_bilist_dom[OF assms(1)] by auto
  have l: "get_next lhs h = Some lhs" "get_prev lhs h = Some lhs"
    using assms(2) by (auto dest: is_bilist_next is_bilist_prev)
  show ?thesis
    using n l by (cases n) (auto simp: node_move_assign_def node_ctor_def heap_access)
qed

subsection \<open>The interface the queues rely on\<close>

text \<open>
  What a client of an intrusive list may rely on, whatever the nodes look like: the
  list predicate owns its nodes, appending and removing change the abstract list as
  expected and leave every node outside it alone.
\<close>

locale intrusive_list =
  fixes repr :: "('n \<rightharpoonup> 'c) \<Rightarrow> 'n \<Rightarrow> 'n list \<Rightarrow> bool"
    and push_back :: "'n \<Rightarrow> 'n \<Rightarrow> ('n \<rightharpoonup> 'c) \<Rightarrow> ('n \<rightharpoonup> 'c) option"
    and remove :: "'n \<Rightarrow> ('n \<rightharpoonup> 'c) \<Rightarrow> ('n \<rightharpoonup> 'c) option"
    and first :: "'n \<Rightarrow> ('n \<rightharpoonup> 'c) \<Rightarrow> 'n option"
  assumes repr_distinct: "repr h r xs \<Longrightarrow> distinct (r # xs)"
    and repr_frame: "repr h r xs \<Longrightarrow> (\<And>x. x \<in> set (r # xs) \<Longrightarrow> h' x = h x) \<Longrightarrow> repr h' r xs"
    and push_back_ok: "repr h r xs \<Longrightarrow> a \<in> dom h \<Longrightarrow> a \<notin> set (r # xs) \<Longrightarrow>
      ok (push_back a r h) (\<lambda>h'. repr h' r (xs @ [a]) \<and>
        (\<forall>x. x \<notin> set (r # xs @ [a]) \<longrightarrow> h' x = h x) \<and> dom h' = dom h)"
    and remove_ok: "repr h r (ys @ a # zs) \<Longrightarrow>
      ok (remove a h) (\<lambda>h'. repr h' r (ys @ zs) \<and>
        (\<forall>x. x \<notin> set (r # ys @ zs) \<longrightarrow> h' x = h x) \<and> dom h' = dom h)"
    and first_ok: "repr h r xs \<Longrightarrow> first r h = Some (hd (xs @ [r]))"
begin

lemma first_empty_iff:
  assumes "repr h r xs"
  shows "first r h = Some r \<longleftrightarrow> xs = []"
proof (cases xs)
  case (Cons a as)
  with repr_distinct[OF assms] first_ok[OF assms] show ?thesis by auto
qed (use first_ok[OF assms] in simp)

text \<open>A node appended and removed again leaves the list as it was.\<close>

lemma push_back_remove:
  assumes "repr h r xs" "a \<in> dom h" "a \<notin> set (r # xs)"
  shows "ok (push_back a r h \<bind> remove a) (\<lambda>h'. repr h' r xs \<and>
    (\<forall>x. x \<notin> set (r # xs @ [a]) \<longrightarrow> h' x = h x) \<and> dom h' = dom h)"
proof (simp only: ok_bind, rule ok_conseq[OF push_back_ok[OF assms]], elim conjE)
  fix h1
  assume h1: "repr h1 r (xs @ [a])" "\<forall>x. x \<notin> set (r # xs @ [a]) \<longrightarrow> h1 x = h x" "dom h1 = dom h"
  show "ok (remove a h1) (\<lambda>h'. repr h' r xs \<and>
      (\<forall>x. x \<notin> set (r # xs @ [a]) \<longrightarrow> h' x = h x) \<and> dom h' = dom h)"
    using remove_ok[of h1 r xs a "[]"] h1 by (auto elim!: ok_conseq)
qed

text \<open>First in, first out: what is appended to a non-empty list does not overtake its head.\<close>

lemma push_back_first:
  assumes "repr h r xs" "a \<in> dom h" "a \<notin> set (r # xs)"
  shows "ok (push_back a r h) (\<lambda>h'. first r h' = Some (hd (xs @ [a])))"
  by (rule ok_conseq[OF push_back_ok[OF assms]]) (auto dest: first_ok simp: hd_append)

lemma remove_other:
  assumes "repr h r (ys @ a # zs)" "repr h q us" "set (r # ys @ a # zs) \<inter> set (q # us) = {}"
  shows "ok (remove a h) (\<lambda>h'. repr h' q us)"
proof (rule ok_conseq[OF remove_ok[OF assms(1)]])
  fix h' assume "repr h' r (ys @ zs) \<and> (\<forall>x. x \<notin> set (r # ys @ zs) \<longrightarrow> h' x = h x) \<and> dom h' = dom h"
  then have f: "h' x = h x" if "x \<notin> set (r # ys @ zs)" for x using that by blast
  show "repr h' q us"
  proof (rule repr_frame[OF assms(2)])
    fix x assume "x \<in> set (q # us)"
    with assms(3) show "h' x = h x" by (intro f) auto
  qed
qed

end

lemma is_bilist_frameI: "is_bilist h r xs \<Longrightarrow> (\<And>x. x \<in> set (r # xs) \<Longrightarrow> h' x = h x) \<Longrightarrow> is_bilist h' r xs"
  using is_bilist_frame by blast

interpretation bl: intrusive_list is_bilist link_before unlink get_next
proof unfold_locales
  show "distinct (r # xs)" if "is_bilist h r xs" for h r xs
    using that by (simp add: is_bilist_def)
qed (fact is_bilist_frameI link_before_bilist unlink_bilist is_bilist_next)+

end
