(* ===== verification/Wait_Op.thy ===== *)
theory Wait_Op
  imports Bilist
begin

section \<open>Waiting operations and the lists that hold them\<close>

text \<open>
  Models \<open>detail/basic_op.hpp\<close>, \<open>detail/predicate_op.hpp\<close>, the op models of
  \<open>detail/impl/basic_op_model.hpp\<close> and \<open>detail/impl/predicate_op_model.hpp\<close>, and the
  blocking operations \<open>lock_op_t\<close>, \<open>acquire_op_t\<close> and \<open>arrive_op_t\<close>.

  A \<open>world\<close> is the state all primitives of a process share: the live list nodes, the
  live operation objects (an operation is a node, its address is the node's), the
  handler each cancellation slot holds, the completions handed to asio so far, and the
  next address an allocation returns.  Addresses are not reused, so every access after
  a destruction is seen as such.

  What the library uses of asio is explicit: a \<open>handler\<close> is known by its identity, its
  associated executor, immediate executor and cancellation slot, if any; \<open>net::post\<close>
  and \<open>net::dispatch\<close> append an event to \<open>trace\<close>; waking the thread that blocks in
  an operation appends \<open>Wake\<close> with the error code it will find there.
\<close>

subsection \<open>Handlers, operations, the world\<close>

record handler =
  h_id :: nat
  h_executor :: "executor option"
  h_immediate :: "executor option"
  h_slot :: "slot option"

definition get_associated_executor :: "handler \<Rightarrow> executor \<Rightarrow> executor" where
  "get_associated_executor h ex = (case h_executor h of None \<Rightarrow> ex | Some e \<Rightarrow> e)"

definition get_associated_immediate_executor :: "handler \<Rightarrow> executor \<Rightarrow> executor" where
  "get_associated_immediate_executor h ex = (case h_immediate h of None \<Rightarrow> ex | Some e \<Rightarrow> e)"

datatype predicate = true_predicate | user_predicate nat

record basic_op_model =
  work_guard :: executor
  op_handler :: handler

record predicate_op_model = basic_op_model +
  op_predicate :: predicate

record sync_op =
  op_ec :: error_code
  op_done :: bool

datatype wait_op =
    Basic_op basic_op_model
  | Predicate_op predicate_op_model
  | Lock_op sync_op
  | Acquire_op sync_op
  | Arrive_op sync_op

datatype event =
    Post executor handler error_code
  | Dispatch executor handler error_code
  | Wake addr error_code

record world =
  nodes :: heap
  ops :: "addr \<rightharpoonup> wait_op"
  slots :: "slot \<rightharpoonup> addr"
  trace :: "event list"
  brk :: addr

subsection \<open>Effects on the world\<close>

definition on_nodes :: "(heap \<Rightarrow> heap option) \<Rightarrow> world \<Rightarrow> world option" where
  "on_nodes f w = map_option (\<lambda>h. w\<lparr>nodes := h\<rparr>) (f (nodes w))"

definition emit :: "event \<Rightarrow> world \<Rightarrow> world" where
  "emit e w = w\<lparr>trace := trace w @ [e]\<rparr>"

definition slot_assign :: "slot option \<Rightarrow> addr \<Rightarrow> world \<Rightarrow> world" where
  "slot_assign so a w = (case so of None \<Rightarrow> w | Some s \<Rightarrow> w\<lparr>slots := (slots w)(s \<mapsto> a)\<rparr>)"

definition slot_clear :: "slot option \<Rightarrow> world \<Rightarrow> world" where
  "slot_clear so w = (case so of None \<Rightarrow> w | Some s \<Rightarrow> w\<lparr>slots := (slots w)(s := None)\<rparr>)"

definition new_node :: "world \<Rightarrow> addr \<times> world" where
  "new_node w = (brk w, w\<lparr>nodes := node_ctor (brk w) (nodes w), brk := Suc (brk w)\<rparr>)"

definition new_op :: "wait_op \<Rightarrow> world \<Rightarrow> addr \<times> world" where
  "new_op x w = (let (a, w) = new_node w in (a, w\<lparr>ops := (ops w)(a \<mapsto> x)\<rparr>))"

definition free_node :: "addr \<Rightarrow> world \<Rightarrow> world option" where
  "free_node a w = (if nodes w a = None then None else Some (w\<lparr>nodes := (nodes w)(a := None)\<rparr>))"

definition destroy :: "addr \<Rightarrow> world \<Rightarrow> world option" where
  "destroy a w = (if ops w a = None then None
     else map_option (\<lambda>w. w\<lparr>ops := (ops w)(a := None)\<rparr>) (free_node a w))"

subsection \<open>The members of the operation types\<close>

definition basic_op_model_ctor :: "executor \<Rightarrow> handler \<Rightarrow> basic_op_model" where
  [simp]: "basic_op_model_ctor e h = \<lparr>work_guard = e, op_handler = h\<rparr>"

definition basic_op_model_get_cancellation_slot :: "basic_op_model \<Rightarrow> slot option" where
  [simp]: "basic_op_model_get_cancellation_slot m = h_slot (op_handler m)"

text \<open>
  \<open>construct\<close> allocates and constructs.  An exception of the allocator or of the handler's move constructor, after
  which it would give the memory back and rethrow, is not modelled.
\<close>

definition basic_op_model_construct :: "executor \<Rightarrow> handler \<Rightarrow> world \<Rightarrow> addr \<times> world" where
  "basic_op_model_construct e h w = new_op (Basic_op (basic_op_model_ctor e h)) w"

definition basic_op_model_complete :: "addr \<Rightarrow> basic_op_model \<Rightarrow> error_code \<Rightarrow> world \<Rightarrow> world option" where
  "basic_op_model_complete this m ec w = do {
     let w = slot_clear (basic_op_model_get_cancellation_slot m) w;
     let g = work_guard m;
     let h = op_handler m;
     w \<leftarrow> on_nodes (unlink this) w;
     w \<leftarrow> destroy this w;
     Some (emit (Post g h ec) w) }"

definition basic_op_model_shutdown :: "addr \<Rightarrow> basic_op_model \<Rightarrow> world \<Rightarrow> world option" where
  "basic_op_model_shutdown this m w = do {
     let w = slot_clear (basic_op_model_get_cancellation_slot m) w;
     w \<leftarrow> on_nodes (unlink this) w;
     destroy this w }"

definition predicate_op_model_ctor :: "executor \<Rightarrow> handler \<Rightarrow> predicate \<Rightarrow> predicate_op_model" where
  [simp]: "predicate_op_model_ctor e h p = \<lparr>work_guard = e, op_handler = h, op_predicate = p\<rparr>"

definition predicate_op_model_get_cancellation_slot :: "predicate_op_model \<Rightarrow> slot option" where
  [simp]: "predicate_op_model_get_cancellation_slot m = h_slot (op_handler m)"

definition predicate_op_model_construct :: "executor \<Rightarrow> handler \<Rightarrow> predicate \<Rightarrow> world \<Rightarrow> addr \<times> world" where
  "predicate_op_model_construct e h p w = new_op (Predicate_op (predicate_op_model_ctor e h p)) w"

definition predicate_op_model_destroy :: "addr \<Rightarrow> world \<Rightarrow> world option" where
  [simp]: "predicate_op_model_destroy a w = destroy a w"

definition predicate_op_model_complete ::
  "addr \<Rightarrow> predicate_op_model \<Rightarrow> error_code \<Rightarrow> world \<Rightarrow> world option" where
  "predicate_op_model_complete this m ec w = do {
     let w = slot_clear (predicate_op_model_get_cancellation_slot m) w;
     let g = work_guard m;
     let h = op_handler m;
     w \<leftarrow> on_nodes (unlink this) w;
     w \<leftarrow> predicate_op_model_destroy this w;
     Some (emit (Post g h ec) w) }"

definition predicate_op_model_shutdown :: "addr \<Rightarrow> predicate_op_model \<Rightarrow> world \<Rightarrow> world option" where
  "predicate_op_model_shutdown this m w = do {
     let w = slot_clear (predicate_op_model_get_cancellation_slot m) w;
     w \<leftarrow> on_nodes (unlink this) w;
     predicate_op_model_destroy this w }"

text \<open>
  The three blocking operations live on the stack of the waiting thread and have the
  same members; \<open>complete\<close> and \<open>shutdown\<close> store the error code, set \<open>done\<close>, unlink the
  node and wake the thread.
\<close>

definition lock_op_t :: "error_code \<Rightarrow> wait_op" where
  [simp]: "lock_op_t ec = Lock_op \<lparr>op_ec = ec, op_done = False\<rparr>"

definition acquire_op_t :: "error_code \<Rightarrow> wait_op" where
  [simp]: "acquire_op_t ec = Acquire_op \<lparr>op_ec = ec, op_done = False\<rparr>"

definition arrive_op_t :: "error_code \<Rightarrow> wait_op" where
  [simp]: "arrive_op_t ec = Arrive_op \<lparr>op_ec = ec, op_done = False\<rparr>"

definition sync_finish :: "(sync_op \<Rightarrow> wait_op) \<Rightarrow> addr \<Rightarrow> sync_op \<Rightarrow> error_code \<Rightarrow> world \<Rightarrow> world option" where
  "sync_finish C this s ec w = do {
     let w = w\<lparr>ops := (ops w)(this \<mapsto> C (s\<lparr>op_done := True, op_ec := ec\<rparr>))\<rparr>;
     w \<leftarrow> on_nodes (unlink this) w;
     Some (emit (Wake this ec) w) }"

definition lock_op_t_complete :: "addr \<Rightarrow> sync_op \<Rightarrow> error_code \<Rightarrow> world \<Rightarrow> world option" where
  "lock_op_t_complete this s ec w = sync_finish Lock_op this s ec w"

definition lock_op_t_shutdown :: "addr \<Rightarrow> sync_op \<Rightarrow> world \<Rightarrow> world option" where
  "lock_op_t_shutdown this s w = sync_finish Lock_op this s shut_down w"

definition acquire_op_t_complete :: "addr \<Rightarrow> sync_op \<Rightarrow> error_code \<Rightarrow> world \<Rightarrow> world option" where
  "acquire_op_t_complete this s ec w = sync_finish Acquire_op this s ec w"

definition acquire_op_t_shutdown :: "addr \<Rightarrow> sync_op \<Rightarrow> world \<Rightarrow> world option" where
  "acquire_op_t_shutdown this s w = sync_finish Acquire_op this s shut_down w"

definition arrive_op_t_complete :: "addr \<Rightarrow> sync_op \<Rightarrow> error_code \<Rightarrow> world \<Rightarrow> world option" where
  "arrive_op_t_complete this s ec w = sync_finish Arrive_op this s ec w"

definition arrive_op_t_shutdown :: "addr \<Rightarrow> sync_op \<Rightarrow> world \<Rightarrow> world option" where
  "arrive_op_t_shutdown this s w = sync_finish Arrive_op this s shut_down w"

text \<open>The virtual calls \<open>complete(ec)\<close> and \<open>shutdown()\<close> through a node of a waiting list.\<close>

definition op_complete :: "error_code \<Rightarrow> addr \<Rightarrow> world \<Rightarrow> world option" where
  "op_complete ec this w = (case ops w this of
     None \<Rightarrow> None
   | Some (Basic_op m) \<Rightarrow> basic_op_model_complete this m ec w
   | Some (Predicate_op m) \<Rightarrow> predicate_op_model_complete this m ec w
   | Some (Lock_op s) \<Rightarrow> lock_op_t_complete this s ec w
   | Some (Acquire_op s) \<Rightarrow> acquire_op_t_complete this s ec w
   | Some (Arrive_op s) \<Rightarrow> arrive_op_t_complete this s ec w)"

definition op_shutdown :: "addr \<Rightarrow> world \<Rightarrow> world option" where
  "op_shutdown this w = (case ops w this of
     None \<Rightarrow> None
   | Some (Basic_op m) \<Rightarrow> basic_op_model_shutdown this m w
   | Some (Predicate_op m) \<Rightarrow> predicate_op_model_shutdown this m w
   | Some (Lock_op s) \<Rightarrow> lock_op_t_shutdown this s w
   | Some (Acquire_op s) \<Rightarrow> acquire_op_t_shutdown this s w
   | Some (Arrive_op s) \<Rightarrow> arrive_op_t_shutdown this s w)"

text \<open>
  When a blocking call returns, its completed operation leaves the stack and the caller's \<open>error_code\<close>, which the operation
  references, is what was stored in it.
\<close>

definition sync_return :: "addr \<Rightarrow> world \<Rightarrow> (error_code \<times> world) option" where
  "sync_return op w = (case ops w op of
     Some (Lock_op s) \<Rightarrow> do { w \<leftarrow> destroy op w; Some (op_ec s, w) }
   | Some (Acquire_op s) \<Rightarrow> do { w \<leftarrow> destroy op w; Some (op_ec s, w) }
   | Some (Arrive_op s) \<Rightarrow> do { w \<leftarrow> destroy op w; Some (op_ec s, w) }
   | _ \<Rightarrow> None)"

subsection \<open>The list holders\<close>

text \<open>
  \<open>while (nx != this) static_cast<op *>(nx)->complete(ec)\<close> with \<open>nx\<close> a reference to
  \<open>this->next_\<close>, which the call changes: the loop re-reads the head each time round.
\<close>

partial_function (option) drain ::
  "(addr \<Rightarrow> world \<Rightarrow> world option) \<Rightarrow> addr \<Rightarrow> world \<Rightarrow> world option" where
  "drain body this w = do {
     nx \<leftarrow> get_next this (nodes w);
     if nx = this then Some w else do { w \<leftarrow> body nx w; drain body this w } }"

definition holder_complete_all :: "addr \<Rightarrow> error_code \<Rightarrow> world \<Rightarrow> world option" where
  "holder_complete_all this ec w = drain (op_complete ec) this w"

definition holder_dtor :: "addr \<Rightarrow> world \<Rightarrow> world option" where
  "holder_dtor this w = do { w \<leftarrow> drain (op_complete operation_aborted) this w; free_node this w }"

definition holder_move_ctor :: "addr \<Rightarrow> world \<Rightarrow> (addr \<times> world) option" where
  "holder_move_ctor from w = do {
     let this = brk w;
     w \<leftarrow> on_nodes (node_move_ctor this from) (w\<lparr>brk := Suc this\<rparr>);
     Some (this, w) }"

partial_function (option) shutdown_loop :: "addr \<Rightarrow> world \<Rightarrow> world option" where
  "shutdown_loop bn w = do {
     nx \<leftarrow> get_next bn (nodes w);
     if nx = bn then Some w
     else do {
       nx2 \<leftarrow> get_next nx (nodes w);
       w \<leftarrow> op_shutdown nx w;
       w \<leftarrow> on_nodes (set_next bn nx2) w;
       shutdown_loop bn w } }"

definition holder_shutdown :: "addr \<Rightarrow> world \<Rightarrow> world option" where
  "holder_shutdown this w = do {
     (bn, w) \<leftarrow> holder_move_ctor this w;
     w \<leftarrow> shutdown_loop bn w;
     free_node bn w }"

text \<open>
  \<open>std::swap\<close> of two holders: a temporary is move constructed from the first, the first is
  move assigned from the second, the second from the temporary, which is then destroyed.
\<close>

definition holder_swap :: "addr \<Rightarrow> addr \<Rightarrow> world \<Rightarrow> world option" where
  "holder_swap x y w = do {
     (t, w) \<leftarrow> holder_move_ctor x w;
     w \<leftarrow> on_nodes (node_move_assign x y) w;
     w \<leftarrow> on_nodes (node_move_assign y t) w;
     holder_dtor t w }"

text \<open>
  \<open>predicate_bilist_holder\<close> repeats the destructor and \<open>shutdown\<close> of
  \<open>basic_bilist_holder\<close> for operations with a predicate.
\<close>

definition predicate_holder_dtor :: "addr \<Rightarrow> world \<Rightarrow> world option" where
  "predicate_holder_dtor this w = do { w \<leftarrow> drain (op_complete operation_aborted) this w; free_node this w }"

definition predicate_holder_shutdown :: "addr \<Rightarrow> world \<Rightarrow> world option" where
  "predicate_holder_shutdown this w = do {
     (bn, w) \<leftarrow> holder_move_ctor this w;
     w \<leftarrow> shutdown_loop bn w;
     free_node bn w }"


subsection \<open>Abstract view\<close>

text \<open>
  \<open>pending w r q\<close>: behind the root \<open>r\<close> wait exactly the operations \<open>q\<close>, oldest first,
  each with its address, and none of them has been completed yet.  \<open>world_ok\<close> is the invariant of the shared state: every live
  operation is a live node, fresh addresses are unused, and a cancellation slot never
  holds a handler for an operation that is gone.
\<close>

fun op_slot :: "wait_op \<Rightarrow> slot option" where
  "op_slot (Basic_op m) = h_slot (op_handler m)"
| "op_slot (Predicate_op m) = h_slot (op_handler m)"
| "op_slot _ = None"

fun settled :: "wait_op \<Rightarrow> bool" where
  "settled (Lock_op s) = op_done s"
| "settled (Acquire_op s) = op_done s"
| "settled (Arrive_op s) = op_done s"
| "settled _ = False"

fun finished :: "error_code \<Rightarrow> wait_op \<Rightarrow> wait_op option" where
  "finished ec (Basic_op m) = None"
| "finished ec (Predicate_op m) = None"
| "finished ec (Lock_op s) = Some (Lock_op (s\<lparr>op_done := True, op_ec := ec\<rparr>))"
| "finished ec (Acquire_op s) = Some (Acquire_op (s\<lparr>op_done := True, op_ec := ec\<rparr>))"
| "finished ec (Arrive_op s) = Some (Arrive_op (s\<lparr>op_done := True, op_ec := ec\<rparr>))"

fun signals :: "error_code \<Rightarrow> addr \<Rightarrow> wait_op \<Rightarrow> event list" where
  "signals ec a (Basic_op m) = [Post (work_guard m) (op_handler m) ec]"
| "signals ec a (Predicate_op m) = [Post (work_guard m) (op_handler m) ec]"
| "signals ec a _ = [Wake a ec]"

fun shutdown_signals :: "addr \<Rightarrow> wait_op \<Rightarrow> event list" where
  "shutdown_signals a (Basic_op m) = []"
| "shutdown_signals a (Predicate_op m) = []"
| "shutdown_signals a _ = [Wake a shut_down]"

definition op_effect ::
  "(addr \<Rightarrow> wait_op \<Rightarrow> event list) \<Rightarrow> error_code \<Rightarrow> addr \<Rightarrow> world \<Rightarrow> world" where
  "op_effect sig ec a w = (case ops w a of None \<Rightarrow> w | Some x \<Rightarrow>
     (slot_clear (op_slot x) w)\<lparr>ops := (ops w)(a := finished ec x), trace := trace w @ sig a x\<rparr>)"

definition rest :: "world \<Rightarrow> world" where
  "rest w = w\<lparr>nodes := Map.empty\<rparr>"

definition world_ok :: "world \<Rightarrow> bool" where
  "world_ok w \<longleftrightarrow> dom (ops w) \<subseteq> dom (nodes w) \<and> dom (nodes w) \<subseteq> {..<brk w} \<and>
     (\<forall>s a. slots w s = Some a \<longrightarrow> (\<exists>x. ops w a = Some x \<and> op_slot x = Some s))"

definition pending :: "world \<Rightarrow> addr \<Rightarrow> (addr \<times> wait_op) list \<Rightarrow> bool" where
  "pending w r q \<longleftrightarrow> is_bilist (nodes w) r (map fst q) \<and>
     (\<forall>(a, x) \<in> set q. ops w a = Some x \<and> \<not> settled x) \<and> ops w r = None"

text \<open>Nodes and operations that existed before and lie outside \<open>S\<close> are as they were.\<close>

definition untouched :: "addr set \<Rightarrow> world \<Rightarrow> world \<Rightarrow> bool" where
  "untouched S w w' \<longleftrightarrow>
     (\<forall>x \<in> dom (nodes w). x \<notin> S \<longrightarrow> nodes w' x = nodes w x \<and> ops w' x = ops w x)"

abbreviation queue_nodes :: "addr \<Rightarrow> (addr \<times> wait_op) list \<Rightarrow> addr set" where
  "queue_nodes r q \<equiv> set (r # map fst q)"

text \<open>One operation \<open>a\<close> has left the queue of \<open>r\<close>, of which \<open>q\<close> remains; \<open>e\<close> gives the rest.\<close>

definition taken_out :: "addr \<Rightarrow> addr \<Rightarrow> (addr \<times> wait_op) list \<Rightarrow> world \<Rightarrow> world \<Rightarrow> world \<Rightarrow> bool" where
  "taken_out a r q w e w' \<longleftrightarrow> world_ok w' \<and> pending w' r q \<and> rest w' = rest e \<and>
     untouched (insert a (queue_nodes r q)) w w'"

text \<open>The operations \<open>q\<close> have all been finished, oldest first.\<close>

definition drained ::
  "(addr \<Rightarrow> wait_op \<Rightarrow> event list) \<Rightarrow> error_code \<Rightarrow> (addr \<times> wait_op) list \<Rightarrow> world \<Rightarrow> world \<Rightarrow> bool" where
  "drained sig ec q w w' \<longleftrightarrow>
     trace w' = trace w @ concat (map (\<lambda>(a, x). sig a x) q) \<and>
     (\<forall>y. ops w' y = (case map_of q y of None \<Rightarrow> ops w y | Some x \<Rightarrow> finished ec x)) \<and>
     (\<forall>s. slots w' s = (if Some s \<in> (op_slot \<circ> snd) ` set q then None else slots w s)) \<and>
     brk w' = brk w"

subsection \<open>Elementary facts\<close>

lemma rest_eq_iff:
  "rest w = rest w' \<longleftrightarrow> ops w = ops w' \<and> slots w = slots w' \<and> trace w = trace w' \<and> brk w = brk w'"
  by (cases w; cases w') (simp add: rest_def)

lemma slot_clear_simps [simp]:
  "nodes (slot_clear so w) = nodes w" "ops (slot_clear so w) = ops w"
  "trace (slot_clear so w) = trace w" "brk (slot_clear so w) = brk w"
  by (simp_all add: slot_clear_def split: option.splits)

lemma slot_assign_simps [simp]:
  "nodes (slot_assign so a w) = nodes w" "ops (slot_assign so a w) = ops w"
  "trace (slot_assign so a w) = trace w" "brk (slot_assign so a w) = brk w"
  by (simp_all add: slot_assign_def split: option.splits)

lemma emit_simps [simp]:
  "nodes (emit e w) = nodes w" "ops (emit e w) = ops w" "slots (emit e w) = slots w"
  "trace (emit e w) = trace w @ [e]" "brk (emit e w) = brk w"
  by (simp_all add: emit_def)

lemma slots_slot_clear: "slots (slot_clear so w) s = (if so = Some s then None else slots w s)"
  by (simp add: slot_clear_def split: option.splits)

lemma op_effect_fields:
  "ops (op_effect sig ec a w) = (case ops w a of None \<Rightarrow> ops w | Some x \<Rightarrow> (ops w)(a := finished ec x))"
  "slots (op_effect sig ec a w) = (case ops w a of None \<Rightarrow> slots w | Some x \<Rightarrow>
     (\<lambda>s. if op_slot x = Some s then None else slots w s))"
  "trace (op_effect sig ec a w) = (case ops w a of None \<Rightarrow> trace w | Some x \<Rightarrow> trace w @ sig a x)"
  "brk (op_effect sig ec a w) = brk w"
  by (simp_all add: op_effect_def slot_clear_def fun_eq_iff split: option.splits)

lemma world_ok_emit [simp]: "world_ok (emit e w) = world_ok w"
  by (simp add: world_ok_def)

lemma pending_emit [simp]: "pending (emit e w) r q = pending w r q"
  by (simp add: pending_def)

lemma pending_slot_assign [simp]: "pending (slot_assign so a w) r q = pending w r q"
  by (simp add: pending_def)

lemma world_ok_slot_assign:
  "world_ok w \<Longrightarrow> ops w a = Some x \<Longrightarrow> op_slot x = so \<Longrightarrow> world_ok (slot_assign so a w)"
  by (auto simp: world_ok_def slot_assign_def split: option.splits)

lemma on_nodes_ok: "ok (f (nodes w)) (\<lambda>h. P (w\<lparr>nodes := h\<rparr>)) \<Longrightarrow> ok (on_nodes f w) P"
  by (auto simp: on_nodes_def ok_def)

lemma pending_next: "pending w r q \<Longrightarrow> get_next r (nodes w) = Some (hd (map fst q @ [r]))"
  unfolding pending_def by (blast intro: is_bilist_next)

lemma pending_head: "pending w r ((a, x) # q) \<Longrightarrow> get_next r (nodes w) = Some a \<and> a \<noteq> r"
  using pending_next[of w r "(a, x) # q"] by (auto simp: pending_def is_bilist_def)

lemma pending_empty: "pending w r [] \<Longrightarrow> get_next r (nodes w) = Some r"
  using pending_next[of w r "[]"] by simp

lemma pending_empty_iff: "pending w r q \<Longrightarrow> get_next r (nodes w) = Some r \<longleftrightarrow> q = []"
  by (cases q) (auto dest: pending_head pending_empty)

lemma pending_distinct: "pending w r q \<Longrightarrow> distinct (r # map fst q)"
  by (simp add: pending_def is_bilist_def)

lemma pending_live: "pending w r q \<Longrightarrow> queue_nodes r q \<subseteq> dom (nodes w)"
  unfolding pending_def using is_bilist_dom by blast

lemma pending_unique: "pending w r q \<Longrightarrow> pending w r q' \<Longrightarrow> q = q'"
proof -
  assume p: "pending w r q" "pending w r q'"
  then have "map fst q = map fst q'" by (auto simp: pending_def intro: is_bilist_unique)
  moreover have "map (Some \<circ> snd) q = map (ops w \<circ> fst) q" "map (Some \<circ> snd) q' = map (ops w \<circ> fst) q'"
    using p by (auto simp: pending_def)
  ultimately have "map Some (map snd q) = map Some (map snd q')"
    by (metis map_map)
  then have "map snd q = map snd q'" by (rule map_injective) simp
  with \<open>map fst q = map fst q'\<close> show "q = q'" by (metis zip_map_fst_snd)
qed

lemma pending_disjoint:
  assumes "pending w r q" "pending w r' q'" "r \<noteq> r'"
  shows "queue_nodes r q \<inter> queue_nodes r' q' = {}"
  by (rule is_bilist_disjoint[of "nodes w"]) (use assms in \<open>force simp: pending_def\<close>)+

text \<open>Operations are constructed unfinished.\<close>

lemma unsettled:
  "\<not> settled (Basic_op m)" "\<not> settled (Predicate_op p)" "\<not> settled (Lock_op \<lparr>op_ec = ec, op_done = False\<rparr>)"
  "\<not> settled (Acquire_op \<lparr>op_ec = ec, op_done = False\<rparr>)" "\<not> settled (Arrive_op \<lparr>op_ec = ec, op_done = False\<rparr>)"
  by simp_all

subsection \<open>Framing\<close>

lemma pending_untouched:
  assumes "pending w r q" "untouched S w w'" "queue_nodes r q \<inter> S = {}"
  shows "pending w' r q"
proof -
  have same: "nodes w' x = nodes w x \<and> ops w' x = ops w x" if "x \<in> queue_nodes r q" for x
    using that assms pending_live[OF assms(1)] unfolding untouched_def by blast
  then have f: "nodes w' x = nodes w x" if "x \<in> queue_nodes r q" for x
    using that by blast
  have "is_bilist (nodes w') r (map fst q)"
    by (rule is_bilist_frameI[OF _ f]) (use assms(1) in \<open>simp_all add: pending_def\<close>)
  moreover have "ops w' a = Some x \<and> \<not> settled x" if "(a, x) \<in> set q" for a x
  proof -
    have "a \<in> queue_nodes r q" using that by force
    with same that assms(1) show ?thesis by (auto simp: pending_def)
  qed
  moreover have "ops w' r = None" using same assms(1) by (simp add: pending_def)
  ultimately show ?thesis by (auto simp: pending_def)
qed

lemma untouched_refl [simp]: "untouched S w w"
  by (simp add: untouched_def)

lemma untouched_mono: "untouched S w w' \<Longrightarrow> S \<inter> dom (nodes w) \<subseteq> T \<Longrightarrow> untouched T w w'"
  unfolding untouched_def by blast

lemma untouched_trans:
  assumes "untouched S w w1" "untouched T w1 w2" "T \<inter> dom (nodes w) \<subseteq> S"
  shows "untouched S w w2"
  unfolding untouched_def
proof (intro ballI impI)
  fix x assume x: "x \<in> dom (nodes w)" "x \<notin> S"
  then have 1: "nodes w1 x = nodes w x" "ops w1 x = ops w x"
    using assms(1) by (auto simp: untouched_def)
  then have "x \<in> dom (nodes w1)" "x \<notin> T" using x assms(3) by auto
  with 1 assms(2) show "nodes w2 x = nodes w x \<and> ops w2 x = ops w x"
    by (simp add: untouched_def)
qed

lemma untouched_slot_assign [simp]: "untouched S w (slot_assign so a w') = untouched S w w'"
  by (simp add: untouched_def)

lemma untouched_emit [simp]: "untouched S w (emit e w') = untouched S w w'"
  by (simp add: untouched_def)

text \<open>A queue with another root survives whatever happens inside the queue of \<open>r\<close>.\<close>

lemma pending_other:
  assumes "pending w r q" "pending w r' q'" "r \<noteq> r'" "untouched (queue_nodes r q) w w'"
  shows "pending w' r' q'"
  by (rule pending_untouched[OF assms(2,4)]) (use pending_disjoint[OF assms(1-3)] in blast)

lemma world_ok_fresh: "world_ok w \<Longrightarrow> brk w \<le> a \<Longrightarrow> a \<notin> dom (nodes w)"
  by (auto simp: world_ok_def)

text \<open>
  A step spares every queue whose root is not in \<open>R\<close>, and every completed operation that still waits for its thread
  to go on, unless it is in \<open>R\<close>.
\<close>

definition spares :: "addr set \<Rightarrow> world \<Rightarrow> world \<Rightarrow> bool" where
  "spares R w w' \<longleftrightarrow> (\<forall>r q. r \<notin> R \<longrightarrow> pending w r q \<longrightarrow> pending w' r q) \<and>
     (\<forall>a x. a \<notin> R \<longrightarrow> ops w a = Some x \<longrightarrow> settled x \<longrightarrow> a \<in> dom (nodes w) \<longrightarrow>
        nodes w' a = nodes w a \<and> ops w' a = ops w a)"

lemma sparesD: "spares R w w' \<Longrightarrow> pending w r q \<Longrightarrow> r \<notin> R \<Longrightarrow> pending w' r q"
  unfolding spares_def by blast

lemma spares_settled:
  "spares R w w' \<Longrightarrow> ops w a = Some x \<Longrightarrow> settled x \<Longrightarrow> a \<in> dom (nodes w) \<Longrightarrow> a \<notin> R \<Longrightarrow>
    nodes w' a = nodes w a \<and> ops w' a = ops w a"
  unfolding spares_def by blast

lemma spares_refl [simp]: "spares R w w"
  by (simp add: spares_def)

lemma spares_trans: "spares R w w1 \<Longrightarrow> spares S w1 w2 \<Longrightarrow> spares (R \<union> S) w w2"
  by (simp add: spares_def domIff)

lemma spares_mono: "spares R w w' \<Longrightarrow> R \<subseteq> S \<Longrightarrow> spares S w w'"
  unfolding spares_def by blast

lemma spares_queue: "pending w r q \<Longrightarrow> untouched (queue_nodes r q) w w' \<Longrightarrow> spares {r} w w'"
  unfolding spares_def by (intro conjI; (blast intro: pending_other)?) (fastforce simp: untouched_def pending_def)

lemma spares_fresh: "untouched {} w w' \<Longrightarrow> spares {} w w'"
  unfolding spares_def by (intro conjI; (blast intro: pending_untouched)?) (auto simp: untouched_def)

subsection \<open>Taking one operation out of its queue\<close>

lemma queued_unlink:
  assumes "world_ok w" "pending w r (ys @ (a, x) # zs)"
  obtains h where "ops w a = Some x" "unlink a (nodes w) = Some h"
    "is_bilist h r (map fst (ys @ zs))" "\<forall>y. y \<notin> queue_nodes r (ys @ zs) \<longrightarrow> h y = nodes w y"
    "dom h = dom (nodes w)" "nodes w a \<noteq> None" "h a \<noteq> None"
proof -
  have x: "ops w a = Some x" using assms(2) by (simp add: pending_def)
  have na: "nodes w a \<noteq> None" and B: "is_bilist (nodes w) r (map fst ys @ a # map fst zs)"
    using assms x by (auto simp: world_ok_def pending_def)
  from bl.remove_ok[OF B] obtain h where h: "unlink a (nodes w) = Some h" "is_bilist h r (map fst (ys @ zs))"
    "\<forall>y. y \<notin> queue_nodes r (ys @ zs) \<longrightarrow> h y = nodes w y" "dom h = dom (nodes w)"
    by (auto simp: ok_def)
  moreover have "h a \<noteq> None" using na h(4) by auto
  ultimately show thesis using that x na by blast
qed

lemma taken_outI:
  assumes "world_ok w" "pending w r (ys @ (a, x) # zs)"
    and h: "is_bilist h r (map fst (ys @ zs))" "\<forall>y. y \<notin> queue_nodes r (ys @ zs) \<longrightarrow> h y = nodes w y"
      "dom h = dom (nodes w)"
    and w': "w' = (op_effect sig ec a w)\<lparr>nodes := if finished ec x = None then h(a := None) else h\<rparr>"
  shows "taken_out a r (ys @ zs) w (op_effect sig ec a w) w'"
proof -
  have D: "distinct (r # map fst (ys @ (a, x) # zs))"
    using assms(2) by (rule pending_distinct)
  have x: "ops w a = Some x" and R: "ops w r = None" "\<forall>(a, x) \<in> set (ys @ zs). ops w a = Some x \<and> \<not> settled x"
    using assms(2) by (auto simp: pending_def)
  have "is_bilist (h(a := None)) r (map fst (ys @ zs)) = is_bilist h r (map fst (ys @ zs))"
    by (rule is_bilist_frame) (use D in auto)
  with h(1) have B: "is_bilist (nodes w') r (map fst (ys @ zs))" by (simp add: w')
  have "ops w' b = Some y \<and> \<not> settled y" if "(b, y) \<in> set (ys @ zs)" for b y
  proof -
    have "b \<in> fst ` set (ys @ zs)" using that by (rule image_eqI[rotated]) simp
    then have "b \<noteq> a" using D by auto
    with that R(2) x show ?thesis by (auto simp: w' op_effect_def)
  qed
  moreover have "ops w' r = None" using D R(1) x by (simp add: w' op_effect_def)
  ultimately have "pending w' r (ys @ zs)" using B by (auto simp: pending_def)
  moreover have "slots w s \<noteq> Some a" if "op_slot x \<noteq> Some s" for s
    using assms(1) x that by (force simp: world_ok_def)
  then have "world_ok w'"
    using assms(1) x h(3) unfolding world_ok_def w' op_effect_def
    by (auto simp: slots_slot_clear split: if_splits)
  moreover have "rest w' = rest (op_effect sig ec a w)" by (simp add: rest_def w')
  moreover have "untouched (insert a (queue_nodes r (ys @ zs))) w w'"
    using h(2) x by (auto simp: untouched_def w' op_effect_def)
  ultimately show ?thesis by (simp add: taken_out_def)
qed

lemmas op_defs = basic_op_model_complete_def basic_op_model_shutdown_def
  predicate_op_model_complete_def predicate_op_model_shutdown_def sync_finish_def
  lock_op_t_complete_def lock_op_t_shutdown_def acquire_op_t_complete_def acquire_op_t_shutdown_def
  arrive_op_t_complete_def arrive_op_t_shutdown_def destroy_def free_node_def emit_def

lemmas world_eval [sam_eval] = op_defs on_nodes_def slot_assign_def slot_clear_def new_node_def new_op_def
  get_associated_executor_def get_associated_immediate_executor_def basic_op_model_construct_def
  predicate_op_model_construct_def op_complete_def op_shutdown_def sync_return_def Let_def

lemma op_complete_ok:
  assumes "world_ok w" "pending w r (ys @ (a, x) # zs)"
  shows "ok (op_complete ec a w) (taken_out a r (ys @ zs) w (op_effect (signals ec) ec a w))"
proof -
  from queued_unlink[OF assms] obtain h where x: "ops w a = Some x" and u: "unlink a (nodes w) = Some h"
    and h: "is_bilist h r (map fst (ys @ zs))" "\<forall>y. y \<notin> queue_nodes r (ys @ zs) \<longrightarrow> h y = nodes w y"
      "dom h = dom (nodes w)"
    and na: "nodes w a \<noteq> None" and ha: "h a \<noteq> None" .
  show ?thesis
  proof (rule ok_SomeI)
    show "op_complete ec a w = Some ((op_effect (signals ec) ec a w)
       \<lparr>nodes := if finished ec x = None then h(a := None) else h\<rparr>)"
      using x u na ha by (cases x)
        (auto simp: op_complete_def op_defs op_effect_def on_nodes_def slot_clear_def Let_def split: option.splits)
  qed (rule taken_outI[OF assms h refl])
qed

lemma op_shutdown_ok:
  assumes "world_ok w" "pending w r (ys @ (a, x) # zs)"
  shows "ok (op_shutdown a w) (taken_out a r (ys @ zs) w (op_effect shutdown_signals shut_down a w))"
proof -
  from queued_unlink[OF assms] obtain h where x: "ops w a = Some x" and u: "unlink a (nodes w) = Some h"
    and h: "is_bilist h r (map fst (ys @ zs))" "\<forall>y. y \<notin> queue_nodes r (ys @ zs) \<longrightarrow> h y = nodes w y"
      "dom h = dom (nodes w)"
    and na: "nodes w a \<noteq> None" and ha: "h a \<noteq> None" .
  show ?thesis
  proof (rule ok_SomeI)
    show "op_shutdown a w = Some ((op_effect shutdown_signals shut_down a w)
       \<lparr>nodes := if finished shut_down x = None then h(a := None) else h\<rparr>)"
      using x u na ha by (cases x)
        (auto simp: op_shutdown_def op_defs op_effect_def on_nodes_def slot_clear_def Let_def split: option.splits)
  qed (rule taken_outI[OF assms h refl])
qed

subsection \<open>The interface between operations and the loops over a holder\<close>

text \<open>
  A loop over a holder calls a virtual member of the head operation until the list is
  empty.  It relies on one law: the member takes the operation out of its queue and
  changes nothing else but what \<open>sig\<close> and \<open>ec\<close> say.  Both virtual members obey it for
  all five operation types.
\<close>

lemma fold_rest:
  "rest w = rest w' \<Longrightarrow> rest (fold (op_effect sig ec) xs w) = rest (fold (op_effect sig ec) xs w')"
proof (induction xs arbitrary: w w')
  case (Cons a xs)
  have "rest (op_effect sig ec a w) = rest (op_effect sig ec a w')"
    using Cons.prems by (auto simp: rest_eq_iff op_effect_fields fun_eq_iff split: option.split)
  from Cons.IH[OF this] show ?case by simp
qed simp

locale op_action =
  fixes act :: "addr \<Rightarrow> world \<Rightarrow> world option"
    and sig :: "addr \<Rightarrow> wait_op \<Rightarrow> event list"
    and ec :: error_code
  assumes act_ok: "world_ok w \<Longrightarrow> pending w r (ys @ (a, x) # zs) \<Longrightarrow>
      ok (act a w) (taken_out a r (ys @ zs) w (op_effect sig ec a w))"
begin

lemma act_other:
  assumes "world_ok w" "pending w r (ys @ (a, x) # zs)" "pending w r' q" "r' \<noteq> r"
  shows "ok (act a w) (\<lambda>w'. pending w' r' q)"
proof (rule ok_conseq[OF act_ok[OF assms(1,2)]])
  fix w' assume "taken_out a r (ys @ zs) w (op_effect sig ec a w) w'"
  then have "untouched (queue_nodes r (ys @ (a, x) # zs)) w w'"
    unfolding taken_out_def by (elim conjE untouched_mono) auto
  then show "pending w' r' q"
    by (rule pending_other[OF assms(2,3) assms(4)[symmetric]])
qed

lemma drain_ok:
  assumes "world_ok w" "pending w r q"
  shows "ok (drain act r w) (\<lambda>w'. world_ok w' \<and> pending w' r [] \<and>
     rest w' = rest (fold (op_effect sig ec) (map fst q) w) \<and> untouched (queue_nodes r q) w w')"
  using assms
proof (induction q arbitrary: w)
  case Nil
  then show ?case by (subst drain.simps) (auto dest: pending_empty)
next
  case (Cons ax q)
  obtain a x where ax: "ax = (a, x)" by force
  have nx: "get_next r (nodes w) = Some a" "a \<noteq> r"
    using pending_head[of w r a x q] Cons.prems(2) ax by auto
  have t: "ok (act a w) (taken_out a r q w (op_effect sig ec a w))"
    using act_ok[of w r "[]" a x q] Cons.prems ax by simp
  have "ok (act a w) (\<lambda>w1. ok (drain act r w1) (\<lambda>w'. world_ok w' \<and> pending w' r [] \<and>
      rest w' = rest (fold (op_effect sig ec) (map fst (ax # q)) w) \<and>
      untouched (queue_nodes r (ax # q)) w w'))"
  proof (rule ok_conseq[OF t])
    fix w1 assume "taken_out a r q w (op_effect sig ec a w) w1"
    then have 1: "world_ok w1" "pending w1 r q" "rest w1 = rest (op_effect sig ec a w)"
      and u: "untouched (queue_nodes r (ax # q)) w w1"
      by (auto simp: taken_out_def ax insert_commute)
    have f: "rest (fold (op_effect sig ec) xs w1) = rest (fold (op_effect sig ec) xs (op_effect sig ec a w))" for xs
      using 1(3) by (intro fold_rest)
    show "ok (drain act r w1) (\<lambda>w'. world_ok w' \<and> pending w' r [] \<and>
      rest w' = rest (fold (op_effect sig ec) (map fst (ax # q)) w) \<and> untouched (queue_nodes r (ax # q)) w w')"
      by (rule ok_conseq[OF Cons.IH[OF 1(1,2)]])
        (use u f in \<open>auto simp: ax elim!: untouched_trans\<close>)
  qed
  then show ?case using nx by (subst drain.simps) simp
qed

end

interpretation compl: op_action "op_complete ec" "signals ec" ec for ec
  by unfold_locales (rule op_complete_ok)

interpretation shut: op_action op_shutdown shutdown_signals shut_down
  by unfold_locales (rule op_shutdown_ok)

subsection \<open>Joining a queue\<close>

lemma new_op_ok:
  assumes "world_ok w" "new_op x w = (a, w')"
  shows "a = brk w" "world_ok w'" "ops w' = (ops w)(a \<mapsto> x)" "slots w' = slots w" "trace w' = trace w"
    "brk w' = Suc (brk w)" "a \<notin> dom (nodes w)" "a \<in> dom (nodes w')" "ops w a = None" "untouched {} w w'"
    "\<And>y. y \<noteq> a \<Longrightarrow> nodes w' y = nodes w y"
  using assms by (auto simp: new_op_def new_node_def world_ok_def node_ctor_def untouched_def; fastforce)+


text \<open>A new operation is linked before the root, that is, at the tail of the queue.\<close>

definition joined :: "addr \<Rightarrow> (addr \<times> wait_op) list \<Rightarrow> wait_op \<Rightarrow> world \<Rightarrow> world \<Rightarrow> bool" where
  "joined r q x w w' \<longleftrightarrow> world_ok w' \<and> pending w' r (q @ [(brk w, x)]) \<and>
     ops w' = (ops w)(brk w \<mapsto> x) \<and> slots w' = slots w \<and> trace w' = trace w \<and>
     brk w' = Suc (brk w) \<and> untouched (queue_nodes r q) w w'"

lemma join_ok:
  assumes "world_ok w" "pending w r q" "new_op x w = (a, w1)" "\<not> settled x"
  shows "ok (on_nodes (link_before a r) w1) (joined r q x w)"
proof (rule on_nodes_ok)
  note n = new_op_ok[OF assms(1,3)]
  have 1: "pending w1 r q"
    by (rule pending_untouched[OF assms(2) n(10)]) simp
  have a: "a \<notin> queue_nodes r q" using n(7) pending_live[OF assms(2)] by blast
  have B: "is_bilist (nodes w1) r (map fst q)" using 1 by (simp add: pending_def)
  show "ok (link_before a r (nodes w1)) (\<lambda>h. joined r q x w (w1\<lparr>nodes := h\<rparr>))"
  proof (rule ok_conseq[OF bl.push_back_ok[OF B n(8) a]], elim conjE)
    fix h
    assume h: "is_bilist h r (map fst q @ [a])" "\<forall>x. x \<notin> set (r # map fst q @ [a]) \<longrightarrow> h x = nodes w1 x"
      "dom h = dom (nodes w1)"
    have "world_ok (w1\<lparr>nodes := h\<rparr>)" using n(2) h(3) by (simp add: world_ok_def)
    moreover have "pending (w1\<lparr>nodes := h\<rparr>) r (q @ [(a, x)])"
      using 1 h(1) n(3) a assms(4) by (auto simp: pending_def)
    moreover have "untouched (queue_nodes r q) w (w1\<lparr>nodes := h\<rparr>)"
      using h(2) n(3,7,11) by (auto simp: untouched_def)
    ultimately show "joined r q x w (w1\<lparr>nodes := h\<rparr>)"
      using n by (simp add: joined_def)
  qed
qed

subsection \<open>The loops over a holder\<close>

lemma fold_drained:
  assumes "distinct (map fst q)" "\<forall>(a, x) \<in> set q. ops w a = Some x"
  shows "drained sig ec q w (fold (op_effect sig ec) (map fst q) w)"
  using assms
proof (induction q arbitrary: w)
  case (Cons ax q)
  obtain a x where ax: "ax = (a, x)" by force
  let ?w = "op_effect sig ec a w"
  have a: "a \<notin> fst ` set q" "ops w a = Some x" using Cons.prems by (auto simp: ax)
  have "\<forall>(b, y) \<in> set q. ops ?w b = Some y"
    using Cons.prems a by (force simp: ax op_effect_fields)
  then have "drained sig ec q ?w (fold (op_effect sig ec) (map fst q) ?w)"
    using Cons by simp
  moreover have "map_of q a = None" using a(1) by (simp add: map_of_eq_None_iff)
  ultimately show ?case
    using a(2) by (auto simp: drained_def ax op_effect_fields split: option.splits)
qed (simp add: drained_def)

lemma drained_brk: "drained sig ec q w w' \<Longrightarrow> brk w' = brk w"
  by (simp add: drained_def)

lemma drained_rest: "drained sig ec q w e \<Longrightarrow> rest w' = rest e \<Longrightarrow> drained sig ec q w w'"
  by (simp add: drained_def rest_eq_iff)

lemma drained_start: "rest w = rest v \<Longrightarrow> drained sig ec q w w' = drained sig ec q v w'"
  by (simp add: drained_def rest_eq_iff cong: option.case_cong)

context op_action
begin

lemma drain_drained:
  assumes "world_ok w" "pending w r q"
  shows "ok (drain act r w) (\<lambda>w'. world_ok w' \<and> pending w' r [] \<and> drained sig ec q w w' \<and>
     untouched (queue_nodes r q) w w')"
proof -
  have "drained sig ec q w (fold (op_effect sig ec) (map fst q) w)"
    using assms(2) pending_distinct[OF assms(2)] by (intro fold_drained) (auto simp: pending_def)
  then show ?thesis
    by (intro ok_conseq[OF drain_ok[OF assms]]) (auto intro: drained_rest)
qed

end

lemma holder_complete_all_ok:
  assumes "world_ok w" "pending w r q"
  shows "ok (holder_complete_all r ec w) (\<lambda>w'. world_ok w' \<and> pending w' r [] \<and>
     drained (signals ec) ec q w w' \<and> untouched (queue_nodes r q) w w')"
  unfolding holder_complete_all_def by (rule compl.drain_drained[OF assms])

lemma free_root_ok:
  assumes "world_ok w" "pending w r []"
  shows "ok (free_node r w) (\<lambda>w'. world_ok w' \<and> rest w' = rest w \<and> nodes w' = (nodes w)(r := None))"
proof -
  have "nodes w r \<noteq> None" "ops w r = None"
    using pending_live[OF assms(2)] assms(2) by (auto simp: pending_def)
  then show ?thesis
    using assms(1) by (auto simp: free_node_def world_ok_def rest_def)
qed

lemma holder_dtor_ok:
  assumes "world_ok w" "pending w r q"
  shows "ok (holder_dtor r w) (\<lambda>w'. world_ok w' \<and> nodes w' r = None \<and>
     drained (signals operation_aborted) operation_aborted q w w' \<and> untouched (queue_nodes r q) w w')"
  unfolding holder_dtor_def ok_bind
proof (rule ok_conseq[OF compl.drain_drained[OF assms]], elim conjE)
  fix w1
  assume w1: "world_ok w1" "pending w1 r []"
    "drained (signals operation_aborted) operation_aborted q w w1" "untouched (queue_nodes r q) w w1"
  show "ok (free_node r w1) (\<lambda>w'. world_ok w' \<and> nodes w' r = None \<and>
     drained (signals operation_aborted) operation_aborted q w w' \<and> untouched (queue_nodes r q) w w')"
  proof (rule ok_conseq[OF free_root_ok[OF w1(1,2)]], elim conjE)
    fix w' assume w': "world_ok w'" "rest w' = rest w1" "nodes w' = (nodes w1)(r := None)"
    then have "untouched {r} w1 w'" by (simp add: untouched_def rest_eq_iff)
    with w' w1 show "world_ok w' \<and> nodes w' r = None \<and>
       drained (signals operation_aborted) operation_aborted q w w' \<and> untouched (queue_nodes r q) w w'"
      by (auto intro: drained_rest untouched_trans)
  qed
qed

lemma shutdown_loop_drain:
  assumes "world_ok w" "pending w r q"
  shows "shutdown_loop r w = drain op_shutdown r w"
  using assms
proof (induction q arbitrary: w)
  case Nil
  then have "get_next r (nodes w) = Some r" by (simp add: pending_empty)
  then show ?case by (subst drain.simps, subst shutdown_loop.simps) simp
next
  case (Cons ax q)
  obtain a x where ax: "ax = (a, x)" by force
  have nx: "get_next r (nodes w) = Some a" "get_next a (nodes w) = Some (hd (map fst q @ [r]))" "a \<noteq> r"
    using Cons.prems(2) is_bilist_next_elem[of "nodes w" r "[]" a "map fst q"]
    by (auto simp: ax pending_def is_bilist_def link_def)
  obtain w1 where w1: "op_shutdown a w = Some w1" "world_ok w1" "pending w1 r q"
    using shut.act_ok[of w r "[]" a x q] Cons.prems by (auto simp: ok_def taken_out_def ax)
  have "get_next r (nodes w1) = Some (hd (map fst q @ [r]))"
    using w1(3) by (rule pending_next)
  then have "on_nodes (set_next r (hd (map fst q @ [r]))) w1 = Some w1"
    by (auto simp: on_nodes_def heap_access fun_upd_idem)
  with nx w1 Cons.IH[OF w1(2,3)] show ?case
    by (subst drain.simps, subst shutdown_loop.simps) simp
qed


lemma holder_move_ctor_ok:
  assumes "world_ok w" "pending w r q"
  shows "ok (holder_move_ctor r w) (\<lambda>(b, w'). b = brk w \<and> world_ok w' \<and> pending w' b q \<and> pending w' r [] \<and>
     ops w' = ops w \<and> slots w' = slots w \<and> trace w' = trace w \<and> brk w' = Suc (brk w) \<and>
     b \<notin> dom (nodes w) \<and> untouched (queue_nodes r q) w w')"
proof -
  let ?b = "brk w"
  have B: "is_bilist (nodes w) r (map fst q)" using assms(2) by (simp add: pending_def)
  have b: "?b \<notin> dom (nodes w)" "ops w ?b = None" using assms(1) by (auto simp: world_ok_def)
  from node_move_ctor_bilist[OF B b(1)] obtain h where m: "node_move_ctor ?b r (nodes w) = Some h"
    and h: "is_bilist h ?b (map fst q)" "is_bilist h r []"
      "\<forall>x. x \<notin> set (?b # r # map fst q) \<longrightarrow> h x = nodes w x" "dom h = insert ?b (dom (nodes w))"
    by (auto elim!: okE)
  let ?w = "w\<lparr>brk := Suc ?b, nodes := h\<rparr>"
  have "world_ok ?w" using assms(1) h(4) unfolding world_ok_def
    by (simp add: less_Suc_eq subset_eq)
  moreover have "pending ?w ?b q" "pending ?w r []"
    using h(1,2) assms(2) b(2) by (auto simp: pending_def)
  moreover have "h x = nodes w x" if "x \<in> dom (nodes w)" "x \<notin> queue_nodes r q" for x
  proof -
    have "x \<noteq> ?b" using that b(1) by blast
    with that h(3) show ?thesis by simp
  qed
  then have "untouched (queue_nodes r q) w ?w" by (simp add: untouched_def)
  ultimately show ?thesis
    using m b(1) by (simp add: holder_move_ctor_def on_nodes_def Let_def)
qed

lemma holder_shutdown_ok:
  assumes "world_ok w" "pending w r q"
  shows "ok (holder_shutdown r w) (\<lambda>w'. world_ok w' \<and> pending w' r [] \<and>
     drained shutdown_signals shut_down q (w\<lparr>brk := Suc (brk w)\<rparr>) w' \<and> untouched (queue_nodes r q) w w')"
proof -
  from holder_move_ctor_ok[OF assms] obtain b w1 where
    w1: "holder_move_ctor r w = Some (b, w1)" "b = brk w" "world_ok w1" "pending w1 b q" "pending w1 r []"
      "ops w1 = ops w" "slots w1 = slots w" "trace w1 = trace w" "brk w1 = Suc (brk w)"
      "b \<notin> dom (nodes w)" "untouched (queue_nodes r q) w w1"
    by (auto elim!: okE)
  have br: "b \<noteq> r" using w1(10) pending_live[OF assms(2)] by auto
  from shut.drain_drained[OF w1(3,4)] obtain w2 where
    w2: "drain op_shutdown b w1 = Some w2" "world_ok w2" "pending w2 b []"
      "drained shutdown_signals shut_down q w1 w2" "untouched (queue_nodes b q) w1 w2"
    by (auto elim!: okE)
  have p2: "pending w2 r []" by (rule pending_other[OF w1(4,5) br w2(5)])
  from free_root_ok[OF w2(2,3)] obtain w3 where
    w3: "free_node b w2 = Some w3" "world_ok w3" "rest w3 = rest w2" "nodes w3 = (nodes w2)(b := None)"
    by (auto elim!: okE)
  have u3: "untouched {b} w2 w3" using w3(3,4) by (simp add: untouched_def rest_eq_iff)
  have "pending w3 r []" by (rule pending_untouched[OF p2 u3]) (use br in simp)
  moreover have "rest w1 = rest (w\<lparr>brk := Suc (brk w)\<rparr>)" using w1 by (simp add: rest_eq_iff)
  then have "drained shutdown_signals shut_down q (w\<lparr>brk := Suc (brk w)\<rparr>) w3"
    using w2(4) w3(3) drained_rest drained_start by blast
  moreover have "untouched (queue_nodes r q) w w2"
    by (rule untouched_trans[OF w1(11) w2(5)]) (use w1(10) in auto)
  then have "untouched (queue_nodes r q) w w3"
    by (rule untouched_trans[OF _ u3]) (use w1(10) in auto)
  ultimately show ?thesis
    using w1(1,3,4) w2(1) w3(1,2) by (simp add: holder_shutdown_def shutdown_loop_drain)
qed

text \<open>The holder of the condition variable has the same members.\<close>

lemma predicate_holder_dtor_eq: "predicate_holder_dtor = holder_dtor"
  by (simp add: fun_eq_iff predicate_holder_dtor_def holder_dtor_def)

lemma predicate_holder_shutdown_eq: "predicate_holder_shutdown = holder_shutdown"
  by (simp add: fun_eq_iff predicate_holder_shutdown_def holder_shutdown_def)


subsection \<open>The building blocks of the primitives\<close>

text \<open>Completing an operation of a queue, with its effect spelled out.\<close>

lemma complete_pending:
  assumes "world_ok w" "pending w r (ys @ (a, x) # zs)"
  obtains w' where "op_complete ec a w = Some w'" "world_ok w'" "pending w' r (ys @ zs)"
    "trace w' = trace w @ signals ec a x" "brk w' = brk w" "ops w' = (ops w)(a := finished ec x)"
    "slots w' = (\<lambda>s. if op_slot x = Some s then None else slots w s)"
    "untouched (queue_nodes r (ys @ (a, x) # zs)) w w'"
proof -
  from compl.act_ok[OF assms] obtain w' where c: "op_complete ec a w = Some w'"
    and t: "taken_out a r (ys @ zs) w (op_effect (signals ec) ec a w) w'"
    by (auto elim!: okE)
  have "ops w a = Some x" using assms(2) by (simp add: pending_def)
  with t have "world_ok w'" "pending w' r (ys @ zs)" "trace w' = trace w @ signals ec a x" "brk w' = brk w"
    "ops w' = (ops w)(a := finished ec x)" "slots w' = (\<lambda>s. if op_slot x = Some s then None else slots w s)"
    and u: "untouched (insert a (queue_nodes r (ys @ zs))) w w'"
    by (auto simp: taken_out_def rest_eq_iff op_effect_fields)
  moreover have "untouched (queue_nodes r (ys @ (a, x) # zs)) w w'"
    by (rule untouched_mono[OF u]) auto
  ultimately show thesis using that c by blast
qed

text \<open>An asynchronous request joins a queue: construct, install the cancellation handler, link.\<close>

lemma join_async:
  assumes "world_ok w" "pending w r q" "new_op x w = (a, w1)" "\<not> settled x"
  obtains w' where "on_nodes (link_before a r) (slot_assign (op_slot x) a w1) = Some w'" "world_ok w'"
    "pending w' r (q @ [(brk w, x)])" "ops w' = (ops w)(brk w \<mapsto> x)"
    "slots w' = slots (slot_assign (op_slot x) (brk w) w)" "trace w' = trace w" "brk w' = Suc (brk w)"
    "untouched (queue_nodes r q) w w'" "a = brk w"
proof -
  note n = new_op_ok[OF assms(1,3)]
  from join_ok[OF assms] obtain w2 where l: "on_nodes (link_before a r) w1 = Some w2"
    and j: "joined r q x w w2" by (auto elim!: okE)
  have o: "on_nodes (link_before a r) (slot_assign (op_slot x) a w1) = Some (slot_assign (op_slot x) a w2)"
    using l by (auto simp: on_nodes_def slot_assign_def split: option.splits)
  have "ops w2 a = Some x" using j n(1) by (simp add: joined_def)
  then have "world_ok (slot_assign (op_slot x) a w2)"
    using j by (intro world_ok_slot_assign) (auto simp: joined_def)
  moreover have "slots (slot_assign (op_slot x) a w2) = slots (slot_assign (op_slot x) (brk w) w)"
    using j n(1) by (simp add: joined_def slot_assign_def split: option.split)
  ultimately show thesis
    using o j n(1) by (intro that[of "slot_assign (op_slot x) a w2"]) (simp_all add: joined_def)
qed

text \<open>A blocking call puts its operation into the queue, and takes it out if it need not wait.\<close>

lemma join_sync:
  assumes "world_ok w" "pending w r q" "new_op x w = (a, w1)" "\<not> settled x"
  obtains w' where "on_nodes (link_before a r) w1 = Some w'" "joined r q x w w'" "a = brk w"
  using join_ok[OF assms] new_op_ok(1)[OF assms(1,3)] that by (auto elim!: okE)

lemma join_leave:
  assumes "world_ok w" "joined r q x w w1"
  obtains w2 w3 where "on_nodes (unlink (brk w)) w1 = Some w2" "destroy (brk w) w2 = Some w3"
    "world_ok w3" "pending w3 r q" "ops w3 = ops w"
    "slots w3 = slots w" "trace w3 = trace w" "brk w3 = Suc (brk w)" "untouched (queue_nodes r q) w w3"
proof -
  let ?a = "brk w"
  have j: "world_ok w1" "pending w1 r (q @ (?a, x) # [])" using assms(2) by (auto simp: joined_def)
  from queued_unlink[OF j] obtain h where h: "ops w1 ?a = Some x" "unlink ?a (nodes w1) = Some h"
    "is_bilist h r (map fst q)" "\<forall>y. y \<notin> queue_nodes r q \<longrightarrow> h y = nodes w1 y"
    "dom h = dom (nodes w1)" "nodes w1 ?a \<noteq> None" "h ?a \<noteq> None" by auto
  have a: "?a \<notin> queue_nodes r q" "?a \<notin> dom (nodes w)" "ops w ?a = None"
    using pending_distinct[OF j(2)] assms(1) by (auto simp: world_ok_def)
  let ?w2 = "w1\<lparr>nodes := h\<rparr>" and ?w3 = "w1\<lparr>nodes := h(?a := None), ops := (ops w1)(?a := None)\<rparr>"
  have B: "is_bilist (h(?a := None)) r (map fst q)"
    by (rule is_bilist_frameI[OF h(3)]) (use a(1) in auto)
  have o: "ops ?w3 = ops w" using assms(2) a(3) by (auto simp: joined_def)
  have "pending w1 r (q @ [(?a, x)])" using j(2) by simp
  then have "pending ?w3 r q" using B a(1) by (force simp: pending_def)
  moreover have "world_ok ?w3"
    using j(1) h(5) assms o a(3) unfolding world_ok_def joined_def by auto
  moreover have "untouched (queue_nodes r q) w ?w3"
    unfolding untouched_def
  proof (intro ballI impI)
    fix y assume y: "y \<in> dom (nodes w)" "y \<notin> queue_nodes r q"
    then have "y \<noteq> ?a" using a(2) by blast
    with y h(4) assms(2) o show "nodes ?w3 y = nodes w y \<and> ops ?w3 y = ops w y"
      by (auto simp: joined_def untouched_def)
  qed
  ultimately show thesis
    using that[of ?w2 ?w3] h o assms(2) a(3)
    by (simp add: on_nodes_def destroy_def free_node_def joined_def fun_upd_idem)
qed

text \<open>
  The body of \<open>shutdown\<close> in every primitive: the waiters move into a local holder, which is
  shut down and goes out of scope.  The list of the primitive is left empty and usable.
\<close>

lemma move_shutdown:
  assumes "world_ok w" "pending w r q"
  obtains l w1 w2 w3 where "holder_move_ctor r w = Some (l, w1)" "holder_shutdown l w1 = Some w2"
    "holder_dtor l w2 = Some w3" "world_ok w3" "pending w3 r []"
    "drained shutdown_signals shut_down q (w\<lparr>brk := brk w + 2\<rparr>) w3" "untouched (queue_nodes r q) w w3"
proof -
  from holder_move_ctor_ok[OF assms] obtain l w1 where
    w1: "holder_move_ctor r w = Some (l, w1)" "l = brk w" "world_ok w1" "pending w1 l q" "pending w1 r []"
      "ops w1 = ops w" "slots w1 = slots w" "trace w1 = trace w" "brk w1 = Suc (brk w)"
      "l \<notin> dom (nodes w)" "untouched (queue_nodes r q) w w1"
    by (auto elim!: okE)
  have lr: "l \<noteq> r" using w1(10) pending_live[OF assms(2)] by auto
  from holder_shutdown_ok[OF w1(3,4)] obtain w2 where
    w2: "holder_shutdown l w1 = Some w2" "world_ok w2" "pending w2 l []"
      "drained shutdown_signals shut_down q (w1\<lparr>brk := Suc (brk w1)\<rparr>) w2" "untouched (queue_nodes l q) w1 w2"
    by (auto elim!: okE)
  have p2: "pending w2 r []" by (rule pending_other[OF w1(4,5) lr w2(5)])
  from holder_dtor_ok[OF w2(2,3)] obtain w3 where
    w3: "holder_dtor l w2 = Some w3" "world_ok w3"
      "drained (signals operation_aborted) operation_aborted [] w2 w3" "untouched (queue_nodes l []) w2 w3"
    by (auto elim!: okE)
  have r3: "rest w3 = rest w2" using w3(3) by (simp add: drained_def rest_eq_iff fun_eq_iff)
  have "rest (w1\<lparr>brk := Suc (brk w1)\<rparr>) = rest (w\<lparr>brk := brk w + 2\<rparr>)" using w1 by (simp add: rest_eq_iff)
  then have "drained shutdown_signals shut_down q (w\<lparr>brk := brk w + 2\<rparr>) w3"
    using w2(4) r3 drained_rest drained_start by blast
  moreover have "pending w3 r []" by (rule pending_other[OF w2(3) p2 lr w3(4)])
  moreover have "untouched (queue_nodes r q) w w3"
    by (rule untouched_trans[OF untouched_trans[OF w1(11) w2(5)] w3(4)]) (use w1(10) in auto)
  ultimately show thesis using that w1(1) w2(1) w3(1,2) by blast
qed

subsection \<open>Grants\<close>

text \<open>
  A completion without an error tells its recipient that the request was granted;
  \<open>grants w w'\<close> counts those that happened between two states.
\<close>

fun granted_event :: "event \<Rightarrow> bool" where
  "granted_event (Post _ _ ec) = (\<not> failed ec)"
| "granted_event (Dispatch _ _ ec) = (\<not> failed ec)"
| "granted_event (Wake _ ec) = (\<not> failed ec)"

definition grants :: "world \<Rightarrow> world \<Rightarrow> nat" where
  "grants w w' = length (filter granted_event (drop (length (trace w)) (trace w')))"

lemma signals_granted [simp]: "filter granted_event (signals success a x) = signals success a x"
  "length (signals ec a x) = 1"
  by (cases x; simp)+

lemma signals_not_granted [simp]: "failed ec \<Longrightarrow> filter granted_event (signals ec a x) = []"
  by (cases x) simp_all

lemma grants_append [simp]: "trace w' = trace w @ es \<Longrightarrow> grants w w' = length (filter granted_event es)"
  by (simp add: grants_def)

end
