(* ===== verification/Service_Member.thy ===== *)
theory Service_Member
  imports Wait_Op
begin

section \<open>Threading mode, the internal mutex and the service registration\<close>

text \<open>
  Models \<open>detail/concurrency_hint.hpp\<close>, \<open>detail/conditionally_enabled_mutex.hpp\<close> and the
  registration half of \<open>detail/service.hpp\<close>: the base class \<open>service_member\<close> of every
  primitive, and \<open>register_queue\<close> and \<open>unregister_queue\<close> of the service that lists them.

  The two concurrency hints are macros of asio and the configuration of an execution
  context is asio's: they are the parameters \<open>asio_hints\<close> and \<open>config_get\<close>.
\<close>

subsection \<open>Concurrency hints\<close>

record asio_hints =
  HINT_DEFAULT :: int
  HINT_1 :: int

record execution_context =
  config_get :: "string \<Rightarrow> string \<Rightarrow> int \<Rightarrow> int"
  ctx_executor :: executor

definition is_single_threaded :: "asio_hints \<Rightarrow> execution_context \<Rightarrow> int \<Rightarrow> bool" where
  "is_single_threaded A ctx concurrency_hint =
     (if concurrency_hint \<noteq> HINT_DEFAULT A then HINT_1 A = concurrency_hint
      else (let cc = config_get ctx ''scheduler'' ''concurrency_hint'' (HINT_DEFAULT A)
            in cc = HINT_1 A))"

text \<open>The overload for an executor asks its context, which is asio's: \<open>context_of\<close>.\<close>

definition is_single_threaded_exec :: "asio_hints \<Rightarrow> (executor \<Rightarrow> execution_context) \<Rightarrow> executor \<Rightarrow> bool" where
  "is_single_threaded_exec A context_of exec = is_single_threaded A (context_of exec) (HINT_DEFAULT A)"

subsection \<open>The conditionally enabled mutex\<close>

text \<open>
  \<open>mtx_held\<close> is the state of the wrapped \<open>std::mutex\<close>.  Locking it while it is held is
  not a step that can be taken (another thread would wait, the same thread would be
  undefined); unlocking it while it is free is undefined.
\<close>

record conditionally_enabled_mutex =
  enabled :: bool
  locked_flag :: bool
  mtx_held :: bool

definition cem_ctor :: "bool \<Rightarrow> conditionally_enabled_mutex" where
  "cem_ctor en = \<lparr>enabled = en, locked_flag = False, mtx_held = False\<rparr>"

definition cem_lock :: "conditionally_enabled_mutex \<Rightarrow> conditionally_enabled_mutex option" where
  "cem_lock m = do {
     m \<leftarrow> (if enabled m then (if mtx_held m then None else Some (m\<lparr>mtx_held := True\<rparr>)) else Some m);
     Some (m\<lparr>locked_flag := True\<rparr>) }"

definition cem_unlock :: "conditionally_enabled_mutex \<Rightarrow> conditionally_enabled_mutex option" where
  "cem_unlock m = do {
     let m = m\<lparr>locked_flag := False\<rparr>;
     (if enabled m then (if mtx_held m then Some (m\<lparr>mtx_held := False\<rparr>) else None) else Some m) }"

subsection \<open>Blocked calls go on\<close>

text \<open>
  A blocked call waits in \<open>op.wait(lock)\<close>, where \<open>lock\<close> is its \<open>std::unique_lock\<close> on the internal mutex of the primitive it
  was made on.  While it waits the mutex is released; when the predicate of \<open>var.wait\<close> holds, \<open>wait\<close> locks it again and
  returns.  The mutex that \<open>lock\<close> refers to is the argument.
\<close>

definition lock_op_t_wait :: "sync_op \<Rightarrow> conditionally_enabled_mutex \<Rightarrow> conditionally_enabled_mutex option" where
  [simp]: "lock_op_t_wait this lock = (if op_done this then cem_lock lock else None)"

definition acquire_op_t_wait :: "sync_op \<Rightarrow> conditionally_enabled_mutex \<Rightarrow> conditionally_enabled_mutex option" where
  [simp]: "acquire_op_t_wait this lock = (if op_done this then cem_lock lock else None)"

definition arrive_op_t_wait :: "sync_op \<Rightarrow> conditionally_enabled_mutex \<Rightarrow> conditionally_enabled_mutex option" where
  [simp]: "arrive_op_t_wait this lock = (if op_done this then cem_lock lock else None)"

text \<open>Then the blocked call returns: first the operation leaves the stack, then \<open>lock\<close> releases the mutex.\<close>

definition op_wait :: "wait_op \<Rightarrow> conditionally_enabled_mutex \<Rightarrow> conditionally_enabled_mutex option" where
  "op_wait op lock = (case op of
     Lock_op s \<Rightarrow> lock_op_t_wait s lock
   | Acquire_op s \<Rightarrow> acquire_op_t_wait s lock
   | Arrive_op s \<Rightarrow> arrive_op_t_wait s lock
   | _ \<Rightarrow> None)"

definition sync_resume ::
  "addr \<Rightarrow> conditionally_enabled_mutex \<Rightarrow> world \<Rightarrow> (error_code \<times> conditionally_enabled_mutex \<times> world) option" where
  "sync_resume op lock w = do {
     x \<leftarrow> ops w op;
     lock \<leftarrow> op_wait x lock;
     (ec, w) \<leftarrow> sync_return op w;
     lock \<leftarrow> cem_unlock lock;
     Some (ec, lock, w) }"

subsection \<open>Members of a service\<close>

text \<open>
  \<open>sm_node\<close> is the address of the member's own list node, \<open>service\<close> the pointer to its
  service, which is identified by the address of \<open>op_list_service::entries\<close>.
\<close>

record op_list_service =
  entries :: addr
  svc_mtx :: conditionally_enabled_mutex

record service_member =
  sm_node :: addr
  service :: "addr option"
  mtx :: conditionally_enabled_mutex

definition op_list_service_ctor ::
  "asio_hints \<Rightarrow> execution_context \<Rightarrow> world \<Rightarrow> op_list_service \<times> world" where
  "op_list_service_ctor A ctx w = (let (e, w) = new_node w in
     (\<lparr>entries = e, svc_mtx = cem_ctor (\<not> is_single_threaded A ctx (HINT_DEFAULT A))\<rparr>, w))"

definition register_queue :: "op_list_service \<Rightarrow> addr \<Rightarrow> world \<Rightarrow> (op_list_service \<times> world) option" where
  "register_queue svc sm w = do {
     l \<leftarrow> cem_lock (svc_mtx svc);
     w \<leftarrow> on_nodes (link_before sm (entries svc)) w;
     u \<leftarrow> cem_unlock l;
     Some (svc\<lparr>svc_mtx := u\<rparr>, w) }"

definition unregister_queue :: "op_list_service \<Rightarrow> addr \<Rightarrow> world \<Rightarrow> (op_list_service \<times> world) option" where
  "unregister_queue svc sm w = do {
     l \<leftarrow> cem_lock (svc_mtx svc);
     w \<leftarrow> on_nodes (unlink sm) w;
     u \<leftarrow> cem_unlock l;
     Some (svc\<lparr>svc_mtx := u\<rparr>, w) }"

definition service_member_ctor ::
  "asio_hints \<Rightarrow> execution_context \<Rightarrow> int \<Rightarrow> op_list_service \<Rightarrow> world \<Rightarrow>
   (service_member \<times> op_list_service \<times> world) option" where
  "service_member_ctor A ctx hint svc w = do {
     let (n, w) = new_node w;
     let this = \<lparr>sm_node = n, service = Some (entries svc),
                 mtx = cem_ctor (\<not> is_single_threaded A ctx hint)\<rparr>;
     (svc, w) \<leftarrow> register_queue svc n w;
     Some (this, svc, w) }"

text \<open>
  The move constructor takes the service of its source and registers the new object
  there; \<open>svc\<close> is the object the pointer refers to, a null pointer is undefined.
\<close>

definition service_member_move_ctor ::
  "'a service_member_scheme \<Rightarrow> op_list_service \<Rightarrow> world \<Rightarrow> (service_member \<times> op_list_service \<times> world) option" where
  "service_member_move_ctor sm svc w =
     (if service sm \<noteq> Some (entries svc) then None
      else do {
        let (n, w) = new_node w;
        let this = \<lparr>sm_node = n, service = service sm, mtx = cem_ctor (enabled (mtx sm))\<rparr>;
        (svc, w) \<leftarrow> register_queue svc n w;
        Some (this, svc, w) })"

definition service_member_move_assign ::
  "'a service_member_scheme \<Rightarrow> 'b service_member_scheme \<Rightarrow> op_list_service \<Rightarrow> world \<Rightarrow>
   ('a service_member_scheme \<times> 'b service_member_scheme \<times> op_list_service \<times> world) option" where
  "service_member_move_assign this sm svc w =
     (if service sm \<noteq> service this then
        (if service this \<noteq> Some (entries svc) then None
         else do {
           (svc, w) \<leftarrow> unregister_queue svc (sm_node this) w;
           let sm = sm\<lparr>service := service this\<rparr>;
           (svc, w) \<leftarrow> register_queue svc (sm_node this) w;
           Some (this, sm, svc, w) })
      else Some (this, sm, svc, w))"

definition service_member_dtor ::
  "'a service_member_scheme \<Rightarrow> op_list_service \<Rightarrow> world \<Rightarrow> (op_list_service \<times> world) option" where
  "service_member_dtor this svc w = do {
     l \<leftarrow> cem_lock (mtx this);
     (svc, w) \<leftarrow> (case service this of
         None \<Rightarrow> Some (svc, w)
       | Some e \<Rightarrow> if e \<noteq> entries svc then None else unregister_queue svc (sm_node this) w);
     u \<leftarrow> cem_unlock l;
     w \<leftarrow> free_node (sm_node this) w;
     Some (svc, w) }"

text \<open>
  \<open>lock_type lock{mtx_};\<close> at the head of a member function: the internal mutex is locked
  before the body and unlocked on every way out of it.
\<close>

definition scoped ::
  "('a service_member_scheme \<Rightarrow> ('b \<times> 'a service_member_scheme \<times> world) option) \<Rightarrow>
   'a service_member_scheme \<Rightarrow> ('b \<times> 'a service_member_scheme \<times> world) option" where
  "scoped body this = do {
     l \<leftarrow> cem_lock (mtx this);
     (x, this, w) \<leftarrow> body (this\<lparr>mtx := l\<rparr>);
     u \<leftarrow> cem_unlock (mtx this);
     Some (x, this\<lparr>mtx := u\<rparr>, w) }"

text \<open>What a synchronous call does: it returns with its \<open>error_code\<close>, or the thread blocks.\<close>

datatype 'a call = Returned 'a | Blocked addr

text \<open>
  The throwing overloads call the other one with a fresh \<open>error_code\<close> and throw what it
  set (\<open>detail/impl/exception.ipp\<close>); the same applies to a call that blocked, once it
  is resumed.
\<close>

definition throw_error :: "error_code \<Rightarrow> string \<Rightarrow> error_code + unit" where
  "throw_error ec prefx = Inl ec"

definition check_error :: "string \<Rightarrow> error_code \<Rightarrow> error_code + unit" where
  "check_error prefx ec = (if failed ec then throw_error ec prefx else Inr ())"

subsection \<open>Invariants\<close>

definition idle :: "conditionally_enabled_mutex \<Rightarrow> bool" where
  "idle m \<longleftrightarrow> \<not> locked_flag m \<and> \<not> mtx_held m"

definition acquired :: "conditionally_enabled_mutex \<Rightarrow> conditionally_enabled_mutex" where
  "acquired m = m\<lparr>locked_flag := True, mtx_held := enabled m\<rparr>"

definition registered :: "world \<Rightarrow> op_list_service \<Rightarrow> addr list \<Rightarrow> bool" where
  "registered w svc ms \<longleftrightarrow> is_bilist (nodes w) (entries svc) ms \<and> idle (svc_mtx svc) \<and>
     (\<forall>m \<in> set (entries svc # ms). ops w m = None)"

subsection \<open>Facts\<close>

lemma cem_ctor_idle [simp]: "idle (cem_ctor en)" "enabled (cem_ctor en) = en"
  by (simp_all add: cem_ctor_def idle_def)

lemma cem_lock_idle [simp]: "idle m \<Longrightarrow> cem_lock m = Some (acquired m)"
  by (simp add: cem_lock_def acquired_def idle_def)

lemma cem_unlock_acquired [simp]: "idle m \<Longrightarrow> cem_unlock (acquired m) = Some m"
  by (cases m) (simp add: cem_unlock_def acquired_def idle_def Let_def)

lemma enabled_acquired [simp]: "enabled (acquired m) = enabled m"
  by (simp add: acquired_def)

text \<open>An enabled mutex that is held cannot be locked again: critical sections exclude each other.\<close>

lemma cem_lock_held: "idle m \<Longrightarrow> enabled m \<Longrightarrow> cem_lock (acquired m) = None"
  by (simp add: cem_lock_def acquired_def)

lemma scoped_ok:
  assumes "idle (mtx this)"
    and "ok (body (this\<lparr>mtx := acquired (mtx this)\<rparr>))
      (\<lambda>(x, t, w). mtx t = acquired (mtx this) \<and> P (x, t\<lparr>mtx := mtx this\<rparr>, w))"
  shows "ok (scoped body this) P"
  using assms by (auto simp: scoped_def ok_def)

text \<open>A critical section that does not look at the object has the same effect under the mutex of any other.\<close>

lemma scoped_elsewhere:
  assumes "scoped (\<lambda>x. do { v \<leftarrow> c; Some ((), x, v) }) i = Some (u, i', w')" "idle (mtx m)"
  shows "scoped (\<lambda>x. do { v \<leftarrow> c; Some ((), x, v) }) m = Some ((), m, w')"
  using assms by (auto simp: scoped_def split: bind_splits)

lemma new_node_ok:
  assumes "world_ok w" "new_node w = (a, w')"
  shows "a = brk w" "world_ok w'" "ops w' = ops w" "slots w' = slots w" "trace w' = trace w"
    "brk w' = Suc (brk w)" "a \<notin> dom (nodes w)" "ops w a = None" "untouched {} w w'"
    "is_bilist (nodes w') a []" "\<And>y. y \<noteq> a \<Longrightarrow> nodes w' y = nodes w y" "a \<in> dom (nodes w')"
  using assms node_ctor_bilist[of a "nodes w"]
  by (auto simp: new_node_def world_ok_def untouched_def less_Suc_eq; force simp: node_ctor_def)+

lemma register_queue_ok:
  assumes "world_ok w" "registered w svc ms" "n \<in> dom (nodes w)" "n \<notin> set (entries svc # ms)" "ops w n = None"
  shows "ok (register_queue svc n w) (\<lambda>(svc', w'). svc' = svc \<and> world_ok w' \<and> registered w' svc (ms @ [n]) \<and>
    rest w' = rest w \<and> untouched (set (n # entries svc # ms)) w w')"
proof -
  have B: "is_bilist (nodes w) (entries svc) ms" and I: "idle (svc_mtx svc)"
    using assms(2) by (auto simp: registered_def)
  from bl.push_back_ok[OF B assms(3,4)] obtain h where l: "link_before n (entries svc) (nodes w) = Some h"
    and h: "is_bilist h (entries svc) (ms @ [n])" "\<forall>x. x \<notin> set (entries svc # ms @ [n]) \<longrightarrow> h x = nodes w x"
      "dom h = dom (nodes w)"
    by (auto elim!: okE)
  have "world_ok (w\<lparr>nodes := h\<rparr>)" using assms(1) h(3) by (simp add: world_ok_def)
  moreover have "registered (w\<lparr>nodes := h\<rparr>) svc (ms @ [n])"
    using h(1) assms(2,5) by (auto simp: registered_def)
  moreover have "untouched (set (n # entries svc # ms)) w (w\<lparr>nodes := h\<rparr>)"
    using h(2) by (auto simp: untouched_def)
  ultimately show ?thesis
    using l I by (simp add: register_queue_def on_nodes_def rest_def)
qed

lemma unregister_queue_ok:
  assumes "world_ok w" "registered w svc (ms @ n # ns)"
  shows "ok (unregister_queue svc n w) (\<lambda>(svc', w'). svc' = svc \<and> world_ok w' \<and> registered w' svc (ms @ ns) \<and>
    rest w' = rest w \<and> nodes w' n = nodes w n \<and> dom (nodes w') = dom (nodes w) \<and>
    untouched (set (entries svc # ms @ ns)) w w')"
proof -
  have B: "is_bilist (nodes w) (entries svc) (ms @ n # ns)" and I: "idle (svc_mtx svc)"
    using assms(2) by (auto simp: registered_def)
  from bl.remove_ok[OF B] obtain h where l: "unlink n (nodes w) = Some h"
    and h: "is_bilist h (entries svc) (ms @ ns)" "\<forall>x. x \<notin> set (entries svc # ms @ ns) \<longrightarrow> h x = nodes w x"
      "dom h = dom (nodes w)"
    by (auto elim!: okE)
  have "n \<notin> set (entries svc # ms @ ns)" using bl.repr_distinct[OF B] by auto
  then have "h n = nodes w n" using h(2) by blast
  moreover have "world_ok (w\<lparr>nodes := h\<rparr>)" using assms(1) h(3) by (simp add: world_ok_def)
  moreover have "registered (w\<lparr>nodes := h\<rparr>) svc (ms @ ns)"
    using h(1) assms(2) by (auto simp: registered_def)
  moreover have "untouched (set (entries svc # ms @ ns)) w (w\<lparr>nodes := h\<rparr>)"
    using h(2) by (auto simp: untouched_def)
  ultimately show ?thesis
    using l I h(3) by (simp add: unregister_queue_def on_nodes_def rest_def)
qed


text \<open>Both constructors create a node and append it to the list of the service.\<close>

lemma new_member_ok:
  assumes "world_ok w" "registered w svc ms" "new_node w = (n, w1)"
  shows "ok (register_queue svc n w1) (\<lambda>(svc', w'). n = brk w \<and> svc' = svc \<and>
    world_ok w' \<and> registered w' svc (ms @ [n]) \<and> rest w' = rest (w\<lparr>brk := Suc (brk w)\<rparr>) \<and>
    untouched (set (entries svc # ms)) w w')"
proof -
  note n = new_node_ok[OF assms(1,3)]
  have live: "set (entries svc # ms) \<subseteq> dom (nodes w)"
    using assms(2) by (auto simp: registered_def dest!: is_bilist_dom)
  then have ni: "n \<notin> set (entries svc # ms)" using n(7) by blast
  have "nodes w1 x = nodes w x" if "x \<in> set (entries svc # ms)" for x
    using that ni by (intro n(11)) blast
  then have "is_bilist (nodes w1) (entries svc) ms = is_bilist (nodes w) (entries svc) ms"
    by (rule is_bilist_frame)
  with assms(2) n(3) have R: "registered w1 svc ms" by (simp add: registered_def)
  have on: "ops w1 n = None" using n(3,8) by simp
  from register_queue_ok[OF n(2) R n(12) ni on] obtain w2 where
    w2: "register_queue svc n w1 = Some (svc, w2)" "world_ok w2" "registered w2 svc (ms @ [n])"
      "rest w2 = rest w1" "untouched (set (n # entries svc # ms)) w1 w2"
    by (auto elim!: okE)
  have "untouched (set (entries svc # ms)) w w2"
    by (rule untouched_trans[OF untouched_mono[OF n(9)] w2(5)]) (use n(7) in auto)
  moreover have "rest w2 = rest (w\<lparr>brk := Suc (brk w)\<rparr>)"
    using w2(4) n by (simp add: rest_eq_iff)
  ultimately show ?thesis using w2 n(1) by simp
qed

lemma service_member_ctor_ok:
  assumes "world_ok w" "registered w svc ms"
  shows "ok (service_member_ctor A ctx hint svc w) (\<lambda>(sm, svc', w').
    sm_node sm = brk w \<and> service sm = Some (entries svc) \<and> idle (mtx sm) \<and>
    enabled (mtx sm) = (\<not> is_single_threaded A ctx hint) \<and> svc' = svc \<and>
    world_ok w' \<and> registered w' svc (ms @ [brk w]) \<and> rest w' = rest (w\<lparr>brk := Suc (brk w)\<rparr>) \<and>
    untouched (set (entries svc # ms)) w w')"
proof -
  obtain n w1 where nw: "new_node w = (n, w1)" by force
  from new_member_ok[OF assms nw] show ?thesis
    using nw by (auto simp: service_member_ctor_def Let_def ok_def)
qed

lemma service_member_move_ctor_ok:
  assumes "world_ok w" "registered w svc ms" "service sm = Some (entries svc)"
  shows "ok (service_member_move_ctor sm svc w) (\<lambda>(this, svc', w').
    sm_node this = brk w \<and> service this = Some (entries svc) \<and> idle (mtx this) \<and>
    enabled (mtx this) = enabled (mtx sm) \<and> svc' = svc \<and>
    world_ok w' \<and> registered w' svc (ms @ [brk w]) \<and> rest w' = rest (w\<lparr>brk := Suc (brk w)\<rparr>) \<and>
    untouched (set (entries svc # ms)) w w')"
proof -
  obtain n w1 where nw: "new_node w = (n, w1)" by force
  from new_member_ok[OF assms(1,2) nw] show ?thesis
    using nw assms(3) by (auto simp: service_member_move_ctor_def Let_def ok_def)
qed

lemma service_member_dtor_ok:
  assumes "world_ok w" "registered w svc (ms @ sm_node this # ns)" "idle (mtx this)"
    and "service this = Some (entries svc)"
  shows "ok (service_member_dtor this svc w) (\<lambda>(svc', w'). svc' = svc \<and> world_ok w' \<and>
    registered w' svc (ms @ ns) \<and> dom (nodes w') = dom (nodes w) - {sm_node this} \<and> rest w' = rest w \<and>
    untouched (set (sm_node this # entries svc # ms @ ns)) w w')"
proof -
  let ?n = "sm_node this"
  from unregister_queue_ok[OF assms(1,2)] obtain w1 where
    w1: "unregister_queue svc ?n w = Some (svc, w1)" "world_ok w1" "registered w1 svc (ms @ ns)"
      "rest w1 = rest w" "nodes w1 ?n = nodes w ?n" "dom (nodes w1) = dom (nodes w)" "untouched (set (entries svc # ms @ ns)) w w1"
    by (auto elim!: okE)
  have live: "ops w ?n = None" "nodes w ?n \<noteq> None" and D: "?n \<notin> set (entries svc # ms @ ns)"
    using assms(2) is_bilist_dom[of "nodes w" "entries svc" "ms @ ?n # ns"]
    by (auto simp: registered_def) (auto simp: is_bilist_def)
  let ?w = "w1\<lparr>nodes := (nodes w1)(?n := None)\<rparr>"
  have f: "free_node ?n w1 = Some ?w" using live(2) w1(5) by (simp add: free_node_def)
  have "ops w1 ?n = None" using live(1) w1(4) by (simp add: rest_eq_iff)
  then have "world_ok ?w" using w1(2) by (auto simp: world_ok_def)
  moreover have "is_bilist (nodes ?w) (entries svc) (ms @ ns)"
    by (rule is_bilist_frameI[of "nodes w1"]) (use w1(3) D in \<open>auto simp: registered_def\<close>)
  then have "registered ?w svc (ms @ ns)" using w1(3) by (simp add: registered_def)
  moreover have "untouched (set (?n # entries svc # ms @ ns)) w ?w"
    using w1(7) by (auto simp: untouched_def)
  moreover have "dom (nodes ?w) = dom (nodes w) - {?n}" using w1(6) by auto
  ultimately show ?thesis
    using assms(3,4) w1(1,4) f by (simp add: service_member_dtor_def rest_def)
qed


subsection \<open>Registration and waiting lists side by side\<close>

lemma registered_live: "registered w svc ms \<Longrightarrow> set (entries svc # ms) \<subseteq> dom (nodes w)"
  by (auto simp: registered_def dest!: is_bilist_dom)

lemma registered_untouched:
  assumes "registered w svc ms" "untouched S w w'" "set (entries svc # ms) \<inter> S = {}"
  shows "registered w' svc ms"
proof -
  have same: "nodes w' x = nodes w x \<and> ops w' x = ops w x" if "x \<in> set (entries svc # ms)" for x
    using that assms registered_live[OF assms(1)] unfolding untouched_def by blast
  then have f: "nodes w' x = nodes w x" if "x \<in> set (entries svc # ms)" for x
    using that by blast
  have "is_bilist (nodes w') (entries svc) ms"
    by (rule is_bilist_frameI[OF _ f]) (use assms(1) in \<open>simp_all add: registered_def\<close>)
  then show ?thesis using assms(1) same by (auto simp: registered_def)
qed

lemma registered_pending_disjoint:
  assumes "registered w svc ms" "pending w r q" "r \<notin> set (entries svc # ms)"
  shows "queue_nodes r q \<inter> set (entries svc # ms) = {}"
proof -
  have "m \<notin> set (map fst q)" if "m \<in> set (entries svc # ms)" for m
    using assms(1,2) that unfolding registered_def pending_def by fastforce
  then show ?thesis using assms(3) by auto
qed

lemma registered_other:
  assumes "registered w svc ms" "pending w r q" "r \<notin> set (entries svc # ms)" "untouched (queue_nodes r q) w w'"
  shows "registered w' svc ms"
  by (rule registered_untouched[OF assms(1,4)]) (use registered_pending_disjoint[OF assms(1-3)] in blast)

text \<open>Registering and unregistering touch the nodes of the service's list, and no waiting list.\<close>

lemma spares_registration:
  assumes "registered w svc ms" "untouched (set (entries svc # ms)) w w'"
  shows "spares (set (entries svc # ms)) w w'"
  unfolding spares_def
  using pending_untouched[OF _ assms(2) registered_pending_disjoint[OF assms(1)]] assms
  by (intro conjI; (blast)?) (auto simp: untouched_def registered_def)

lemma pending_new_node:
  assumes "world_ok w" "new_node w = (r, w')"
  shows "pending w' r []"
  using new_node_ok[OF assms] by (simp add: pending_def)


text \<open>The constructors of a primitive with one waiting list: the base class, then the holder.\<close>

lemma member_ctor:
  assumes "world_ok w" "registered w svc ms"
  obtains sm w1 w2 where "service_member_ctor A ctx hint svc w = Some (sm, svc, w1)"
    "new_node w1 = (Suc (brk w), w2)" "sm_node sm = brk w" "service sm = Some (entries svc)" "idle (mtx sm)"
    "enabled (mtx sm) = (\<not> is_single_threaded A ctx hint)" "world_ok w2" "registered w2 svc (ms @ [brk w])"
    "pending w2 (Suc (brk w)) []" "ops w2 = ops w" "slots w2 = slots w" "trace w2 = trace w"
    "brk w2 = brk w + 2" "untouched (set (entries svc # ms)) w w2" "spares (set (entries svc # ms)) w w2"
    "{brk w, Suc (brk w)} \<inter> dom (nodes w) = {}"
proof -
  from service_member_ctor_ok[OF assms, of A ctx hint] obtain sm w1 where
    sm: "service_member_ctor A ctx hint svc w = Some (sm, svc, w1)" "sm_node sm = brk w"
      "service sm = Some (entries svc)" "idle (mtx sm)" "enabled (mtx sm) = (\<not> is_single_threaded A ctx hint)"
      "world_ok w1" "registered w1 svc (ms @ [brk w])" "rest w1 = rest (w\<lparr>brk := Suc (brk w)\<rparr>)"
      "untouched (set (entries svc # ms)) w w1"
    by (auto elim!: okE)
  obtain r w2 where nw: "new_node w1 = (r, w2)" by force
  note n = new_node_ok[OF sm(6) nw] and p = pending_new_node[OF sm(6) nw]
  have "registered w2 svc (ms @ [brk w])" by (rule registered_untouched[OF sm(7) n(9)]) simp
  moreover have "untouched (set (entries svc # ms)) w w2" by (rule untouched_trans[OF sm(9) n(9)]) simp
  moreover have "{brk w, Suc (brk w)} \<inter> dom (nodes w) = {}" using assms(1) by (auto simp: world_ok_def)
  ultimately show thesis using that sm nw n p spares_registration[OF assms(2)] by (simp add: rest_eq_iff)
qed

lemma member_move_ctor:
  assumes "world_ok w" "pending w r q" "registered w svc ms" "service sm = Some (entries svc)"
    and "r \<notin> set (entries svc # ms)"
  obtains t b w1 w2 where "service_member_move_ctor sm svc w = Some (t, svc, w1)"
    "holder_move_ctor r w1 = Some (b, w2)" "sm_node t = brk w" "service t = Some (entries svc)" "idle (mtx t)"
    "enabled (mtx t) = enabled (mtx sm)" "world_ok w2" "registered w2 svc (ms @ [brk w])"
    "pending w2 b q" "pending w2 r []" "b \<noteq> r" "ops w2 = ops w" "slots w2 = slots w" "trace w2 = trace w"
    "brk w2 = brk w + 2" "untouched (set (entries svc # ms) \<union> queue_nodes r q) w w2"
    "b = Suc (brk w)" "spares (insert r (set (entries svc # ms))) w w2" "{brk w, Suc (brk w)} \<inter> dom (nodes w) = {}"
proof -
  from service_member_move_ctor_ok[OF assms(1,3,4)] obtain t w1 where
    sm: "service_member_move_ctor sm svc w = Some (t, svc, w1)" "sm_node t = brk w" "service t = Some (entries svc)"
      "idle (mtx t)" "enabled (mtx t) = enabled (mtx sm)"
      "world_ok w1" "registered w1 svc (ms @ [brk w])" "rest w1 = rest (w\<lparr>brk := Suc (brk w)\<rparr>)"
      "untouched (set (entries svc # ms)) w w1" by (auto elim!: okE)
  have p1: "pending w1 r q"
    by (rule pending_untouched[OF assms(2) sm(9) registered_pending_disjoint[OF assms(3,2,5)]])
  have "brk w \<notin> dom (nodes w)" using assms(1) by (auto simp: world_ok_def)
  then have r: "r \<notin> set (entries svc # ms @ [brk w])"
    using assms(5) pending_live[OF assms(2)] by auto
  from holder_move_ctor_ok[OF sm(6) p1] obtain b w2 where
    w2: "holder_move_ctor r w1 = Some (b, w2)" "b = brk w1" "world_ok w2" "pending w2 b q" "pending w2 r []"
      "ops w2 = ops w1" "slots w2 = slots w1" "trace w2 = trace w1"
      "brk w2 = Suc (brk w1)" "b \<notin> dom (nodes w1)" "untouched (queue_nodes r q) w1 w2"
    by (auto elim!: okE)
  have "registered w2 svc (ms @ [brk w])" by (rule registered_other[OF sm(7) p1 r w2(11)])
  moreover have "b \<noteq> r" using w2(10) pending_live[OF p1] by auto
  moreover have "untouched (set (entries svc # ms) \<union> queue_nodes r q) w w2"
    by (rule untouched_trans[OF untouched_mono[OF sm(9)] w2(11)]) auto
  moreover have "spares (insert r (set (entries svc # ms))) w w2"
    using spares_trans[OF spares_registration[OF assms(3) sm(9)] spares_queue[OF p1 w2(11)]] by simp
  moreover have "{brk w, Suc (brk w)} \<inter> dom (nodes w) = {}" using assms(1) by (auto simp: world_ok_def)
  ultimately show thesis using that sm w2 by (simp add: rest_eq_iff)
qed

text \<open>The destructor of a primitive with one waiting list: the holder, then the base class.\<close>

lemma member_dtor_ok:
  assumes "world_ok w" "pending w r q" "idle (mtx m)"
    and "registered w svc (ms @ sm_node m # ns)" "service m = Some (entries svc)"
    and "r \<notin> set (entries svc # ms @ sm_node m # ns)"
  shows "ok (do { w1 \<leftarrow> holder_dtor r w; service_member_dtor m svc w1 }) (\<lambda>(svc', w'). svc' = svc \<and>
    world_ok w' \<and> registered w' svc (ms @ ns) \<and> nodes w' r = None \<and> nodes w' (sm_node m) = None \<and>
    drained (signals operation_aborted) operation_aborted q w w' \<and>
    spares (insert r (set (entries svc # ms @ sm_node m # ns))) w w')"
proof -
  from holder_dtor_ok[OF assms(1,2)] obtain w1 where
    w1: "holder_dtor r w = Some w1" "world_ok w1" "nodes w1 r = None"
      "drained (signals operation_aborted) operation_aborted q w w1"
      "untouched (queue_nodes r q) w w1" by (auto elim!: okE)
  have r1: "registered w1 svc (ms @ sm_node m # ns)"
    by (rule registered_other[OF assms(4,2,6) w1(5)])
  from service_member_dtor_ok[OF w1(2) r1 assms(3,5)] obtain w2 where
    w2: "service_member_dtor m svc w1 = Some (svc, w2)" "world_ok w2" "registered w2 svc (ms @ ns)"
      "dom (nodes w2) = dom (nodes w1) - {sm_node m}" "rest w2 = rest w1"
      "untouched (set (sm_node m # entries svc # ms @ ns)) w1 w2" by (auto elim!: okE)
  have "nodes w2 r = None" "nodes w2 (sm_node m) = None" using w1(3) w2(4) by blast+
  moreover have "untouched (set (entries svc # ms @ sm_node m # ns)) w1 w2"
    by (rule untouched_mono[OF w2(6)]) auto
  from spares_trans[OF spares_queue[OF assms(2) w1(5)] spares_registration[OF r1 this]]
  have "spares (insert r (set (entries svc # ms @ sm_node m # ns))) w w2" by (simp add: insert_commute)
  ultimately show ?thesis using w1 w2 by (auto intro: drained_rest)
qed

subsection \<open>A process to start from\<close>

text \<open>
  For examples: a process that has created one execution context with its service, on a
  platform whose default hint is \<open>-1\<close>, and nothing else.
\<close>

definition empty_world :: world where
  "empty_world = \<lparr>nodes = Map.empty, ops = Map.empty, slots = Map.empty, trace = [], brk = 0\<rparr>"

definition some_hints :: asio_hints where
  "some_hints = \<lparr>HINT_DEFAULT = -1, HINT_1 = 1\<rparr>"

definition some_ctx :: execution_context where
  "some_ctx = \<lparr>config_get = (\<lambda>section key deflt. deflt), ctx_executor = 0\<rparr>"

definition start_service :: op_list_service where
  "start_service = fst (op_list_service_ctor some_hints some_ctx empty_world)"

definition start_world :: world where
  "start_world = snd (op_list_service_ctor some_hints some_ctx empty_world)"

lemma op_list_service_ctor_ok:
  assumes "world_ok w" "op_list_service_ctor A ctx w = (svc, w')"
  shows "world_ok w'" "registered w' svc []" "entries svc = brk w" "brk w' = Suc (brk w)"
    "enabled (svc_mtx svc) = (\<not> is_single_threaded A ctx (HINT_DEFAULT A))"
proof -
  obtain e v where n: "new_node w = (e, v)" by force
  show "world_ok w'" "registered w' svc []" "entries svc = brk w" "brk w' = Suc (brk w)"
    "enabled (svc_mtx svc) = (\<not> is_single_threaded A ctx (HINT_DEFAULT A))"
    using assms(2) new_node_ok[OF assms(1) n] n
    by (auto simp: op_list_service_ctor_def registered_def)
qed

lemma start_ok: "world_ok start_world" "registered start_world start_service []"
proof -
  have "world_ok empty_world" by (simp add: empty_world_def world_ok_def)
  then show "world_ok start_world" "registered start_world start_service []"
    using op_list_service_ctor_ok[of empty_world some_hints some_ctx start_service start_world]
    by (simp_all add: start_world_def start_service_def)
qed


definition some_handler :: "nat \<Rightarrow> handler" where
  "some_handler k = \<lparr>h_id = k, h_executor = None, h_immediate = None, h_slot = Some k\<rparr>"

lemmas service_eval [sam_eval] = start_world_def start_service_def op_list_service_ctor_def empty_world_def
  some_hints_def some_ctx_def is_single_threaded_def cem_ctor_def cem_lock_def cem_unlock_def register_queue_def
  service_member_ctor_def scoped_def service_member.defs some_handler_def

end
