(* ===== verification/Shared_World.thy ===== *)
theory Shared_World
  imports Service_Member
begin

section \<open>What one primitive leaves alone\<close>

text \<open>
  The primitives of a process share the world: the nodes of all lists, the operations, the cancellation
  slots.  \<open>keeps R w w'\<close> says that a step from \<open>w\<close> to \<open>w'\<close> stays within the lists with a root in \<open>R\<close>: every
  other waiting list and every service list that has none of these nodes is as it was.  All calls on a
  primitive stay within its own lists, which is what lets several of them work side by side.
\<close>

definition keeps :: "addr set \<Rightarrow> world \<Rightarrow> world \<Rightarrow> bool" where
  "keeps R w w' \<longleftrightarrow> world_ok w' \<and> spares R w w' \<and>
     (\<forall>svc ms. R \<inter> set (entries svc # ms) = {} \<longrightarrow> registered w svc ms \<longrightarrow> registered w' svc ms)"

lemma keepsD:
  assumes "keeps R w w'"
  shows "world_ok w'" "spares R w w'"
    "R \<inter> set (entries svc # ms) = {} \<Longrightarrow> registered w svc ms \<Longrightarrow> registered w' svc ms"
  using assms unfolding keeps_def by blast+

lemma keeps_refl [simp]: "keeps R w w \<longleftrightarrow> world_ok w"
  by (auto simp: keeps_def)

lemma keeps_mono: "keeps R w w' \<Longrightarrow> R \<subseteq> S \<Longrightarrow> keeps S w w'"
  unfolding keeps_def by (blast intro: spares_mono)

lemma keeps_trans: "keeps R w w1 \<Longrightarrow> keeps R w1 w2 \<Longrightarrow> keeps R w w2"
  unfolding keeps_def by (metis spares_trans sup.idem)

lemma keeps_queue:
  assumes "world_ok w'" "pending w r q" "untouched (queue_nodes r q) w w'"
  shows "keeps {r} w w'"
  unfolding keeps_def
proof (intro conjI allI impI)
  show "spares {r} w w'" by (rule spares_queue[OF assms(2,3)])
next
  fix svc ms assume "{r} \<inter> set (entries svc # ms) = {}" "registered w svc ms"
  then show "registered w' svc ms" using registered_other[OF _ assms(2) _ assms(3)] by blast
qed (rule assms(1))

text \<open>A step that only emits events or changes slots keeps everything.\<close>

lemma keeps_same_nodes:
  assumes "world_ok w'" "nodes w' = nodes w" "ops w' = ops w"
  shows "keeps R w w'"
  using assms by (simp add: keeps_def spares_def pending_def registered_def)

lemma registered_emit [simp]: "registered (emit e w) svc ms = registered w svc ms"
  by (simp add: registered_def)

lemma keeps_emit: "keeps R w w' \<Longrightarrow> keeps R w (emit e w')"
  by (simp add: keeps_def spares_def)

text \<open>A node that is new does not count.\<close>

lemma keeps_fresh:
  assumes "keeps (insert a R) w w'" "a \<notin> dom (nodes w)"
  shows "keeps R w w'"
  unfolding keeps_def spares_def
proof (intro conjI allI impI)
  note k = keepsD[OF assms(1)]
  show "world_ok w'" by (rule k(1))
  show "pending w' r q" if "r \<notin> R" "pending w r q" for r q
    using sparesD[OF k(2) that(2)] that pending_live[OF that(2)] assms(2) by auto
  show "registered w' svc ms" if "R \<inter> set (entries svc # ms) = {}" "registered w svc ms" for svc ms
    using k(3)[of svc ms] that registered_live[OF that(2)] assms(2) by auto
  show "nodes w' b = nodes w b" "ops w' b = ops w b"
    if "b \<notin> R" "ops w b = Some x" "settled x" "b \<in> dom (nodes w)" for b x
    using spares_settled[OF k(2) that(2-4)] that assms(2) by auto
qed

text \<open>A blocking call that returns removes its own operation, which is in no list any more.\<close>

lemma sync_return_ok:
  assumes "sync_return a w = Some (ec, w')" "world_ok w" "ops w a = Some x" "settled x"
  shows "world_ok w'" "untouched {a} w w'" "trace w' = trace w" "keeps {a} w w'"
proof -
  from assms have x: "op_slot x = None" and w': "w' = w\<lparr>nodes := (nodes w)(a := None), ops := (ops w)(a := None)\<rparr>"
    by (auto simp: sync_return_def destroy_def free_node_def split: option.splits wait_op.splits if_splits)
  have "\<forall>s b. slots w s = Some b \<longrightarrow> b \<noteq> a" using assms(2,3) x by (fastforce simp: world_ok_def)
  then show k: "world_ok w'" using assms(2) by (fastforce simp: world_ok_def w')
  show u: "untouched {a} w w'" "trace w' = trace w" by (simp_all add: w' untouched_def)
  show "keeps {a} w w'"
    unfolding keeps_def spares_def
  proof (intro conjI allI impI)
    fix r q assume p: "pending w r q"
    then have "a \<notin> queue_nodes r q" using assms(3,4) by (auto simp: pending_def)
    then show "pending w' r q" by (intro pending_untouched[OF p u(1)]) simp
  next
    fix svc ms assume r: "registered w svc ms"
    then have "a \<notin> set (entries svc # ms)" using assms(3) by (auto simp: registered_def)
    then show "registered w' svc ms" by (intro registered_untouched[OF r u(1)]) simp
  qed (use k u in \<open>auto simp: untouched_def\<close>)
qed

text \<open>A blocked call that goes on locks the mutex and releases it again, which needs a mutex that is not held.\<close>

lemma op_wait_settled: "op_wait x l = Some l' \<Longrightarrow> settled x \<and> cem_lock l = Some l'"
  by (cases x) (auto simp: op_wait_def split: if_splits)

lemma sync_resumeD:
  assumes "sync_resume a l w = Some (ec, l', w')"
  obtains x where "ops w a = Some x" "settled x" "a \<in> dom (nodes w)" "sync_return a w = Some (ec, w')"
    "cem_lock l \<bind> cem_unlock = Some l'"
proof -
  from assms obtain x l1 where x: "ops w a = Some x" "op_wait x l = Some l1" "sync_return a w = Some (ec, w')"
    "cem_unlock l1 = Some l'" by (auto simp: sync_resume_def split: bind_splits)
  moreover have "a \<in> dom (nodes w)"
    using x(1,3) by (auto simp: sync_return_def destroy_def free_node_def split: option.splits wait_op.splits if_splits)
  ultimately show thesis using that op_wait_settled[OF x(2)] by simp
qed

lemma sync_resume_keeps:
  assumes "sync_resume a l w = Some (ec, l', w')" "world_ok w" "idle l"
  shows "keeps {a} w w'" "ops w a \<noteq> None" "l' = l"
  using assms(1)
  by (elim sync_resumeD; use sync_return_ok(4) assms(2,3) in \<open>force\<close>)+

text \<open>Whether a call can go on depends on its operation and on the mutex only.\<close>

lemma sync_resume_elsewhere:
  assumes "sync_resume a l w = Some (ec, l', w')" "nodes v a = nodes w a" "ops v a = ops w a"
  shows "\<exists>v'. sync_resume a l v = Some (ec, l', v')"
  using assms
  by (auto simp: sync_resume_def sync_return_def destroy_def free_node_def op_wait_def
      split: bind_splits option.splits wait_op.splits if_splits)

text \<open>A waiting list that has been moved: the requests, pending as before, are behind the new root.\<close>

definition carried :: "world \<Rightarrow> world \<Rightarrow> addr \<Rightarrow> addr \<Rightarrow> bool" where
  "carried w w' r r' \<longleftrightarrow> (\<forall>q. pending w r q \<longrightarrow> pending w' r' q \<and> pending w' r [])"

lemma carriedI: "pending w r q \<Longrightarrow> pending w' r' q \<Longrightarrow> pending w' r [] \<Longrightarrow> carried w w' r r'"
  unfolding carried_def by (metis pending_unique)

subsection \<open>The interface of a primitive among others\<close>

text \<open>
  What a process relies on when it runs several primitives side by side.  \<open>reach p w\<close>: the object \<open>p\<close> has got into
  its state, with \<open>w\<close> around it, by a history of its own; \<open>action\<close> is one call; \<open>roots p\<close> are the roots of its
  waiting lists, \<open>base p\<close> its base class object; \<open>create\<close>, \<open>dispose\<close> and \<open>move\<close> are its constructors, its destructor and its
  move constructor, which returns the new object and the old one.  Each of the five primitives interprets the locale
  in its own theory.
\<close>

locale shared_primitive =
  fixes reach :: "'p \<Rightarrow> world \<Rightarrow> bool"
    and action :: "'p \<times> world \<Rightarrow> 'p \<times> world \<Rightarrow> bool"
    and roots :: "'p \<Rightarrow> addr list"
    and base :: "'p \<Rightarrow> service_member"
    and create :: "op_list_service \<times> world \<Rightarrow> 'p \<times> op_list_service \<times> world \<Rightarrow> bool"
    and dispose :: "'p \<Rightarrow> op_list_service \<Rightarrow> world \<Rightarrow> (op_list_service \<times> world) option"
    and move :: "'p \<Rightarrow> op_list_service \<Rightarrow> world \<Rightarrow> ('p \<times> 'p \<times> op_list_service \<times> world) option"
  assumes roots_pending: "reach p w \<Longrightarrow> r \<in> set (roots p) \<Longrightarrow> \<exists>q. pending w r q"
    and action_ok: "reach p w \<Longrightarrow> action (p, w) (p', w') \<Longrightarrow>
      reach p' w' \<and> roots p' = roots p \<and> base p' = base p \<and> keeps (set (roots p)) w w'"
    and others_ok: "reach p w \<Longrightarrow> world_ok w' \<Longrightarrow> (\<And>r q. r \<in> set (roots p) \<Longrightarrow> pending w r q \<Longrightarrow> pending w' r q) \<Longrightarrow>
      reach p w'"
    and create_ok: "world_ok w \<Longrightarrow> registered w svc ms \<Longrightarrow> create (svc, w) (p, svc', w') \<Longrightarrow>
      svc' = svc \<and> world_ok w' \<and> reach p w' \<and> registered w' svc (ms @ [sm_node (base p)]) \<and>
      service (base p) = Some (entries svc) \<and> sm_node (base p) \<notin> set (roots p) \<and>
      insert (sm_node (base p)) (set (roots p)) \<inter> dom (nodes w) = {} \<and> spares (set (entries svc # ms)) w w'"
    and dispose_ok: "reach p w \<Longrightarrow> registered w svc (ms @ sm_node (base p) # ns) \<Longrightarrow>
      service (base p) = Some (entries svc) \<Longrightarrow> set (roots p) \<inter> set (entries svc # ms @ sm_node (base p) # ns) = {} \<Longrightarrow>
      ok (dispose p svc w) (\<lambda>(svc', w'). svc' = svc \<and> world_ok w' \<and> registered w' svc (ms @ ns) \<and>
        spares (set (roots p) \<union> set (entries svc # ms @ sm_node (base p) # ns)) w w')"
    and move_ok: "reach p w \<Longrightarrow> registered w svc ms \<Longrightarrow> service (base p) = Some (entries svc) \<Longrightarrow>
      set (roots p) \<inter> set (entries svc # ms) = {} \<Longrightarrow>
      ok (move p svc w) (\<lambda>(p', p0, svc', w'). svc' = svc \<and> world_ok w' \<and> reach p' w' \<and> reach p0 w' \<and>
        roots p0 = roots p \<and> base p0 = base p \<and> registered w' svc (ms @ [sm_node (base p')]) \<and>
        service (base p') = Some (entries svc) \<and> sm_node (base p') \<notin> set (roots p') \<and>
        insert (sm_node (base p')) (set (roots p')) \<inter> dom (nodes w) = {} \<and>
        list_all2 (carried w w') (roots p) (roots p') \<and> trace w' = trace w \<and>
        spares (set (roots p) \<union> set (entries svc # ms)) w w')"
    and mutex_idle: "reach p w \<Longrightarrow> idle (mtx (base p))"

text \<open>
  The state of a process with the primitives \<open>ps\<close>, in the order of their construction, which all belong to the service
  \<open>svc\<close>: the service's list holds exactly their nodes, and their waiting lists are apart from it and from each other.
\<close>

definition side_by_side ::
  "('p \<Rightarrow> world \<Rightarrow> bool) \<Rightarrow> ('p \<Rightarrow> addr list) \<Rightarrow> ('p \<Rightarrow> service_member) \<Rightarrow> 'p list \<Rightarrow> op_list_service \<Rightarrow> world \<Rightarrow> bool" where
  "side_by_side reach roots base ps svc w \<longleftrightarrow> world_ok w \<and> registered w svc (map (sm_node \<circ> base) ps) \<and>
     (\<forall>p \<in> set ps. reach p w \<and> service (base p) = Some (entries svc) \<and>
        set (roots p) \<inter> set (entries svc # map (sm_node \<circ> base) ps) = {}) \<and>
     sorted_wrt (\<lambda>p p'. set (roots p) \<inter> set (roots p') = {}) ps"

context shared_primitive
begin

abbreviation "apart \<equiv> side_by_side reach roots base"

lemma roots_live: "reach p w \<Longrightarrow> set (roots p) \<subseteq> dom (nodes w)"
  using roots_pending pending_live by (fastforce simp: subset_iff)

text \<open>What an action of one member, a construction and a destruction mean for the other members.\<close>

lemma member_spared:
  assumes "reach p w" "world_ok w'" "spares R w w'" "set (roots p) \<inter> R = {}"
  shows "reach p w'"
  by (rule others_ok[OF assms(1,2)]) (use assms(3,4) in \<open>auto dest: sparesD\<close>)

lemma spared_pending:
  assumes "reach p w" "r \<in> set (roots p)" "spares R w w'" "r \<notin> R"
  shows "pending w' r q \<longleftrightarrow> pending w r q"
proof -
  from roots_pending[OF assms(1,2)] obtain p where p: "pending w r p" by blast
  then have "pending w' r p" by (rule sparesD[OF assms(3) _ assms(4)])
  with p show ?thesis by (blast dest: pending_unique)
qed

lemma apart_empty: "world_ok w \<Longrightarrow> registered w svc [] \<Longrightarrow> apart [] svc w"
  by (simp add: side_by_side_def)

text \<open>A step that concerns no list, only an operation that is in none.\<close>

lemma apart_idle:
  assumes "apart ps svc w" "keeps {a} w w'" "ops w a \<noteq> None"
  shows "apart ps svc w'"
proof -
  have r: "registered w svc (map (sm_node \<circ> base) ps)" using assms(1) by (simp add: side_by_side_def)
  then have "{a} \<inter> set (entries svc # map (sm_node \<circ> base) ps) = {}" using assms(3) by (auto simp: registered_def)
  from keepsD(3)[OF assms(2) this r] have "registered w' svc (map (sm_node \<circ> base) ps)" .
  moreover have "reach p w'" if "p \<in> set ps" for p
  proof (rule member_spared[OF _ keepsD(1,2)[OF assms(2)]])
    show p: "reach p w" using that assms(1) by (simp add: side_by_side_def)
    have "ops w r = None" if "r \<in> set (roots p)" for r using roots_pending[OF p that] by (auto simp: pending_def)
    then show "set (roots p) \<inter> {a} = {}" using assms(3) by auto
  qed
  ultimately show ?thesis using assms(1) keepsD(1)[OF assms(2)] by (simp add: side_by_side_def)
qed

lemma apart_action:
  assumes "apart (ps @ p # qs) svc w" "action (p, w) (p', w')"
  shows "apart (ps @ p' # qs) svc w'"
proof -
  have A: "reach p w" "set (roots p) \<inter> set (entries svc # map (sm_node \<circ> base) (ps @ p # qs)) = {}"
    using assms(1) by (simp_all add: side_by_side_def)
  note a = action_ok[OF A(1) assms(2)]
  then have k: "keeps (set (roots p)) w w'" and same: "roots p' = roots p" "base p' = base p" and r: "reach p' w'"
    by simp_all
  have "reach x w'" if "x \<in> set (ps @ qs)" for x
  proof (rule member_spared[OF _ keepsD(1,2)[OF k]])
    show "reach x w" using that assms(1) by (auto simp: side_by_side_def)
    show "set (roots x) \<inter> set (roots p) = {}" using that assms(1) by (auto simp: side_by_side_def sorted_wrt_append)
  qed
  moreover have "registered w' svc (map (sm_node \<circ> base) (ps @ p # qs))"
    by (rule keepsD(3)[OF k A(2)]) (use assms(1) in \<open>simp add: side_by_side_def\<close>)
  ultimately show ?thesis
    using assms(1) keepsD(1)[OF k] r same by (simp add: side_by_side_def sorted_wrt_append)
qed

lemma action_isolated:
  assumes "apart (ps @ p # qs) svc w" "action (p, w) (p', w')" "x \<in> set (ps @ qs)" "r \<in> set (roots x)"
  shows "pending w' r q \<longleftrightarrow> pending w r q"
proof -
  have A: "reach p w" "reach x w" using assms(1,3) by (auto simp: side_by_side_def)
  have "set (roots x) \<inter> set (roots p) = {}" using assms(1,3) by (auto simp: side_by_side_def sorted_wrt_append)
  then have "r \<notin> set (roots p)" using assms(4) by blast
  moreover have "spares (set (roots p)) w w'" using action_ok[OF A(1) assms(2)] keepsD(2) by blast
  ultimately show ?thesis by (intro spared_pending[OF A(2) assms(4)])
qed

lemma apart_create:
  assumes "apart ps svc w" "create (svc, w) (p, svc', w')"
  shows "svc' = svc \<and> apart (ps @ [p]) svc w'"
proof -
  let ?ns = "map (sm_node \<circ> base) ps"
  have W: "world_ok w" "registered w svc ?ns" using assms(1) by (simp_all add: side_by_side_def)
  from create_ok[OF W assms(2)] have c: "svc' = svc" "world_ok w'" "reach p w'" "registered w' svc (?ns @ [sm_node (base p)])"
    "service (base p) = Some (entries svc)" "sm_node (base p) \<notin> set (roots p)"
    "insert (sm_node (base p)) (set (roots p)) \<inter> dom (nodes w) = {}" "spares (set (entries svc # ?ns)) w w'" by simp_all
  have live: "set (entries svc # ?ns) \<subseteq> dom (nodes w)" by (rule registered_live[OF W(2)])
  have old: "reach x w'" "set (roots x) \<inter> insert (sm_node (base p)) (set (roots p)) = {}" if "x \<in> set ps" for x
  proof -
    have x: "reach x w" "set (roots x) \<inter> set (entries svc # ?ns) = {}" using that assms(1) by (simp_all add: side_by_side_def)
    show "reach x w'" by (rule member_spared[OF x(1) c(2,8) x(2)])
    show "set (roots x) \<inter> insert (sm_node (base p)) (set (roots p)) = {}" using roots_live[OF x(1)] c(7) by blast
  qed
  moreover have "set (roots p) \<inter> set (entries svc # ?ns) = {}" using live c(7) by blast
  ultimately show ?thesis
    using assms(1) c(1-6) by (auto simp: side_by_side_def sorted_wrt_append)
qed

lemma dispose_isolated:
  assumes "apart (ps @ p # qs) svc w"
  shows "ok (dispose p svc w) (\<lambda>(svc', w'). svc' = svc \<and> apart (ps @ qs) svc w' \<and>
    (\<forall>x \<in> set (ps @ qs). \<forall>r \<in> set (roots x). \<forall>q. pending w' r q \<longleftrightarrow> pending w r q) \<and>
    spares (set (roots p) \<union> set (entries svc # map (sm_node \<circ> base) (ps @ p # qs))) w w')"
proof -
  let ?ns = "map (sm_node \<circ> base)"
  have A: "reach p w" "registered w svc (?ns ps @ sm_node (base p) # ?ns qs)" "service (base p) = Some (entries svc)"
    "set (roots p) \<inter> set (entries svc # ?ns ps @ sm_node (base p) # ?ns qs) = {}"
    using assms by (simp_all add: side_by_side_def)
  show ?thesis
  proof (rule ok_conseq[OF dispose_ok[OF A]], clarify)
    fix w' assume d: "world_ok w'" "registered w' svc (?ns ps @ ?ns qs)"
      "spares (set (roots p) \<union> set (entries svc # ?ns ps @ sm_node (base p) # ?ns qs)) w w'"
    have spared: "set (roots x) \<inter> (set (roots p) \<union> set (entries svc # ?ns ps @ sm_node (base p) # ?ns qs)) = {}" "reach x w"
      if "x \<in> set (ps @ qs)" for x
    proof -
      have x: "x \<in> set (ps @ p # qs)" using that by auto
      then show "reach x w" using assms unfolding side_by_side_def by blast
      have "set (roots x) \<inter> set (entries svc # ?ns (ps @ p # qs)) = {}" using x assms unfolding side_by_side_def by blast
      moreover have "set (roots x) \<inter> set (roots p) = {}" using that assms by (auto simp: side_by_side_def sorted_wrt_append)
      ultimately show "set (roots x) \<inter> (set (roots p) \<union> set (entries svc # ?ns ps @ sm_node (base p) # ?ns qs)) = {}"
        by (simp add: Int_Un_distrib)
    qed
    then have "reach x w'" if "x \<in> set (ps @ qs)" for x
      by (intro member_spared[OF _ d(1,3)]) (use that in blast)+
    then have "apart (ps @ qs) svc w'"
      using assms d by (auto simp: side_by_side_def sorted_wrt_append)
    moreover have "pending w' r q \<longleftrightarrow> pending w r q" if "x \<in> set (ps @ qs)" "r \<in> set (roots x)" for x r q
      by (rule spared_pending[OF spared(2)[OF that(1)] that(2) d(3)]) (use spared(1)[OF that(1)] that(2) in blast)
    ultimately show "svc = svc \<and> apart (ps @ qs) svc w' \<and>
        (\<forall>x \<in> set (ps @ qs). \<forall>r \<in> set (roots x). \<forall>q. pending w' r q \<longleftrightarrow> pending w r q) \<and>
        spares (set (roots p) \<union> set (entries svc # ?ns (ps @ p # qs))) w w'" using d(3) by simp
  qed
qed

lemma move_isolated:
  assumes "apart (ps @ p # qs) svc w"
  shows "ok (move p svc w) (\<lambda>(p', p0, svc', w'). svc' = svc \<and> apart (ps @ p0 # qs @ [p']) svc w' \<and> base p0 = base p \<and>
    list_all2 (carried w w') (roots p) (roots p') \<and> trace w' = trace w \<and>
    (\<forall>x \<in> set (ps @ qs). \<forall>r \<in> set (roots x). \<forall>q. pending w' r q \<longleftrightarrow> pending w r q))"
proof -
  let ?ns = "map (sm_node \<circ> base) (ps @ p # qs)"
  have A: "reach p w" "registered w svc ?ns" "service (base p) = Some (entries svc)"
    "set (roots p) \<inter> set (entries svc # ?ns) = {}"
    using assms by (simp_all add: side_by_side_def)
  have live: "set (entries svc # ?ns) \<subseteq> dom (nodes w)" by (rule registered_live[OF A(2)])
  show ?thesis
  proof (rule ok_conseq[OF move_ok[OF A]], clarify)
    fix p' p0 w'
    assume d: "world_ok w'" "reach p' w'" "reach p0 w'" "roots p0 = roots p" "base p0 = base p"
      "registered w' svc (?ns @ [sm_node (base p')])" "service (base p') = Some (entries svc)"
      "sm_node (base p') \<notin> set (roots p')" "insert (sm_node (base p')) (set (roots p')) \<inter> dom (nodes w) = {}"
      "list_all2 (carried w w') (roots p) (roots p')" "trace w' = trace w"
      "spares (set (roots p) \<union> set (entries svc # ?ns)) w w'"
    have x: "set (roots x) \<inter> (set (roots p) \<union> set (entries svc # ?ns)) = {}" "reach x w" "reach x w'"
      "service (base x) = Some (entries svc)" if "x \<in> set (ps @ qs)" for x
    proof -
      have "x \<in> set (ps @ p # qs)" using that by auto
      then have "set (roots x) \<inter> set (entries svc # ?ns) = {}" "reach x w" "service (base x) = Some (entries svc)"
        using assms unfolding side_by_side_def by blast+
      moreover have "set (roots x) \<inter> set (roots p) = {}" using that assms by (auto simp: side_by_side_def sorted_wrt_append)
      ultimately show "set (roots x) \<inter> (set (roots p) \<union> set (entries svc # ?ns)) = {}" "reach x w"
        "service (base x) = Some (entries svc)" by (simp_all add: Int_Un_distrib)
      with member_spared[OF _ d(1,12)] show "reach x w'" by blast
    qed
    have new: "set (roots x) \<inter> insert (sm_node (base p')) (set (roots p')) = {}" if "reach x w" for x
      using roots_live[OF that] d(9) by blast
    have old: "set (roots p') \<inter> set (entries svc # ?ns) = {}" using live d(9) by blast
    have m: "map (sm_node \<circ> base) (ps @ p0 # qs @ [p']) = ?ns @ [sm_node (base p')]" using d(5) by simp
    have "apart (ps @ p0 # qs @ [p']) svc w'"
      unfolding side_by_side_def m
    proof (intro conjI ballI)
      fix y assume "y \<in> set (ps @ p0 # qs @ [p'])"
      then have y: "y \<in> set (ps @ qs) \<or> y = p0 \<or> y = p'" by auto
      then show "reach y w'" "service (base y) = Some (entries svc)" using x(3,4) d(2,3,5,7) A(3) by auto
      show "set (roots y) \<inter> set (entries svc # ?ns @ [sm_node (base p')]) = {}"
        using y x(1)[of y] new[OF x(2), of y] new[OF A(1)] old d(4,8) A(4) by auto
    next
      show "sorted_wrt (\<lambda>p p'. set (roots p) \<inter> set (roots p') = {}) (ps @ p0 # qs @ [p'])"
        using assms new[OF x(2)] new[OF A(1)] d(4) by (auto simp: side_by_side_def sorted_wrt_append)
    qed (rule d(1) d(6))+
    moreover have "pending w' r q \<longleftrightarrow> pending w r q" if "x \<in> set (ps @ qs)" "r \<in> set (roots x)" for x r q
      by (rule spared_pending[OF x(2)[OF that(1)] that(2) d(12)]) (use x(1)[OF that(1)] that(2) in blast)
    ultimately show "svc = svc \<and> apart (ps @ p0 # qs @ [p']) svc w' \<and> base p0 = base p \<and> list_all2 (carried w w') (roots p) (roots p') \<and>
        trace w' = trace w \<and> (\<forall>x \<in> set (ps @ qs). \<forall>r \<in> set (roots x). \<forall>q. pending w' r q \<longleftrightarrow> pending w r q)"
      using d(5,10,11) by blast
  qed
qed

end

end
