(* ===== verification/Call_Sequence.thy ===== *)
theory Call_Sequence
  imports Shared_World
begin

section \<open>Sequences of calls and their specifications\<close>

text \<open>
  A primitive driven by a list of calls, and the abstract counterpart.  The mutex, the semaphore and the shared mutex
  show of each single call that it does what the abstract one does; that whole sequences agree is proved here, once.
\<close>

datatype call_result =
    Bool_result bool
  | Code_result "error_code call"
  | Int_result int
  | No_result

primrec run_calls ::
  "('c \<Rightarrow> 'm \<Rightarrow> world \<Rightarrow> ('r \<times> 'm \<times> world) option) \<Rightarrow> 'c list \<Rightarrow> 'm \<Rightarrow> world \<Rightarrow> ('r list \<times> 'm \<times> world) option" where
  "run_calls exec [] m w = Some ([], m, w)"
| "run_calls exec (c # cs) m w = do {
     (r, m, w) \<leftarrow> exec c m w;
     (rs, m, w) \<leftarrow> run_calls exec cs m w;
     Some (r # rs, m, w) }"

primrec run_spec :: "('c \<Rightarrow> 's \<Rightarrow> 'r \<times> 's \<times> event list) \<Rightarrow> 'c list \<Rightarrow> 's \<Rightarrow> 'r list \<times> 's \<times> event list" where
  "run_spec spec [] s = ([], s, [])"
| "run_spec spec (c # cs) s = (let (r, s, es) = spec c s; (rs, s, es') = run_spec spec cs s in (r # rs, s, es @ es'))"

text \<open>Every call of the sequence is made where its specification allows it.\<close>

primrec legal_run :: "('c \<Rightarrow> 's \<Rightarrow> 'r \<times> 's \<times> event list) \<Rightarrow> ('c \<Rightarrow> 's \<Rightarrow> bool) \<Rightarrow> 'c list \<Rightarrow> 's \<Rightarrow> bool" where
  "legal_run spec legal [] s = True"
| "legal_run spec legal (c # cs) s \<longleftrightarrow> legal c s \<and> legal_run spec legal cs (fst (snd (spec c s)))"

lemma legal_run_unrestricted [simp]: "legal_run spec (\<lambda>c s. True) cs s"
  by (induction cs arbitrary: s) simp_all

text \<open>
  The interface: \<open>multi\<close> and \<open>ex\<close> are the threading mode and the executor of the object, which calls do not change.
\<close>

locale refined_calls =
  fixes exec :: "'c \<Rightarrow> 'm \<Rightarrow> world \<Rightarrow> ('r \<times> 'm \<times> world) option"
    and spec :: "bool \<Rightarrow> executor \<Rightarrow> 'c \<Rightarrow> 's \<Rightarrow> 'r \<times> 's \<times> event list"
    and legal :: "'c \<Rightarrow> 's \<Rightarrow> bool"
    and rel :: "'m \<Rightarrow> world \<Rightarrow> 's \<Rightarrow> bool"
    and multi :: "'m \<Rightarrow> bool"
    and ex :: "'m \<Rightarrow> executor"
  assumes exec_refines: "rel m w s \<Longrightarrow> legal c s \<Longrightarrow> ok (exec c m w) (\<lambda>(r, m', w').
      case spec (multi m) (ex m) c s of (r', s', es) \<Rightarrow> r = r' \<and> rel m' w' s' \<and> trace w' = trace w @ es \<and>
        multi m' = multi m \<and> ex m' = ex m)"
begin

lemma exec_step:
  assumes "rel m w s" "legal c s"
  obtains r m' w' s' es where "exec c m w = Some (r, m', w')" "spec (multi m) (ex m) c s = (r, s', es)" "rel m' w' s'"
    "trace w' = trace w @ es" "multi m' = multi m" "ex m' = ex m"
proof -
  obtain r' s' es where "spec (multi m) (ex m) c s = (r', s', es)" by (metis prod_cases3)
  with exec_refines[OF assms] that show thesis by (auto elim!: okE)
qed

lemma run_refines:
  assumes "rel m w s" "legal_run (spec (multi m) (ex m)) legal cs s"
  shows "ok (run_calls exec cs m w) (\<lambda>(rs, m', w'). case run_spec (spec (multi m) (ex m)) cs s of
    (rs', s', es) \<Rightarrow> rs = rs' \<and> rel m' w' s' \<and> trace w' = trace w @ es)"
  using assms
proof (induction cs arbitrary: m w s)
  case (Cons c cs)
  from Cons.prems have l: "legal c s" by simp
  from exec_step[OF Cons.prems(1) l] obtain r m1 w1 s1 es where
    1: "exec c m w = Some (r, m1, w1)" "spec (multi m) (ex m) c s = (r, s1, es)" "rel m1 w1 s1"
      "trace w1 = trace w @ es" "multi m1 = multi m" "ex m1 = ex m" .
  have "legal_run (spec (multi m1) (ex m1)) legal cs s1" using Cons.prems(2) 1(2,5,6) by simp
  note IH = Cons.IH[OF 1(3) this, unfolded 1(5,6)]
  obtain rs s2 es2 where r: "run_spec (spec (multi m) (ex m)) cs s1 = (rs, s2, es2)" by (metis prod_cases3)
  show ?case using IH 1(1,2,4) r by (auto elim!: okE)
qed simp

end

end
