(* ===== verification/Permit_Source.thy ===== *)
theory Permit_Source
  imports Call_Sequence "HOL-Library.Multiset"
begin

section \<open>The interface of a primitive that hands out permits\<close>

text \<open>
  What \<open>guarded\<close> relies on when it runs an operation under a semaphore or a mutex.  The semaphore and the
  mutex each interpret this locale in their own theory; the lemmas about guarded operations are
  proved once, over the locale.
\<close>

subsection \<open>Handlers that wait and handlers that are called\<close>

text \<open>The events between two states, the handlers they call and the handlers of a queue of operations.\<close>

definition new_events :: "world \<Rightarrow> world \<Rightarrow> event list" where
  "new_events w w' = drop (length (trace w)) (trace w')"

fun completion_of :: "event \<Rightarrow> (handler \<times> error_code) option" where
  "completion_of (Post _ h ec) = Some (h, ec)"
| "completion_of (Dispatch _ h ec) = Some (h, ec)"
| "completion_of (Wake _ _) = None"

primrec addressees :: "event list \<Rightarrow> handler multiset" where
  "addressees [] = {#}"
| "addressees (e # es) = (case completion_of e of None \<Rightarrow> {#} | Some (h, ec) \<Rightarrow> {#h#}) + addressees es"

fun handlers_of :: "wait_op \<Rightarrow> handler multiset" where
  "handlers_of (Basic_op m) = {#op_handler m#}"
| "handlers_of (Predicate_op m) = {#op_handler m#}"
| "handlers_of _ = {#}"

primrec awaiting :: "(addr \<times> wait_op) list \<Rightarrow> handler multiset" where
  "awaiting [] = {#}"
| "awaiting (ax # q) = handlers_of (snd ax) + awaiting q"

text \<open>Events that all call handlers, and queues whose operations all have one.\<close>

definition all_calls :: "event list \<Rightarrow> bool" where
  "all_calls es \<longleftrightarrow> (\<forall>e \<in> set es. completion_of e \<noteq> None)"

definition all_async :: "(addr \<times> wait_op) list \<Rightarrow> bool" where
  "all_async q \<longleftrightarrow> (\<forall>ax \<in> set q. handlers_of (snd ax) \<noteq> {#})"

lemma all_calls_simps [simp]:
  "all_calls []" "all_calls (e # es) \<longleftrightarrow> completion_of e \<noteq> None \<and> all_calls es"
  "all_calls (es @ es') \<longleftrightarrow> all_calls es \<and> all_calls es'"
  by (auto simp: all_calls_def)

lemma all_async_simps [simp]:
  "all_async []" "all_async (ax # q) \<longleftrightarrow> handlers_of (snd ax) \<noteq> {#} \<and> all_async q"
  "all_async (q @ q') \<longleftrightarrow> all_async q \<and> all_async q'"
  by (auto simp: all_async_def)

lemma all_calls_remove1: "all_calls es \<Longrightarrow> all_calls (remove1 e es)"
  by (auto simp: all_calls_def dest: notin_set_remove1)

lemma all_calls_signals [simp]: "all_calls (signals ec a x) \<longleftrightarrow> handlers_of x \<noteq> {#}"
  by (cases x) simp_all

lemma new_events_append [simp]: "trace w' = trace w @ es \<Longrightarrow> new_events w w' = es"
  by (simp add: new_events_def)

lemma granted_new_events: "length (filter granted_event (new_events w w')) = grants w w'"
  by (simp add: new_events_def grants_def)

lemma addressees_append [simp]: "addressees (es @ es') = addressees es + addressees es'"
  by (induction es) simp_all

lemma addressees_signals [simp]: "addressees (signals ec a x) = handlers_of x"
  by (cases x) simp_all

lemma addressees_remove1:
  assumes "e \<in> set es" "completion_of e = Some (h, ec)"
  shows "addressees es = add_mset h (addressees (remove1 e es))"
  using assms by (induction es) (auto split: option.splits)

lemma awaiting_append [simp]: "awaiting (q @ q') = awaiting q + awaiting q'"
  by (induction q) simp_all

lemma slot_handler:
  assumes "op_slot x = Some s"
  shows "size (handlers_of x) = 1" "handlers_of x \<noteq> {#}"
  using assms by (cases x; simp)+

subsection \<open>The interface\<close>

text \<open>
  A primitive that hands out \<open>cap\<close> permits at most.  \<open>inv p w k Q\<close> says that it is in a proper state with \<open>k\<close> permits
  left, and the handlers \<open>Q\<close> wait; a request that finds no permit is granted later, \<open>grants\<close> counts what the call
  granted, and a handler that waits does so until it is called, once; nothing else is called.
\<close>

locale permit_source =
  fixes try_acquire :: "'p \<Rightarrow> world \<Rightarrow> (bool \<times> 'p \<times> world) option"
    and async_acquire :: "'p \<Rightarrow> handler \<Rightarrow> world \<Rightarrow> ('p \<times> world) option"
    and release :: "'p \<Rightarrow> world \<Rightarrow> ('p \<times> world) option"
    and env :: "'p \<Rightarrow> world \<Rightarrow> 'p \<Rightarrow> world \<Rightarrow> bool"
    and inv :: "'p \<Rightarrow> world \<Rightarrow> nat \<Rightarrow> handler multiset \<Rightarrow> bool"
    and cap :: nat
  assumes wait_ok: "inv p w k Q \<Longrightarrow> Q \<noteq> {#} \<Longrightarrow> k = 0"
    and try_ok: "inv p w k Q \<Longrightarrow> ok (try_acquire p w) (\<lambda>(b, p', w').
      if b then k > 0 \<and> inv p' w' (k - 1) Q else inv p' w' k Q)"
    and async_ok: "inv p w k Q \<Longrightarrow> ok (async_acquire p h w) (\<lambda>(p', w'). grants w w' \<le> k \<and>
      (\<exists>Q'. inv p' w' (k - grants w w') Q' \<and> Q' + addressees (new_events w w') = add_mset h Q \<and> all_calls (new_events w w')))"
    and release_ok: "inv p w k Q \<Longrightarrow> k < cap \<Longrightarrow> ok (release p w) (\<lambda>(p', w'). grants w w' \<le> k + 1 \<and>
      (\<exists>Q'. inv p' w' (k + 1 - grants w w') Q' \<and> Q' + addressees (new_events w w') = Q \<and> all_calls (new_events w w')))"
    and env_ok: "inv p w k Q \<Longrightarrow> env p w p' w' \<Longrightarrow> grants w w' = 0 \<and>
      (\<exists>Q'. inv p' w' k Q' \<and> Q' + addressees (new_events w w') = Q \<and> all_calls (new_events w w') \<and>
        (p' = p \<and> w' = w \<or> size Q' < size Q))"

end
