(* ===== verification/Mutex_Impl.thy ===== *)
theory Mutex_Impl
  imports Permit_Source
begin

section \<open>The mutex\<close>

text \<open>
  Models \<open>detail/mutex_impl.hpp\<close>, \<open>detail/impl/mutex_impl.ipp\<close>, \<open>basic_mutex.hpp\<close> and
  \<open>impl/basic_mutex.hpp\<close>.  Each member function is a definition that takes the object and
  the world and returns both; the object is a record that extends its base class.
\<close>

subsection \<open>The implementation object\<close>

record mutex_impl = service_member +
  locked :: bool
  waiters :: addr

definition mutex_impl_ctor ::
  "asio_hints \<Rightarrow> execution_context \<Rightarrow> int \<Rightarrow> op_list_service \<Rightarrow> world \<Rightarrow>
   (mutex_impl \<times> op_list_service \<times> world) option" where
  "mutex_impl_ctor A ctx hint svc w = do {
     (sm, svc, w) \<leftarrow> service_member_ctor A ctx hint svc w;
     let (r, w) = new_node w;
     Some (service_member.extend sm (mutex_impl.fields False r), svc, w) }"

definition add_waiter :: "'a mutex_impl_scheme \<Rightarrow> addr \<Rightarrow> world \<Rightarrow> world option" where
  "add_waiter this waiter w = on_nodes (link_before waiter (waiters this)) w"

definition mutex_impl_try_lock :: "mutex_impl \<Rightarrow> world \<Rightarrow> (bool \<times> mutex_impl \<times> world) option" where
  "mutex_impl_try_lock this w = scoped (\<lambda>this.
     if locked this then Some (False, this, w)
     else Some (True, this\<lparr>locked := True\<rparr>, w)) this"

definition mutex_impl_lock ::
  "mutex_impl \<Rightarrow> error_code \<Rightarrow> world \<Rightarrow> (error_code call \<times> mutex_impl \<times> world) option" where
  "mutex_impl_lock this ec w =
     (if \<not> enabled (mtx this) then do {
        (b, this, w) \<leftarrow> mutex_impl_try_lock this w;
        if b then Some (Returned ec, this, w)
        else Some (Returned in_progress, this, w) }
      else scoped (\<lambda>this. do {
        let (a, w) = new_op (lock_op_t ec) w;
        w \<leftarrow> add_waiter this a w;
        if \<not> locked this then do {
          let this = this\<lparr>locked := True\<rparr>;
          w \<leftarrow> on_nodes (unlink a) w;
          w \<leftarrow> destroy a w;
          Some (Returned ec, this, w) }
        else Some (Blocked a, this, w) }) this)"

definition mutex_impl_unlock :: "mutex_impl \<Rightarrow> world \<Rightarrow> (unit \<times> mutex_impl \<times> world) option" where
  "mutex_impl_unlock this w = scoped (\<lambda>this. do {
     nx \<leftarrow> get_next (waiters this) (nodes w);
     if nx = waiters this then Some ((), this\<lparr>locked := False\<rparr>, w)
     else do {
       w \<leftarrow> op_complete success nx w;
       Some ((), this, w) } }) this"

text \<open>\<open>shutdown\<close> moves the waiters into a local holder under the lock and empties it outside.\<close>

definition mutex_impl_shutdown :: "mutex_impl \<Rightarrow> world \<Rightarrow> (mutex_impl \<times> world) option" where
  "mutex_impl_shutdown this w = do {
     (l, this, w) \<leftarrow> scoped (\<lambda>this. do {
        (l, w) \<leftarrow> holder_move_ctor (waiters this) w;
        Some (l, this, w) }) this;
     w \<leftarrow> holder_shutdown l w;
     w \<leftarrow> holder_dtor l w;
     Some (this, w) }"

definition mutex_impl_move_ctor ::
  "'a mutex_impl_scheme \<Rightarrow> op_list_service \<Rightarrow> world \<Rightarrow>
   (mutex_impl \<times> 'a mutex_impl_scheme \<times> op_list_service \<times> world) option" where
  "mutex_impl_move_ctor mi svc w = do {
     (sm, svc, w) \<leftarrow> service_member_move_ctor mi svc w;
     (r, w) \<leftarrow> holder_move_ctor (waiters mi) w;
     let this = service_member.extend sm (mutex_impl.fields (locked mi) r);
     let mi = mi\<lparr>locked := False\<rparr>;
     Some (this, mi, svc, w) }"

definition mutex_impl_move_assign ::
  "mutex_impl \<Rightarrow> mutex_impl \<Rightarrow> world \<Rightarrow> (mutex_impl \<times> mutex_impl \<times> world) option" where
  "mutex_impl_move_assign this lhs w = do {
     l \<leftarrow> cem_lock (mtx lhs);
     let this = this\<lparr>locked := locked lhs\<rparr>;
     let lhs = lhs\<lparr>locked := False\<rparr>;
     w \<leftarrow> on_nodes (node_move_assign (waiters lhs) (waiters this)) w;
     u \<leftarrow> cem_unlock l;
     Some (this, lhs\<lparr>mtx := u\<rparr>, w) }"

definition mutex_impl_dtor :: "'a mutex_impl_scheme \<Rightarrow> op_list_service \<Rightarrow> world \<Rightarrow> (op_list_service \<times> world) option" where
  "mutex_impl_dtor this svc w = do {
     w \<leftarrow> holder_dtor (waiters this) w;
     service_member_dtor this svc w }"

subsection \<open>The public class\<close>

record basic_mutex =
  bm_exec :: executor
  bm_impl :: mutex_impl

definition basic_mutex_ctor ::
  "executor \<Rightarrow> asio_hints \<Rightarrow> execution_context \<Rightarrow> int \<Rightarrow> op_list_service \<Rightarrow> world \<Rightarrow>
   (basic_mutex \<times> op_list_service \<times> world) option" where
  "basic_mutex_ctor ex A ctx hint svc w = do {
     (i, svc, w) \<leftarrow> mutex_impl_ctor A ctx hint svc w;
     Some (\<lparr>bm_exec = ex, bm_impl = i\<rparr>, svc, w) }"

definition basic_mutex_move_ctor ::
  "basic_mutex \<Rightarrow> op_list_service \<Rightarrow> world \<Rightarrow> (basic_mutex \<times> basic_mutex \<times> op_list_service \<times> world) option" where
  "basic_mutex_move_ctor sem svc w = do {
     (i, si, svc, w) \<leftarrow> mutex_impl_move_ctor (bm_impl sem) svc w;
     Some (\<lparr>bm_exec = bm_exec sem, bm_impl = i\<rparr>, sem\<lparr>bm_impl := si\<rparr>, svc, w) }"

text \<open>The constructor from an execution context takes the context's own executor.\<close>

definition basic_mutex_ctor_ctx ::
  "asio_hints \<Rightarrow> execution_context \<Rightarrow> int \<Rightarrow> op_list_service \<Rightarrow> world \<Rightarrow>
   (basic_mutex \<times> op_list_service \<times> world) option" where
  "basic_mutex_ctor_ctx A ctx hint svc w = do {
     (i, svc, w) \<leftarrow> mutex_impl_ctor A ctx hint svc w;
     Some (\<lparr>bm_exec = ctx_executor ctx, bm_impl = i\<rparr>, svc, w) }"

definition basic_mutex_get_executor :: "basic_mutex \<Rightarrow> executor" where
  [simp]: "basic_mutex_get_executor self = bm_exec self"

text \<open>
  Move assignment, and the assignment from a primitive with another executor type.  Both return the target
  first and the source second.
\<close>

definition basic_mutex_move_assign :: "basic_mutex \<Rightarrow> basic_mutex \<Rightarrow> world \<Rightarrow> (basic_mutex \<times> basic_mutex \<times> world) option" where
  "basic_mutex_move_assign this sem w = do {
     let this = this\<lparr>bm_exec := bm_exec sem\<rparr>;
     (i, si, w) \<leftarrow> mutex_impl_move_assign (bm_impl this) (bm_impl sem) w;
     Some (this\<lparr>bm_impl := i\<rparr>, sem\<lparr>bm_impl := si\<rparr>, w) }"

text \<open>\<open>std::swap(impl_, sem.impl_)\<close>: a temporary takes over the first, and both are move assigned.\<close>

definition mutex_impl_swap ::
  "mutex_impl \<Rightarrow> mutex_impl \<Rightarrow> op_list_service \<Rightarrow> world \<Rightarrow> (mutex_impl \<times> mutex_impl \<times> op_list_service \<times> world) option" where
  "mutex_impl_swap x y svc w = do {
     (t, x, svc, w) \<leftarrow> mutex_impl_move_ctor x svc w;
     (x, y, w) \<leftarrow> mutex_impl_move_assign x y w;
     (y, t, w) \<leftarrow> mutex_impl_move_assign y t w;
     (svc, w) \<leftarrow> mutex_impl_dtor t svc w;
     Some (x, y, svc, w) }"

definition basic_mutex_move_assign_converting ::
  "basic_mutex \<Rightarrow> basic_mutex \<Rightarrow> op_list_service \<Rightarrow> world \<Rightarrow> (basic_mutex \<times> basic_mutex \<times> op_list_service \<times> world) option" where
  "basic_mutex_move_assign_converting this sem svc w = do {
     let e = bm_exec this;
     let this = this\<lparr>bm_exec := bm_exec sem\<rparr>;
     let sem = sem\<lparr>bm_exec := e\<rparr>;
     (i, si, svc, w) \<leftarrow> mutex_impl_swap (bm_impl this) (bm_impl sem) svc w;
     Some (this\<lparr>bm_impl := i\<rparr>, sem\<lparr>bm_impl := si\<rparr>, svc, w) }"

definition basic_mutex_lock ::
  "basic_mutex \<Rightarrow> error_code \<Rightarrow> world \<Rightarrow> (error_code call \<times> basic_mutex \<times> world) option" where
  "basic_mutex_lock self ec w = do {
     (r, i, w) \<leftarrow> mutex_impl_lock (bm_impl self) ec w;
     Some (r, self\<lparr>bm_impl := i\<rparr>, w) }"

definition basic_mutex_lock_throw ::
  "basic_mutex \<Rightarrow> world \<Rightarrow> ((error_code + unit) call \<times> basic_mutex \<times> world) option" where
  "basic_mutex_lock_throw self w = do {
     (r, self, w) \<leftarrow> basic_mutex_lock self success w;
     Some (map_call (check_error ''lock'') r, self, w) }"

definition basic_mutex_unlock :: "basic_mutex \<Rightarrow> world \<Rightarrow> (basic_mutex \<times> world) option" where
  "basic_mutex_unlock self w = do {
     (u, i, w) \<leftarrow> mutex_impl_unlock (bm_impl self) w;
     Some (self\<lparr>bm_impl := i\<rparr>, w) }"

definition basic_mutex_try_lock :: "basic_mutex \<Rightarrow> world \<Rightarrow> (bool \<times> basic_mutex \<times> world) option" where
  "basic_mutex_try_lock self w = do {
     (b, i, w) \<leftarrow> mutex_impl_try_lock (bm_impl self) w;
     Some (b, self\<lparr>bm_impl := i\<rparr>, w) }"

text \<open>\<open>async_lock_op::operator()\<close>: grant at once, or leave an operation in the queue.\<close>

definition basic_mutex_async_lock :: "basic_mutex \<Rightarrow> handler \<Rightarrow> world \<Rightarrow> (basic_mutex \<times> world) option" where
  "basic_mutex_async_lock self h w = do {
     let e = get_associated_executor h (bm_exec self);
     (u, i, w) \<leftarrow> scoped (\<lambda>impl.
        if \<not> locked impl then do {
          let impl = impl\<lparr>locked := True\<rparr>;
          let ie = get_associated_immediate_executor h (bm_exec self);
          Some ((), impl, emit (Dispatch ie h success) w) }
        else do {
          let (model, w) = basic_op_model_construct e h w;
          let w = slot_assign (basic_op_model_get_cancellation_slot (basic_op_model_ctor e h)) model w;
          w \<leftarrow> add_waiter impl model w;
          Some ((), impl, w) }) (bm_impl self);
     Some (self\<lparr>bm_impl := i\<rparr>, w) }"

text \<open>
  The initiating function hands the operation to asio's \<open>async_initiate\<close>, a parameter, which makes a handler from the
  completion token and calls the operation with it.
\<close>

definition basic_mutex_async_lock_init ::
  "((handler \<Rightarrow> world \<Rightarrow> (basic_mutex \<times> world) option) \<Rightarrow> 'token \<Rightarrow> 'r) \<Rightarrow>
   basic_mutex \<Rightarrow> 'token \<Rightarrow> 'r" where
  "basic_mutex_async_lock_init async_initiate self token = async_initiate (basic_mutex_async_lock self) token"

text \<open>The handler installed in the cancellation slot; cancellation type 0 is \<open>none\<close>.\<close>

definition async_lock_cancel :: "mutex_impl \<Rightarrow> addr \<Rightarrow> nat \<Rightarrow> world \<Rightarrow> (unit \<times> mutex_impl \<times> world) option" where
  "async_lock_cancel impl model type w =
     (if type \<noteq> 0 then scoped (\<lambda>impl. do {
        w \<leftarrow> op_complete operation_aborted model w;
        Some ((), impl, w) }) impl
      else Some ((), impl, w))"


subsection \<open>Abstract specification\<close>

text \<open>
  The contract of the mutex, without pointers: it is owned or not, and the pending
  requests form a queue.  \<open>fresh\<close> is the address the next request will get.
\<close>

record mutex_spec =
  owned :: bool
  queue :: "(addr \<times> wait_op) list"
  fresh :: addr

definition mspec_try_lock :: "mutex_spec \<Rightarrow> bool \<times> mutex_spec" where
  "mspec_try_lock s = (\<not> owned s, s\<lparr>owned := True\<rparr>)"

definition mspec_lock :: "bool \<Rightarrow> error_code \<Rightarrow> mutex_spec \<Rightarrow> error_code call \<times> mutex_spec" where
  "mspec_lock multi ec s =
     (if \<not> owned s then (Returned ec, s\<lparr>owned := True, fresh := fresh s + of_bool multi\<rparr>)
      else if \<not> multi then (Returned in_progress, s)
      else (Blocked (fresh s), s\<lparr>queue := queue s @ [(fresh s, Lock_op \<lparr>op_ec = ec, op_done = False\<rparr>)],
              fresh := Suc (fresh s)\<rparr>))"

definition mspec_async_lock :: "executor \<Rightarrow> handler \<Rightarrow> mutex_spec \<Rightarrow> mutex_spec \<times> event list" where
  "mspec_async_lock ex h s =
     (if \<not> owned s then (s\<lparr>owned := True\<rparr>, [Dispatch (get_associated_immediate_executor h ex) h success])
      else (s\<lparr>queue := queue s @ [(fresh s, Basic_op \<lparr>work_guard = get_associated_executor h ex, op_handler = h\<rparr>)],
              fresh := Suc (fresh s)\<rparr>, []))"

definition mspec_unlock :: "mutex_spec \<Rightarrow> mutex_spec \<times> event list" where
  "mspec_unlock s = (case queue s of
     [] \<Rightarrow> (s\<lparr>owned := False\<rparr>, [])
   | (a, x) # q \<Rightarrow> (s\<lparr>queue := q\<rparr>, signals success a x))"

definition mspec_cancel :: "addr \<Rightarrow> mutex_spec \<Rightarrow> mutex_spec \<times> event list" where
  "mspec_cancel a s = (case map_of (queue s) a of
     None \<Rightarrow> (s, [])
   | Some x \<Rightarrow> (s\<lparr>queue := filter (\<lambda>p. fst p \<noteq> a) (queue s)\<rparr>, signals operation_aborted a x))"

text \<open>
  The refinement relation.  The last conjunct is what makes the mutex work: nobody
  waits for a free mutex.
\<close>

definition mutex_rel :: "mutex_impl \<Rightarrow> world \<Rightarrow> mutex_spec \<Rightarrow> bool" where
  "mutex_rel m w s \<longleftrightarrow> world_ok w \<and> pending w (waiters m) (queue s) \<and> idle (mtx m) \<and>
     locked m = owned s \<and> brk w = fresh s \<and> (queue s \<noteq> [] \<longrightarrow> owned s)"

text \<open>Objects that keep their identity: the same list roots, mode and service.\<close>

definition same_object :: "'a mutex_impl_scheme \<Rightarrow> 'b mutex_impl_scheme \<Rightarrow> bool" where
  "same_object m m' \<longleftrightarrow> waiters m' = waiters m \<and> mtx m' = mtx m \<and> sm_node m' = sm_node m \<and> service m' = service m"

lemma mutex_try_lock_refines:
  assumes "mutex_rel m w s"
  shows "ok (mutex_impl_try_lock m w) (\<lambda>(b, m', w'). w' = w \<and> same_object m m' \<and>
    b = fst (mspec_try_lock s) \<and> mutex_rel m' w' (snd (mspec_try_lock s)))"
  unfolding mutex_impl_try_lock_def
  by (rule scoped_ok) (use assms in \<open>auto simp: mutex_rel_def mspec_try_lock_def same_object_def\<close>)

lemma mutex_unlock_refines:
  assumes "mutex_rel m w s"
  shows "ok (mutex_impl_unlock m w) (\<lambda>(u, m', w'). m' = m\<lparr>locked := owned (fst (mspec_unlock s))\<rparr> \<and>
    mutex_rel m' w' (fst (mspec_unlock s)) \<and> trace w' = trace w @ snd (mspec_unlock s) \<and>
    ops w' = (case queue s of [] \<Rightarrow> ops w | (a, x) # q \<Rightarrow> (ops w)(a := finished success x)) \<and>
    untouched (queue_nodes (waiters m) (queue s)) w w')"
proof (cases "queue s")
  case Nil
  with assms pending_empty[of w "waiters m"] show ?thesis
    unfolding mutex_impl_unlock_def
    by (intro scoped_ok) (simp_all add: mutex_rel_def mspec_unlock_def)
next
  case (Cons ax q)
  obtain a x where ax: "ax = (a, x)" by force
  have P: "world_ok w" "pending w (waiters m) ([] @ (a, x) # q)"
    using assms Cons by (auto simp: mutex_rel_def ax)
  have h: "get_next (waiters m) (nodes w) = Some a" "a \<noteq> waiters m"
    using pending_head[of w "waiters m" a x q] P by auto
  from complete_pending[OF P] obtain w' where "op_complete success a w = Some w'" "world_ok w'"
    "pending w' (waiters m) q" "trace w' = trace w @ signals success a x" "brk w' = brk w"
    "ops w' = (ops w)(a := finished success x)"
    "untouched (queue_nodes (waiters m) ((a, x) # q)) w w'" by auto
  with h assms Cons ax show ?thesis
    unfolding mutex_impl_unlock_def
    by (intro scoped_ok) (auto simp: mutex_rel_def mspec_unlock_def insert_commute)
qed

lemma mutex_lock_refines:
  assumes "mutex_rel m w s"
  shows "ok (mutex_impl_lock m ec w) (\<lambda>(r, m', w'). same_object m m' \<and>
    r = fst (mspec_lock (enabled (mtx m)) ec s) \<and> mutex_rel m' w' (snd (mspec_lock (enabled (mtx m)) ec s)) \<and>
    trace w' = trace w \<and> slots w' = slots w \<and> untouched (queue_nodes (waiters m) (queue s)) w w')"
proof (cases "enabled (mtx m)")
  case False
  from mutex_try_lock_refines[OF assms] obtain b m' where t: "mutex_impl_try_lock m w = Some (b, m', w)"
    "same_object m m'" "b = fst (mspec_try_lock s)" "mutex_rel m' w (snd (mspec_try_lock s))"
    by (auto elim!: okE)
  with False assms show ?thesis
    by (auto simp: mutex_impl_lock_def mspec_lock_def mspec_try_lock_def mutex_rel_def)
next
  case True
  let ?x = "Lock_op \<lparr>op_ec = ec, op_done = False\<rparr>"
  have P: "world_ok w" "pending w (waiters m) (queue s)" "idle (mtx m)" using assms by (auto simp: mutex_rel_def)
  obtain a w1 where n: "new_op ?x w = (a, w1)" by force
  from join_sync[OF P(1,2) n unsettled(3)] obtain w2 where w2: "on_nodes (link_before a (waiters m)) w1 = Some w2"
    "joined (waiters m) (queue s) ?x w w2" "a = brk w" .
  from join_leave[OF P(1) w2(2)] obtain w3 w4 where w4: "on_nodes (unlink (brk w)) w2 = Some w3"
    "destroy (brk w) w3 = Some w4" "world_ok w4" "pending w4 (waiters m) (queue s)" "ops w4 = ops w"
    "slots w4 = slots w" "trace w4 = trace w" "brk w4 = Suc (brk w)"
    "untouched (queue_nodes (waiters m) (queue s)) w w4" .
  show ?thesis
    unfolding mutex_impl_lock_def using True
    apply (simp add: n add_waiter_def)
    apply (rule scoped_ok[OF P(3)])
    using n w2 w4 assms by (auto simp: mutex_rel_def mspec_lock_def same_object_def joined_def)
qed


subsection \<open>Refinement of the asynchronous operations\<close>

lemma mutex_async_lock_refines:
  assumes "mutex_rel (bm_impl m) w s"
  shows "ok (basic_mutex_async_lock m h w) (\<lambda>(m', w'). bm_exec m' = bm_exec m \<and> same_object (bm_impl m) (bm_impl m') \<and>
    mutex_rel (bm_impl m') w' (fst (mspec_async_lock (bm_exec m) h s)) \<and>
    trace w' = trace w @ snd (mspec_async_lock (bm_exec m) h s) \<and>
    (owned s \<longrightarrow> slots w' = slots (slot_assign (h_slot h) (brk w) w)) \<and>
    untouched (queue_nodes (waiters (bm_impl m)) (queue s)) w w')"
proof -
  let ?x = "Basic_op \<lparr>work_guard = get_associated_executor h (bm_exec m), op_handler = h\<rparr>"
  have P: "world_ok w" "pending w (waiters (bm_impl m)) (queue s)" "idle (mtx (bm_impl m))"
    using assms by (auto simp: mutex_rel_def)
  obtain a w1 where n: "new_op ?x w = (a, w1)" by force
  from join_async[OF P(1,2) n unsettled(1)] obtain w2 where
    w2: "on_nodes (link_before a (waiters (bm_impl m))) (slot_assign (h_slot h) a w1) = Some w2" "world_ok w2"
      "pending w2 (waiters (bm_impl m)) (queue s @ [(brk w, ?x)])"
      "slots w2 = slots (slot_assign (h_slot h) (brk w) w)" "trace w2 = trace w" "brk w2 = Suc (brk w)"
      "untouched (queue_nodes (waiters (bm_impl m)) (queue s)) w w2" by auto
  show ?thesis
    unfolding basic_mutex_async_lock_def Let_def ok_bind
    by (rule scoped_ok[OF P(3)])
      (use n w2 assms in \<open>auto simp: mutex_rel_def mspec_async_lock_def same_object_def
         basic_op_model_construct_def add_waiter_def\<close>)
qed

lemma mutex_cancel_refines:
  assumes "mutex_rel m w s" "a \<in> fst ` set (queue s)" "type \<noteq> 0"
  shows "ok (async_lock_cancel m a type w) (\<lambda>(u, m', w'). m' = m \<and>
    mutex_rel m' w' (fst (mspec_cancel a s)) \<and> trace w' = trace w @ snd (mspec_cancel a s) \<and>
    untouched (queue_nodes (waiters m) (queue s)) w w')"
proof -
  from assms(2) obtain ys x zs where q: "queue s = ys @ (a, x) # zs" by (force dest: split_list)
  have P: "world_ok w" "pending w (waiters m) (ys @ (a, x) # zs)" "idle (mtx m)"
    using assms q by (auto simp: mutex_rel_def)
  have D: "map_of (queue s) a = Some x" "filter (\<lambda>p. fst p \<noteq> a) (queue s) = ys @ zs"
    using assoc_split[of ys a x zs] pending_distinct[OF P(2)] unfolding q by simp_all
  from complete_pending[OF P(1,2)] obtain w' where "op_complete operation_aborted a w = Some w'" "world_ok w'"
    "pending w' (waiters m) (ys @ zs)" "trace w' = trace w @ signals operation_aborted a x" "brk w' = brk w"
    "untouched (queue_nodes (waiters m) (queue s)) w w'" using q by metis
  with assms D P show ?thesis
    unfolding async_lock_cancel_def
    by (auto simp: mutex_rel_def mspec_cancel_def q intro!: scoped_ok[OF P(3)])
qed


subsection \<open>Construction, shutdown, destruction, move\<close>

lemma mutex_ctor_ok:
  assumes "world_ok w" "registered w svc ms"
  shows "ok (basic_mutex_ctor ex A ctx hint svc w) (\<lambda>(m, svc', w'). bm_exec m = ex \<and> svc' = svc \<and>
    mutex_rel (bm_impl m) w' \<lparr>owned = False, queue = [], fresh = brk w + 2\<rparr> \<and>
    enabled (mtx (bm_impl m)) = (\<not> is_single_threaded A ctx hint) \<and> waiters (bm_impl m) = Suc (brk w) \<and>
    sm_node (bm_impl m) = brk w \<and> service (bm_impl m) = Some (entries svc) \<and> registered w' svc (ms @ [brk w]) \<and>
    ops w' = ops w \<and> slots w' = slots w \<and> trace w' = trace w \<and> untouched (set (entries svc # ms)) w w' \<and>
    spares (set (entries svc # ms)) w w' \<and> {brk w, Suc (brk w)} \<inter> dom (nodes w) = {})"
  by (rule member_ctor[OF assms, of A ctx hint])
    (simp add: basic_mutex_ctor_def mutex_impl_ctor_def mutex_rel_def service_member.defs mutex_impl.defs)

lemma mutex_shutdown_ok:
  assumes "mutex_rel m w s"
  shows "ok (mutex_impl_shutdown m w) (\<lambda>(m', w'). m' = m \<and>
    mutex_rel m w' (s\<lparr>queue := [], fresh := fresh s + 2\<rparr>) \<and>
    drained shutdown_signals shut_down (queue s) (w\<lparr>brk := brk w + 2\<rparr>) w' \<and>
    untouched (queue_nodes (waiters m) (queue s)) w w')"
proof -
  have P: "world_ok w" "pending w (waiters m) (queue s)" "idle (mtx m)" using assms by (auto simp: mutex_rel_def)
  from move_shutdown[OF P(1,2)] obtain l w1 w2 w3 where
    l: "holder_move_ctor (waiters m) w = Some (l, w1)" "holder_shutdown l w1 = Some w2" "holder_dtor l w2 = Some w3"
    and w3: "world_ok w3" "pending w3 (waiters m) []"
      "drained shutdown_signals shut_down (queue s) (w\<lparr>brk := brk w + 2\<rparr>) w3"
      "untouched (queue_nodes (waiters m) (queue s)) w w3" .
  moreover have "brk w3 = brk w + 2" using drained_brk[OF w3(3)] by simp
  ultimately show ?thesis
    unfolding mutex_impl_shutdown_def ok_bind
    by (intro scoped_ok[OF P(3)]) (use assms P in \<open>simp add: mutex_rel_def\<close>)
qed

lemma mutex_dtor_ok:
  assumes "mutex_rel m w s" "registered w svc (ms @ sm_node m # ns)" "service m = Some (entries svc)"
    and "waiters m \<notin> set (entries svc # ms @ sm_node m # ns)"
  shows "ok (mutex_impl_dtor m svc w) (\<lambda>(svc', w'). svc' = svc \<and> world_ok w' \<and> registered w' svc (ms @ ns) \<and>
    nodes w' (waiters m) = None \<and> nodes w' (sm_node m) = None \<and>
    drained (signals operation_aborted) operation_aborted (queue s) w w' \<and>
    spares (insert (waiters m) (set (entries svc # ms @ sm_node m # ns))) w w')"
proof -
  have P: "world_ok w" "pending w (waiters m) (queue s)" "idle (mtx m)" using assms by (auto simp: mutex_rel_def)
  from member_dtor_ok[OF P assms(2-4)] show ?thesis by (simp add: mutex_impl_dtor_def)
qed

lemma mutex_move_ctor_ok:
  assumes "mutex_rel (bm_impl m) w s" "registered w svc ms" "service (bm_impl m) = Some (entries svc)"
    and "waiters (bm_impl m) \<notin> set (entries svc # ms)"
  shows "ok (basic_mutex_move_ctor m svc w) (\<lambda>(t, m', svc', w'). svc' = svc \<and>
    mutex_rel (bm_impl t) w' (s\<lparr>fresh := fresh s + 2\<rparr>) \<and>
    mutex_rel (bm_impl m') w' \<lparr>owned = False, queue = [], fresh = fresh s + 2\<rparr> \<and>
    same_object (bm_impl m) (bm_impl m') \<and> bm_exec t = bm_exec m \<and>
    registered w' svc (ms @ [sm_node (bm_impl t)]) \<and> waiters (bm_impl t) \<noteq> waiters (bm_impl m) \<and>
    ops w' = ops w \<and> slots w' = slots w \<and> trace w' = trace w \<and> service (bm_impl t) = Some (entries svc) \<and>
    sm_node (bm_impl t) = brk w \<and> waiters (bm_impl t) = Suc (brk w) \<and>
    spares (insert (waiters (bm_impl m)) (set (entries svc # ms))) w w')"
proof -
  have P: "world_ok w" "pending w (waiters (bm_impl m)) (queue s)" using assms(1) by (auto simp: mutex_rel_def)
  show ?thesis
    by (rule member_move_ctor[OF P assms(2-4)])
      (use assms(1) in \<open>auto simp: basic_mutex_move_ctor_def mutex_impl_move_ctor_def mutex_rel_def same_object_def
         service_member.defs mutex_impl.defs\<close>)
qed

subsection \<open>All interleavings of calls on one mutex\<close>

text \<open>
  A state is the object, the world and the number of holders: grants handed out minus
  unlocks.  Every call is one step, since its body runs under the internal mutex; a blocked
  call is the two steps \<open>lock\<close> and \<open>resume\<close>.  A caller unlocks only what it was granted.  The
  rule \<open>other\<close> is anything else the process does: it keeps the shared state well formed and
  leaves this mutex's list alone, which the frame lemmas prove of the library's operations.  A request is cancelled
  under the internal mutex of the object \<open>i\<close> in which it was made, which a move may have left behind.
\<close>

inductive mutex_action :: "basic_mutex \<times> world \<times> nat \<Rightarrow> basic_mutex \<times> world \<times> nat \<Rightarrow> bool" where
  try_lock: "basic_mutex_try_lock m w = Some (b, m', w') \<Longrightarrow> mutex_action (m, w, n) (m', w', n + of_bool b)"
| lock: "basic_mutex_lock m success w = Some (r, m', w') \<Longrightarrow>
    mutex_action (m, w, n) (m', w', n + of_bool (r = Returned success))"
| async_lock: "basic_mutex_async_lock m h w = Some (m', w') \<Longrightarrow> mutex_action (m, w, n) (m', w', n + grants w w')"
| unlock: "basic_mutex_unlock m w = Some (m', w') \<Longrightarrow> mutex_action (m, w, Suc n) (m', w', n + grants w w')"
| cancel: "pending w (waiters (bm_impl m)) q \<Longrightarrow> (a, x) \<in> set q \<Longrightarrow> op_slot x = Some s \<Longrightarrow> slots w s = Some a \<Longrightarrow>
    async_lock_cancel i a type w = Some (u, i', w') \<Longrightarrow> mutex_action (m, w, n) (m, w', n + grants w w')"

inductive mutex_step :: "basic_mutex \<times> world \<times> nat \<Rightarrow> basic_mutex \<times> world \<times> nat \<Rightarrow> bool" where
  call: "mutex_action c c' \<Longrightarrow> mutex_step c c'"
| other: "world_ok w' \<Longrightarrow> \<forall>q. pending w (waiters (bm_impl m)) q \<longrightarrow> pending w' (waiters (bm_impl m)) q \<Longrightarrow>
    mutex_step (m, w, n) (m, w', n)"

text \<open>
  Every history that starts with the construction of the mutex.  Moving it leaves two objects: the new one, which is held
  as the old one was, and the old one, which nobody holds.
\<close>

inductive mutex_reachable :: "basic_mutex \<times> world \<times> nat \<Rightarrow> bool" where
  init: "world_ok w \<Longrightarrow> registered w svc ms \<Longrightarrow> basic_mutex_ctor ex A ctx hint svc w = Some (m, svc', w') \<Longrightarrow>
    mutex_reachable (m, w', 0)"
| step: "mutex_reachable c \<Longrightarrow> mutex_step c c' \<Longrightarrow> mutex_reachable c'"
| move: "mutex_reachable (m, w, n) \<Longrightarrow> registered w svc ms \<Longrightarrow> service (bm_impl m) = Some (entries svc) \<Longrightarrow>
    waiters (bm_impl m) \<notin> set (entries svc # ms) \<Longrightarrow> basic_mutex_move_ctor m svc w = Some (t, m', svc', w') \<Longrightarrow>
    c = (t, w', n) \<or> c = (m', w', 0) \<Longrightarrow> mutex_reachable c"

fun mutex_inv :: "basic_mutex \<times> world \<times> nat \<Rightarrow> bool" where
  "mutex_inv (m, w, n) \<longleftrightarrow> (\<exists>s. mutex_rel (bm_impl m) w s \<and> n = of_bool (owned s))"

lemma mutex_invI: "mutex_rel (bm_impl m) w s \<Longrightarrow> n = of_bool (owned s) \<Longrightarrow> mutex_inv (m, w, n)"
  by auto

text \<open>Every call preserves the invariant.\<close>

lemma mutex_try_lock_inv:
  assumes "basic_mutex_try_lock m w = Some (b, m', w')"
    and "mutex_inv (m, w, n)"
  shows "mutex_inv (m', w', n + of_bool b)"
proof -
  from assms obtain s where s: "mutex_rel (bm_impl m) w s" "n = of_bool (owned s)" by auto
  from mutex_try_lock_refines[OF s(1)] assms(1)
  have "mutex_rel (bm_impl m') w' (snd (mspec_try_lock s))" "b = (\<not> owned s)"
    by (auto simp: basic_mutex_try_lock_def mspec_try_lock_def elim!: okE)
  then show ?thesis by (elim mutex_invI) (use s in \<open>auto simp: mspec_try_lock_def\<close>)
qed

lemma mutex_lock_inv:
  assumes "basic_mutex_lock m success w = Some (r, m', w')"
    and "mutex_inv (m, w, n)"
  shows "mutex_inv (m', w', n + of_bool (r = Returned success))"
proof -
  from assms obtain s where s: "mutex_rel (bm_impl m) w s" "n = of_bool (owned s)" by auto
  let ?L = "mspec_lock (enabled (mtx (bm_impl m))) success s"
  from mutex_lock_refines[OF s(1), of success] assms(1) have "mutex_rel (bm_impl m') w' (snd ?L)" "r = fst ?L"
    by (auto simp: basic_mutex_lock_def elim!: okE)
  then show ?thesis by (elim mutex_invI) (use s in \<open>auto simp: mspec_lock_def\<close>)
qed

lemma mutex_async_lock_inv:
  assumes "basic_mutex_async_lock m h w = Some (m', w')"
    and "mutex_inv (m, w, n)"
  shows "mutex_inv (m', w', n + grants w w')"
proof -
  from assms obtain s where s: "mutex_rel (bm_impl m) w s" "n = of_bool (owned s)" by auto
  let ?L = "mspec_async_lock (bm_exec m) h s"
  from mutex_async_lock_refines[OF s(1), of h] assms(1)
  have "mutex_rel (bm_impl m') w' (fst ?L)" "trace w' = trace w @ snd ?L" by (auto elim!: okE)
  then show ?thesis by (elim mutex_invI) (use s in \<open>auto simp: mspec_async_lock_def\<close>)
qed

lemma mutex_unlock_inv:
  assumes "basic_mutex_unlock m w = Some (m', w')"
    and "mutex_inv (m, w, Suc n)"
  shows "mutex_inv (m', w', n + grants w w')"
proof -
  from assms obtain s where s: "mutex_rel (bm_impl m) w s" "n = 0" "owned s" by (auto split: if_splits simp: of_bool_def)
  from mutex_unlock_refines[OF s(1)] assms(1)
  have "mutex_rel (bm_impl m') w' (fst (mspec_unlock s))" "trace w' = trace w @ snd (mspec_unlock s)"
    by (auto simp: basic_mutex_unlock_def elim!: okE)
  then show ?thesis
    by (elim mutex_invI) (use s in \<open>auto simp: mspec_unlock_def split: list.splits\<close>)
qed

lemma mutex_cancel_elsewhere:
  "async_lock_cancel i a type w = Some (u, i', w') \<Longrightarrow> idle (mtx m) \<Longrightarrow> async_lock_cancel m a type w = Some ((), m, w')"
  unfolding async_lock_cancel_def by (auto intro: scoped_elsewhere split: if_splits)

lemma mutex_cancel_inv:
  assumes "pending w (waiters (bm_impl m)) q" "(a, x) \<in> set q" "op_slot x = Some sl" "slots w sl = Some a"
    "async_lock_cancel i a type w = Some (u, i', w')"
    and "mutex_inv (m, w, n)"
  shows "mutex_inv (m, w', n + grants w w')"
proof -
  from assms obtain s where s: "mutex_rel (bm_impl m) w s" "n = of_bool (owned s)" by auto
  then have "q = queue s" using assms(1) by (auto simp: mutex_rel_def intro: pending_unique)
  with assms(2) have a: "a \<in> fst ` set (queue s)" by force
  have c: "async_lock_cancel (bm_impl m) a type w = Some ((), bm_impl m, w')"
    by (rule mutex_cancel_elsewhere[OF assms(5)]) (use s(1) in \<open>simp add: mutex_rel_def\<close>)
  show ?thesis
  proof (cases "type = 0")
    case True
    with c s show ?thesis by (auto simp: async_lock_cancel_def)
  next
    case False
    from mutex_cancel_refines[OF s(1) a this] c
    have "mutex_rel (bm_impl m) w' (fst (mspec_cancel a s))" "trace w' = trace w @ snd (mspec_cancel a s)"
      by (auto elim!: okE)
    then show ?thesis
      by (intro mutex_invI[of _ _ "fst (mspec_cancel a s)"])
        (use s in \<open>auto simp: mspec_cancel_def split: option.splits\<close>)
  qed
qed

lemma mutex_other_inv:
  assumes "world_ok w'"
    "\<forall>q. pending w (waiters (bm_impl m)) q \<longrightarrow> pending w' (waiters (bm_impl m)) q"
    and "mutex_inv (m, w, n)"
  shows "mutex_inv (m, w', n)"
proof -
  from assms obtain s where s: "mutex_rel (bm_impl m) w s" "n = of_bool (owned s)" by auto
  with assms show ?thesis by (intro mutex_invI[of _ _ "s\<lparr>fresh := brk w'\<rparr>"]) (auto simp: mutex_rel_def)
qed

lemmas mutex_calls_inv =
  mutex_try_lock_inv mutex_lock_inv mutex_async_lock_inv
  mutex_unlock_inv mutex_cancel_inv

lemma mutex_action_inv:
  assumes "mutex_action c c'" "mutex_inv c"
  shows "mutex_inv c'"
  using assms by (induction rule: mutex_action.induct) (blast intro: mutex_calls_inv)+

lemma mutex_step_inv:
  assumes "mutex_step c c'" "mutex_inv c"
  shows "mutex_inv c'"
  using assms by (induction rule: mutex_step.induct) (blast intro: mutex_action_inv mutex_other_inv)+

lemma mutex_reachable_inv: "mutex_reachable c \<Longrightarrow> mutex_inv c"
proof (induction rule: mutex_reachable.induct)
  case (init w svc ms ex A ctx hint m svc' w')
  from mutex_ctor_ok[OF init(1,2), of ex A ctx hint] init(3) show ?case by (fastforce elim!: okE)
next
  case (move m w n svc ms t m' svc' w' c)
  then obtain s where s: "mutex_rel (bm_impl m) w s" "n = of_bool (owned s)" by auto
  from mutex_move_ctor_ok[OF s(1) move(2-4)] move(5,6) s(2) show ?case by (fastforce elim!: okE)
qed (blast intro: mutex_step_inv)

text \<open>Every call stays within the lists of the object and keeps its identity.\<close>

lemma mutex_relD:
  assumes "mutex_rel m w s"
  shows "world_ok w" "pending w (waiters m) (queue s)"
  using assms by (simp_all add: mutex_rel_def)

lemma mutex_keeps:
  "mutex_rel m w s \<Longrightarrow> mutex_rel m' w' s' \<Longrightarrow> untouched (queue_nodes (waiters m) (queue s)) w w' \<Longrightarrow> keeps {waiters m} w w'"
  by (rule keeps_queue) (simp_all add: mutex_relD)

lemma mutex_action_local:
  assumes "mutex_action (m, w, n) (m', w', n')" "mutex_inv (m, w, n)"
  shows "same_object (bm_impl m) (bm_impl m') \<and> keeps {waiters (bm_impl m)} w w'"
proof -
  from assms(2) obtain s where s: "mutex_rel (bm_impl m) w s" by auto
  note k = mutex_keeps[OF s]
  show ?thesis using assms(1)
  proof (cases rule: mutex_action.cases)
    case (try_lock b)
    with mutex_try_lock_refines[OF s] mutex_relD[OF s] show ?thesis
      by (auto simp: basic_mutex_try_lock_def elim!: okE)
  next
    case (lock r)
    with mutex_lock_refines[OF s, of success] k show ?thesis
      by (auto simp: basic_mutex_lock_def elim!: okE)
  next
    case (async_lock h)
    with mutex_async_lock_refines[OF s, of h] k show ?thesis by (auto elim!: okE)
  next
    case unlock
    with mutex_unlock_refines[OF s] k show ?thesis
      by (auto simp: basic_mutex_unlock_def same_object_def elim!: okE)
  next
    case (cancel q a x sl i type u i')
    have "q = queue s" using cancel(3) mutex_relD(2)[OF s] by (rule pending_unique)
    with cancel(4) have a: "a \<in> fst ` set (queue s)" by force
    have "idle (mtx (bm_impl m))" using s by (simp add: mutex_rel_def)
    from mutex_cancel_elsewhere[OF cancel(7) this] cancel(1,2) mutex_cancel_refines[OF s a, of type] k mutex_relD[OF s]
    show ?thesis
      by (cases "type = 0") (auto simp: async_lock_cancel_def same_object_def elim!: okE)
  qed
qed

subsection \<open>Sequences of calls\<close>

datatype mutex_call = Call_try_lock | Call_lock error_code | Call_async_lock handler | Call_unlock

fun mutex_exec :: "mutex_call \<Rightarrow> basic_mutex \<Rightarrow> world \<Rightarrow> (call_result \<times> basic_mutex \<times> world) option" where
  "mutex_exec Call_try_lock m w = do { (b, m, w) \<leftarrow> basic_mutex_try_lock m w; Some (Bool_result b, m, w) }"
| "mutex_exec (Call_lock ec) m w = do { (r, m, w) \<leftarrow> basic_mutex_lock m ec w; Some (Code_result r, m, w) }"
| "mutex_exec (Call_async_lock h) m w = do { (m, w) \<leftarrow> basic_mutex_async_lock m h w; Some (No_result, m, w) }"
| "mutex_exec Call_unlock m w = do { (m, w) \<leftarrow> basic_mutex_unlock m w; Some (No_result, m, w) }"

abbreviation "mutex_run \<equiv> run_calls mutex_exec"

fun mspec_exec :: "bool \<Rightarrow> executor \<Rightarrow> mutex_call \<Rightarrow> mutex_spec \<Rightarrow> call_result \<times> mutex_spec \<times> event list" where
  "mspec_exec multi ex Call_try_lock s = (let (b, s) = mspec_try_lock s in (Bool_result b, s, []))"
| "mspec_exec multi ex (Call_lock ec) s = (let (r, s) = mspec_lock multi ec s in (Code_result r, s, []))"
| "mspec_exec multi ex (Call_async_lock h) s = (No_result, mspec_async_lock ex h s)"
| "mspec_exec multi ex Call_unlock s = (No_result, mspec_unlock s)"

abbreviation "mspec_run multi ex \<equiv> run_spec (mspec_exec multi ex)"

lemma mutex_exec_refines:
  assumes "mutex_rel (bm_impl m) w s"
  shows "ok (mutex_exec c m w) (\<lambda>(r, m', w'). case mspec_exec (enabled (mtx (bm_impl m))) (bm_exec m) c s of
    (r', s', es) \<Rightarrow> r = r' \<and> mutex_rel (bm_impl m') w' s' \<and> trace w' = trace w @ es \<and>
      mtx (bm_impl m') = mtx (bm_impl m) \<and> bm_exec m' = bm_exec m)"
proof (cases c)
  case Call_try_lock
  with mutex_try_lock_refines[OF assms] show ?thesis
    by (auto simp: basic_mutex_try_lock_def same_object_def elim!: okE split: prod.splits)
next
  case (Call_lock ec)
  with mutex_lock_refines[OF assms, of ec] show ?thesis
    by (auto simp: basic_mutex_lock_def same_object_def elim!: okE split: prod.splits)
next
  case (Call_async_lock h)
  with mutex_async_lock_refines[OF assms, of h] show ?thesis
    by (auto simp: same_object_def elim!: okE split: prod.splits)
next
  case Call_unlock
  with mutex_unlock_refines[OF assms] show ?thesis
    by (auto simp: basic_mutex_unlock_def elim!: okE split: prod.splits)
qed

interpretation mutex_calls: refined_calls mutex_exec mspec_exec "\<lambda>c s. True" "\<lambda>m. mutex_rel (bm_impl m)"
    "\<lambda>m. enabled (mtx (bm_impl m))" bm_exec
proof (unfold_locales, goal_cases)
  case (1 m w s c)
  from mutex_exec_refines[OF 1(1), of c] show ?case by (auto elim!: ok_conseq split: prod.splits)
qed

lemmas mutex_run_simulates = mutex_calls.run_refines[OF _ legal_run_unrestricted]

subsection \<open>The mutex as a source of one permit\<close>

definition mutex_permits :: "basic_mutex \<Rightarrow> world \<Rightarrow> nat \<Rightarrow> handler multiset \<Rightarrow> bool" where
  "mutex_permits m w k Q \<longleftrightarrow>
     (\<exists>s. mutex_rel (bm_impl m) w s \<and> k = of_bool (\<not> owned s) \<and> Q = awaiting (queue s) \<and> all_async (queue s))"

lemma mutex_permitsI:
  "mutex_rel (bm_impl m) w s \<Longrightarrow> k = of_bool (\<not> owned s) \<Longrightarrow> Q = awaiting (queue s) \<Longrightarrow> all_async (queue s) \<Longrightarrow>
    mutex_permits m w k Q"
  unfolding mutex_permits_def by blast

definition mutex_cancels :: "basic_mutex \<Rightarrow> world \<Rightarrow> basic_mutex \<Rightarrow> world \<Rightarrow> bool" where
  "mutex_cancels m w m' w' \<longleftrightarrow> (\<exists>q a x s type u i. pending w (waiters (bm_impl m)) q \<and> (a, x) \<in> set q \<and>
     op_slot x = Some s \<and> slots w s = Some a \<and>
     async_lock_cancel (bm_impl m) a type w = Some (u, i, w') \<and> m' = m\<lparr>bm_impl := i\<rparr>)"

lemma mutex_cancels_ok:
  assumes "mutex_permits m w k Q" "mutex_cancels m w m' w'"
  shows "grants w w' = 0 \<and> (\<exists>Q'. mutex_permits m' w' k Q' \<and> Q' + addressees (new_events w w') = Q \<and>
    all_calls (new_events w w') \<and> (m' = m \<and> w' = w \<or> size Q' < size Q))"
proof -
  from assms(1) obtain s where s: "mutex_rel (bm_impl m) w s" "k = of_bool (\<not> owned s)" "Q = awaiting (queue s)" "all_async (queue s)"
    by (auto simp: mutex_permits_def)
  from assms(2) obtain q a x sl type u i where c: "pending w (waiters (bm_impl m)) q" "(a, x) \<in> set q" "op_slot x = Some sl"
    "async_lock_cancel (bm_impl m) a type w = Some (u, i, w')" "m' = m\<lparr>bm_impl := i\<rparr>"
    unfolding mutex_cancels_def by blast
  have q: "q = queue s" using s(1) c(1) by (auto simp: mutex_rel_def intro: pending_unique)
  show ?thesis
  proof (cases "type = 0")
    case True
    with c(4,5) assms(1) show ?thesis by (auto simp: async_lock_cancel_def grants_def new_events_def)
  next
    case False
    from c(2) q have a: "a \<in> fst ` set (queue s)" by force
    from c(2) obtain ys zs where y: "queue s = ys @ (a, x) # zs" unfolding q by (metis split_list)
    have "distinct (map fst (ys @ (a, x) # zs))" using pending_distinct[OF c(1)] q y by simp
    note f = assoc_split[OF this, folded y]
    from mutex_cancel_refines[OF s(1) a False] c(4,5) have r:
      "mutex_rel (bm_impl m') w' (s\<lparr>queue := ys @ zs\<rparr>)" "trace w' = trace w @ signals operation_aborted a x"
      using f by (auto simp: mspec_cancel_def elim!: okE)
    have "mutex_permits m' w' k (awaiting (ys @ zs))" by (rule mutex_permitsI[OF r(1)]) (use s(2,4) y in simp_all)
    with r(2) s(3) y slot_handler[OF c(3)] show ?thesis by (intro conjI exI[of _ "awaiting (ys @ zs)"]) simp_all
  qed
qed

interpretation mutex_source: permit_source basic_mutex_try_lock basic_mutex_async_lock basic_mutex_unlock
  mutex_cancels mutex_permits 1
proof (unfold_locales, goal_cases)
  case (1 p w k Q)
  then show ?case by (auto simp: mutex_permits_def mutex_rel_def)
next
  case (2 p w k Q)
  then obtain s where s: "mutex_rel (bm_impl p) w s" "k = of_bool (\<not> owned s)" "Q = awaiting (queue s)" "all_async (queue s)"
    by (auto simp: mutex_permits_def)
  show ?case
    using mutex_try_lock_refines[OF s(1)] s(2-4)
    by (fastforce simp: basic_mutex_try_lock_def mspec_try_lock_def mutex_permits_def elim!: okE split: if_splits)
next
  case (3 p w k Q h)
  then obtain s where s: "mutex_rel (bm_impl p) w s" "k = of_bool (\<not> owned s)" "Q = awaiting (queue s)" "all_async (queue s)"
    by (auto simp: mutex_permits_def)
  let ?L = "mspec_async_lock (bm_exec p) h s"
  from mutex_async_lock_refines[OF s(1), of h] obtain p' w' where a: "basic_mutex_async_lock p h w = Some (p', w')"
    "mutex_rel (bm_impl p') w' (fst ?L)" "trace w' = trace w @ snd ?L" by (auto elim!: okE)
  have "grants w w' \<le> k" "k - grants w w' = of_bool (\<not> owned (fst ?L))"
    "awaiting (queue (fst ?L)) + addressees (new_events w w') = add_mset h Q"
    "all_async (queue (fst ?L))" "all_calls (new_events w w')"
    using a(3) s(2-4) by (auto simp: mspec_async_lock_def)
  with mutex_permitsI[OF a(2) _ refl, of "k - grants w w'"] a(1) show ?case by (auto simp del: One_nat_def)
next
  case (4 p w k Q)
  then obtain s where s: "mutex_rel (bm_impl p) w s" "owned s" "k = 0" "Q = awaiting (queue s)" "all_async (queue s)"
    by (auto simp: mutex_permits_def)
  from mutex_unlock_refines[OF s(1)] obtain i w' where u: "mutex_impl_unlock (bm_impl p) w = Some ((), i, w')"
    "mutex_rel (bm_impl (p\<lparr>bm_impl := i\<rparr>)) w' (fst (mspec_unlock s))" "trace w' = trace w @ snd (mspec_unlock s)"
    by (auto elim!: okE)
  have "grants w w' \<le> k + 1" "k + 1 - grants w w' = of_bool (\<not> owned (fst (mspec_unlock s)))"
    "awaiting (queue (fst (mspec_unlock s))) + addressees (new_events w w') = Q"
    "all_async (queue (fst (mspec_unlock s)))" "all_calls (new_events w w')"
    using u(3) s by (auto simp: mspec_unlock_def ac_simps split: list.splits)
  with mutex_permitsI[OF u(2) _ refl, of "k + 1 - grants w w'"] u(1) show ?case
    by (auto simp: basic_mutex_unlock_def simp del: One_nat_def)
next
  case (5 p w k Q p' w')
  then show ?case by (rule mutex_cancels_ok)
qed

subsection \<open>The mutex among other primitives\<close>

text \<open>A mutex with the number of its holders.\<close>

type_synonym held = "basic_mutex \<times> nat"

fun mutex_history :: "held \<Rightarrow> world \<Rightarrow> bool" where
  "mutex_history (m, n) w = mutex_reachable (m, w, n)"

fun mutex_acts :: "held \<times> world \<Rightarrow> held \<times> world \<Rightarrow> bool" where
  "mutex_acts ((m, n), w) ((m', n'), w') = mutex_action (m, w, n) (m', w', n')"

fun mutex_roots :: "held \<Rightarrow> addr list" where
  "mutex_roots (m, n) = [waiters (bm_impl m)]"

fun mutex_base :: "held \<Rightarrow> service_member" where
  "mutex_base (m, n) = service_member.truncate (bm_impl m)"

fun mutex_new :: "op_list_service \<times> world \<Rightarrow> held \<times> op_list_service \<times> world \<Rightarrow> bool" where
  "mutex_new (svc, w) ((m, n), svc', w') \<longleftrightarrow> n = 0 \<and>
     (\<exists>ex A ctx hint. basic_mutex_ctor ex A ctx hint svc w = Some (m, svc', w'))"

fun mutex_delete :: "held \<Rightarrow> op_list_service \<Rightarrow> world \<Rightarrow> (op_list_service \<times> world) option" where
  "mutex_delete (m, n) svc w = mutex_impl_dtor (bm_impl m) svc w"

fun mutex_move :: "held \<Rightarrow> op_list_service \<Rightarrow> world \<Rightarrow> (held \<times> held \<times> op_list_service \<times> world) option" where
  "mutex_move (m, n) svc w = do {
     (t, m, svc, w) \<leftarrow> basic_mutex_move_ctor m svc w;
     Some ((t, n), (m, 0), svc, w) }"

interpretation mutex_shared: shared_primitive mutex_history mutex_acts mutex_roots mutex_base mutex_new mutex_delete
  mutex_move
proof (unfold_locales, goal_cases)
  case (1 p w r)
  then show ?case by (cases p) (auto dest!: mutex_reachable_inv, metis mutex_relD(2))
next
  case (2 p w p' w')
  obtain m n m' n' where p: "p = (m, n)" "p' = (m', n')" by force
  with 2 have a: "mutex_reachable (m, w, n)" "mutex_action (m, w, n) (m', w', n')" by simp_all
  with mutex_action_local[OF a(2) mutex_reachable_inv[OF a(1)]] p show ?case
    by (auto simp: same_object_def service_member.defs intro: mutex_reachable.step mutex_step.call)
next
  case (3 p w w')
  then show ?case by (cases p) (auto intro: mutex_reachable.step mutex_step.other)
next
  case (4 w svc ms p svc' w')
  obtain m n where p: "p = (m, n)" by force
  with 4 obtain ex A ctx hint where c: "basic_mutex_ctor ex A ctx hint svc w = Some (m, svc', w')" "n = 0" by auto
  have "mutex_reachable (m, w', 0)" by (rule mutex_reachable.init[OF 4(1,2) c(1)])
  with mutex_ctor_ok[OF 4(1,2), of ex A ctx hint] c p show ?case
    by (auto simp: service_member.defs mutex_rel_def)
next
  case (5 p w svc ms ns)
  obtain m n where p: "p = (m, n)" by force
  with 5(1) obtain s where s: "mutex_rel (bm_impl m) w s" by (auto dest!: mutex_reachable_inv)
  have "registered w svc (ms @ sm_node (bm_impl m) # ns)" "service (bm_impl m) = Some (entries svc)"
    "waiters (bm_impl m) \<notin> set (entries svc # ms @ sm_node (bm_impl m) # ns)"
    using 5 p by (auto simp: service_member.defs)
  from mutex_dtor_ok[OF s this] p show ?case by (auto simp: service_member.defs insert_commute elim!: ok_conseq)
next
  case (6 p w svc ms)
  obtain m n where p: "p = (m, n)" by force
  with 6(1) obtain s where s: "mutex_rel (bm_impl m) w s" by (auto dest!: mutex_reachable_inv)
  have r: "mutex_reachable (m, w, n)" "service (bm_impl m) = Some (entries svc)"
    "waiters (bm_impl m) \<notin> set (entries svc # ms)"
    using 6 p by (auto simp: service_member.defs)
  note reach = mutex_reachable.move[OF r(1) 6(2) r(2,3)]
  from mutex_move_ctor_ok[OF s 6(2) r(2,3)] obtain t m' w' where
    "basic_mutex_move_ctor m svc w = Some (t, m', svc, w')" "mutex_rel (bm_impl t) w' (s\<lparr>fresh := fresh s + 2\<rparr>)"
    "mutex_rel (bm_impl m') w' \<lparr>owned = False, queue = [], fresh = fresh s + 2\<rparr>" "same_object (bm_impl m) (bm_impl m')"
    "registered w' svc (ms @ [sm_node (bm_impl t)])" "trace w' = trace w" "service (bm_impl t) = Some (entries svc)"
    "sm_node (bm_impl t) = brk w" "waiters (bm_impl t) = Suc (brk w)"
    "spares (insert (waiters (bm_impl m)) (set (entries svc # ms))) w w'"
    by (auto elim!: okE)
  moreover have "brk w \<notin> dom (nodes w)" "Suc (brk w) \<notin> dom (nodes w)"
    using world_ok_fresh[OF mutex_relD(1)[OF s]] by simp_all
  ultimately show ?case using p s reach
    by (auto simp: same_object_def service_member.defs insert_commute mutex_rel_def intro: carriedI)
next
  case (7 p w)
  then show ?case by (cases p) (auto simp: service_member.defs mutex_rel_def dest!: mutex_reachable_inv)
qed

end
