(* ===== verification/Mutex_Props.thy ===== *)
theory Mutex_Props
  imports Mutex_Impl
begin

section \<open>Properties of the mutex\<close>

text \<open>
  What callers of the mutex rely on, stated over every reachable state, each with an example
  that applies it to a concrete history.
\<close>

subsection \<open>A mutex to start from\<close>

definition some_mutex :: basic_mutex where
  "some_mutex = \<lparr>bm_exec = 7, bm_impl =
     \<lparr>sm_node = 1, service = Some 0, mtx = cem_ctor True, locked = False, waiters = 2\<rparr>\<rparr>"

definition mutex_world :: world where
  "mutex_world = \<lparr>nodes = [0 \<mapsto> \<lparr>next_node = 1, prev_node = 1\<rparr>, 1 \<mapsto> \<lparr>next_node = 0, prev_node = 0\<rparr>,
                           2 \<mapsto> \<lparr>next_node = 2, prev_node = 2\<rparr>],
     ops = Map.empty, slots = Map.empty, trace = [], brk = 3\<rparr>"

lemmas mutex_eval [sam_eval] = mutex_impl.defs some_mutex_def mutex_world_def add_waiter_def
  basic_mutex_ctor_def mutex_impl_ctor_def basic_mutex_lock_def basic_mutex_async_lock_def basic_mutex_unlock_def
  basic_mutex_try_lock_def mutex_impl_lock_def mutex_impl_unlock_def mutex_impl_try_lock_def

lemma some_mutex_ctor:
  "basic_mutex_ctor 7 some_hints some_ctx (-1) start_service start_world = Some (some_mutex, start_service, mutex_world)"
  by (simp add: sam_eval fun_upd_twist numeral_eq_Suc)

lemma some_mutex_ok:
  "mutex_rel (bm_impl some_mutex) mutex_world \<lparr>owned = False, queue = [], fresh = 3\<rparr>"
  "registered mutex_world start_service [1]" "mutex_reachable (some_mutex, mutex_world, 0)"
  using mutex_ctor_ok[OF start_ok, of 7 some_hints some_ctx "-1"] some_mutex_ctor
    mutex_reachable.init[OF start_ok some_mutex_ctor]
  by (simp_all add: start_world_def empty_world_def op_list_service_ctor_def new_node_def numeral_eq_Suc)

text \<open>The mutex after a successful \<open>try_lock\<close>, and with two more requests in its queue.\<close>

definition held_mutex :: basic_mutex where
  "held_mutex = some_mutex\<lparr>bm_impl := (bm_impl some_mutex)\<lparr>locked := True\<rparr>\<rparr>"

lemma held_mutex_reachable: "mutex_reachable (held_mutex, mutex_world, 1)"
proof -
  have "basic_mutex_try_lock some_mutex mutex_world = Some (True, held_mutex, mutex_world)"
    by (simp add: sam_eval held_mutex_def)
  from mutex_reachable.step[OF some_mutex_ok(3) mutex_step.call[OF mutex_action.try_lock[OF this, of 0]]] show ?thesis by simp
qed

definition busy_world :: world where
  "busy_world = \<lparr>nodes = [0 \<mapsto> \<lparr>next_node = 1, prev_node = 1\<rparr>, 1 \<mapsto> \<lparr>next_node = 0, prev_node = 0\<rparr>,
       2 \<mapsto> \<lparr>next_node = 3, prev_node = 4\<rparr>, 3 \<mapsto> \<lparr>next_node = 4, prev_node = 2\<rparr>,
       4 \<mapsto> \<lparr>next_node = 2, prev_node = 3\<rparr>],
     ops = [3 \<mapsto> Basic_op \<lparr>work_guard = 7, op_handler = some_handler 1\<rparr>,
            4 \<mapsto> Lock_op \<lparr>op_ec = success, op_done = False\<rparr>],
     slots = [1 \<mapsto> 3], trace = [], brk = 5\<rparr>"

abbreviation busy_queue :: "(addr \<times> wait_op) list" where
  "busy_queue \<equiv> [(3, Basic_op \<lparr>work_guard = 7, op_handler = some_handler 1\<rparr>),
                  (4, Lock_op \<lparr>op_ec = success, op_done = False\<rparr>)]"

lemma busy_mutex_reachable: "mutex_reachable (held_mutex, busy_world, 1)"
proof -
  let ?w = "\<lparr>nodes = [0 \<mapsto> \<lparr>next_node = 1, prev_node = 1\<rparr>, 1 \<mapsto> \<lparr>next_node = 0, prev_node = 0\<rparr>,
       2 \<mapsto> \<lparr>next_node = 3, prev_node = 3\<rparr>, 3 \<mapsto> \<lparr>next_node = 2, prev_node = 2\<rparr>],
     ops = [3 \<mapsto> Basic_op \<lparr>work_guard = 7, op_handler = some_handler 1\<rparr>],
     slots = [1 \<mapsto> 3], trace = [], brk = 4\<rparr>"
  have 1: "basic_mutex_async_lock held_mutex (some_handler 1) mutex_world = Some (held_mutex, ?w)"
    by (simp add: sam_eval held_mutex_def fun_upd_twist)
  have 2: "basic_mutex_lock held_mutex success ?w = Some (Blocked 4, held_mutex, busy_world)"
    by (simp add: sam_eval held_mutex_def busy_world_def fun_upd_twist)
  have g: "grants mutex_world ?w = 0" by (simp add: grants_def mutex_world_def)
  from mutex_reachable.step[OF held_mutex_reachable mutex_step.call[OF mutex_action.async_lock[OF 1, of 1]]] g
  have "mutex_reachable (held_mutex, ?w, 1)" by simp
  from mutex_reachable.step[OF this mutex_step.call[OF mutex_action.lock[OF 2, of 1]]] show ?thesis by simp
qed

lemma busy_pending: "pending busy_world (waiters (bm_impl held_mutex)) busy_queue"
  by (simp add: pending_def is_bilist_def link_def busy_world_def held_mutex_def some_mutex_def heap_access)

subsection \<open>Properties\<close>

text \<open>
  C1: Mutual exclusion.  After any interleaving of \<open>try_lock\<close>, \<open>lock\<close>, \<open>async_lock\<close>, \<open>unlock\<close> and
  cancellations on a newly constructed \<open>basic_mutex\<close>, at most one request holds the mutex,
  and the flag \<open>locked_\<close> says exactly whether one does.
\<close>

theorem mutex_mutual_exclusion:
  assumes "mutex_reachable (m, w, n)"
  shows "n \<le> 1 \<and> (locked (bm_impl m) \<longleftrightarrow> n = 1)"
  using mutex_reachable_inv[OF assms] by (auto simp: mutex_rel_def)

theorem mutex_mutual_exclusion_witness:
  "mutex_reachable (held_mutex, busy_world, 1) \<and> locked (bm_impl held_mutex)"
  using mutex_mutual_exclusion[OF busy_mutex_reachable] busy_mutex_reachable by simp

text \<open>
  C11: Hand-over.  Whenever requests wait in a reachable state the mutex is held, so a release
  is still to come, and \<open>unlock\<close> gives the mutex to the oldest request and to no other: that
  operation leaves the queue and is completed without an error, the mutex stays locked.
\<close>

theorem mutex_unlock_hands_over:
  assumes "mutex_reachable (m, w, n)" "pending w (waiters (bm_impl m)) ((a, x) # q)"
  shows "n = 1 \<and> ok (basic_mutex_unlock m w) (\<lambda>(m', w'). m' = m \<and> locked (bm_impl m') \<and>
    pending w' (waiters (bm_impl m')) q \<and> trace w' = trace w @ signals success a x \<and>
    ops w' = (ops w)(a := finished success x))"
proof -
  from mutex_reachable_inv[OF assms(1)] obtain s where s: "mutex_rel (bm_impl m) w s" "n = of_bool (owned s)"
    by auto
  have q: "queue s = (a, x) # q" using s(1) assms(2) by (auto simp: mutex_rel_def intro: pending_unique)
  with mutex_unlock_refines[OF s(1)] s show ?thesis
    by (auto simp: basic_mutex_unlock_def mspec_unlock_def mutex_rel_def elim!: okE)
qed

theorem mutex_unlock_hands_over_witness:
  "ok (basic_mutex_unlock held_mutex busy_world) (\<lambda>(m', w'). locked (bm_impl m') \<and>
     pending w' 2 [(4, Lock_op \<lparr>op_ec = success, op_done = False\<rparr>)] \<and> trace w' = [Post 7 (some_handler 1) success])"
  using mutex_unlock_hands_over[OF busy_mutex_reachable busy_pending]
  by (auto simp: held_mutex_def some_mutex_def busy_world_def elim!: ok_conseq)


text \<open>
  C2: Refinement.  Construct a mutex and make any sequence of \<open>try_lock\<close>, \<open>lock\<close>, \<open>async_lock\<close> and
  \<open>unlock\<close> calls: every call returns, with the result, the completions and the queue that the
  abstract mutex (a flag and a queue of requests) has for the same sequence.
\<close>

theorem mutex_run_refines:
  assumes "world_ok w" "registered w svc ms"
  shows "ok (do { (m, svc', w1) \<leftarrow> basic_mutex_ctor ex A ctx hint svc w; mutex_run cs m w1 })
    (\<lambda>(rs, m', w'). case mspec_run (\<not> is_single_threaded A ctx hint) ex cs
        \<lparr>owned = False, queue = [], fresh = brk w + 2\<rparr> of
      (rs', s', es) \<Rightarrow> rs = rs' \<and> trace w' = trace w @ es \<and> locked (bm_impl m') = owned s' \<and>
        pending w' (waiters (bm_impl m')) (queue s'))"
proof -
  from mutex_ctor_ok[OF assms, of ex A ctx hint] obtain m w1 where
    c: "basic_mutex_ctor ex A ctx hint svc w = Some (m, svc, w1)" "bm_exec m = ex"
      "mutex_rel (bm_impl m) w1 \<lparr>owned = False, queue = [], fresh = brk w + 2\<rparr>"
      "enabled (mtx (bm_impl m)) = (\<not> is_single_threaded A ctx hint)" "trace w1 = trace w"
    by (auto elim!: okE)
  show ?thesis
    using mutex_run_simulates[OF c(3), of cs] c(1,2,4,5)
    by (auto simp: mutex_rel_def elim!: ok_conseq split: prod.splits)
qed

theorem mutex_run_refines_witness:
  "ok (do { (m, svc', w1) \<leftarrow> basic_mutex_ctor 7 some_hints some_ctx (-1) start_service start_world;
            mutex_run [Call_lock success, Call_async_lock (some_handler 1), Call_try_lock, Call_unlock] m w1 })
    (\<lambda>(rs, m', w'). rs = [Code_result (Returned success), No_result, Bool_result False, No_result] \<and>
       trace w' = [Post 7 (some_handler 1) success] \<and> locked (bm_impl m') \<and> pending w' (waiters (bm_impl m')) [])"
proof -
  have e: "is_single_threaded some_hints some_ctx (-1) = False" "trace start_world = []"
    by (simp_all add: sam_eval)
  show ?thesis
    using mutex_run_refines[OF start_ok, of 7 some_hints some_ctx "-1"
        "[Call_lock success, Call_async_lock (some_handler 1), Call_try_lock, Call_unlock]"]
    by (simp add: e mspec_lock_def mspec_async_lock_def mspec_try_lock_def mspec_unlock_def some_handler_def
        get_associated_executor_def)
qed

text \<open>
  C23: Cancellation.  Emitting a cancellation signal for a pending \<open>async_lock\<close> completes exactly
  that operation with \<open>operation_aborted\<close>, keeps the order of the others and does not change who
  holds the mutex; its slot no longer has a handler.
\<close>

theorem mutex_cancel_aborts_one:
  assumes "mutex_reachable (m, w, n)" "pending w (waiters (bm_impl m)) (ys @ (a, x) # zs)"
    and "slots w sl = Some a" "type \<noteq> 0"
  shows "ok (async_lock_cancel (bm_impl m) a type w) (\<lambda>(u, i, w'). i = bm_impl m \<and>
    pending w' (waiters i) (ys @ zs) \<and> trace w' = trace w @ signals operation_aborted a x \<and>
    slots w' = (slots w)(sl := None))"
proof -
  from mutex_reachable_inv[OF assms(1)] have P: "world_ok w" "idle (mtx (bm_impl m))"
    by (auto simp: mutex_rel_def)
  have "op_slot x = Some sl" using assms(2,3) P(1) by (force simp: world_ok_def pending_def)
  moreover from complete_pending[OF P(1) assms(2)] obtain w' where
    "op_complete operation_aborted a w = Some w'" "pending w' (waiters (bm_impl m)) (ys @ zs)"
    "trace w' = trace w @ signals operation_aborted a x"
    "slots w' = (\<lambda>s. if op_slot x = Some s then None else slots w s)" by metis
  ultimately show ?thesis
    using assms(4) unfolding async_lock_cancel_def by (auto intro!: scoped_ok P(2) ext)
qed

theorem mutex_cancel_aborts_one_witness:
  "ok (async_lock_cancel (bm_impl held_mutex) 3 1 busy_world) (\<lambda>(u, i, w').
     pending w' 2 [(4, Lock_op \<lparr>op_ec = success, op_done = False\<rparr>)] \<and>
     trace w' = [Post 7 (some_handler 1) operation_aborted] \<and> slots w' = Map.empty)"
proof -
  have s: "slots busy_world 1 = Some 3" "(slots busy_world)(1 := None) = Map.empty" "trace busy_world = []"
    and e: "waiters (bm_impl held_mutex) = 2" by (simp_all add: busy_world_def held_mutex_def some_mutex_def)
  show ?thesis
    using mutex_cancel_aborts_one[OF busy_mutex_reachable, of "[]", simplified, OF busy_pending s(1), of 1] s
    by (auto simp: e elim!: ok_conseq)
qed

text \<open>
  Progress.  In a reachable state no call on the mutex is undefined or stuck on the internal
  mutex: each of them returns, also \<open>shutdown\<close>.
\<close>

theorem mutex_calls_return:
  assumes "mutex_reachable (m, w, n)"
  shows "(\<exists>b m' w'. basic_mutex_try_lock m w = Some (b, m', w')) \<and>
    (\<exists>r m' w'. basic_mutex_lock m ec w = Some (r, m', w')) \<and>
    (\<exists>m' w'. basic_mutex_async_lock m h w = Some (m', w')) \<and>
    (\<exists>m' w'. basic_mutex_unlock m w = Some (m', w')) \<and>
    (\<exists>i w'. mutex_impl_shutdown (bm_impl m) w = Some (i, w'))"
proof -
  from mutex_reachable_inv[OF assms] obtain s where s: "mutex_rel (bm_impl m) w s" by auto
  note r = mutex_exec_refines[OF s, of Call_try_lock] mutex_exec_refines[OF s, of "Call_lock ec"]
    mutex_exec_refines[OF s, of "Call_async_lock h"] mutex_exec_refines[OF s, of Call_unlock]
  show ?thesis
    using r[unfolded mutex_exec.simps ok_bind] mutex_shutdown_ok[OF s] by (auto simp: ok_def)
qed

theorem mutex_calls_return_witness:
  "\<exists>m' w'. basic_mutex_async_lock held_mutex (some_handler 2) busy_world = Some (m', w')"
  using mutex_calls_return[OF busy_mutex_reachable] by blast

text \<open>
  Destruction.  The destructor of a mutex in a reachable state completes every pending request,
  oldest first, with \<open>operation_aborted\<close>, takes the object off the list of its service and
  leaves the other members and their order alone.
\<close>

theorem mutex_dtor_aborts_waiters:
  assumes "mutex_reachable (m, w, n)" "pending w (waiters (bm_impl m)) q"
    and "registered w svc (ms @ sm_node (bm_impl m) # ns)" "service (bm_impl m) = Some (entries svc)"
    and "waiters (bm_impl m) \<notin> set (entries svc # ms @ sm_node (bm_impl m) # ns)"
  shows "ok (mutex_impl_dtor (bm_impl m) svc w) (\<lambda>(svc', w'). registered w' svc (ms @ ns) \<and> world_ok w' \<and>
    trace w' = trace w @ concat (map (\<lambda>(a, x). signals operation_aborted a x) q) \<and>
    nodes w' (waiters (bm_impl m)) = None \<and> nodes w' (sm_node (bm_impl m)) = None)"
proof -
  from mutex_reachable_inv[OF assms(1)] obtain s where s: "mutex_rel (bm_impl m) w s" by auto
  have "queue s = q" using s assms(2) by (auto simp: mutex_rel_def intro: pending_unique)
  with mutex_dtor_ok[OF s assms(3-5)] show ?thesis by (auto simp: drained_def elim!: ok_conseq)
qed

theorem mutex_dtor_aborts_waiters_witness:
  "ok (mutex_impl_dtor (bm_impl held_mutex) start_service busy_world) (\<lambda>(svc', w').
     registered w' start_service [] \<and> trace w' = [Post 7 (some_handler 1) operation_aborted, Wake 4 operation_aborted])"
proof -
  have e: "entries start_service = 0" "sm_node (bm_impl held_mutex) = 1" "waiters (bm_impl held_mutex) = 2"
    "service (bm_impl held_mutex) = Some 0" by (simp_all add: sam_eval held_mutex_def)
  have r: "registered busy_world start_service ([] @ sm_node (bm_impl held_mutex) # [])"
    using some_mutex_ok(2) by (simp add: registered_def is_bilist_def link_def heap_access busy_world_def mutex_world_def e)
  show ?thesis
    using mutex_dtor_aborts_waiters[OF busy_mutex_reachable busy_pending r] by (auto simp: e busy_world_def elim!: ok_conseq)
qed

text \<open>
  The throwing \<open>lock\<close> of a single-threaded mutex never blocks: it takes a free mutex, and on a mutex that is
  held it throws \<open>in_progress\<close> and changes nothing.
\<close>

theorem mutex_lock_throws_when_held:
  assumes "mutex_reachable (m, w, n)" "\<not> enabled (mtx (bm_impl m))"
  shows "basic_mutex_lock_throw m w =
    (if n = 0 then Some (Returned (Inr ()), m\<lparr>bm_impl := (bm_impl m)\<lparr>locked := True\<rparr>\<rparr>, w)
     else Some (Returned (Inl in_progress), m, w))"
proof -
  from mutex_reachable_inv[OF assms(1)] obtain s where "mutex_rel (bm_impl m) w s" "n = of_bool (owned s)"
    by auto
  then show ?thesis
    using assms(2)
    by (simp add: basic_mutex_lock_throw_def basic_mutex_lock_def mutex_impl_lock_def mutex_impl_try_lock_def
        scoped_def mutex_rel_def check_error_def throw_error_def)
qed

text \<open>The same mutex as before, on a context whose hint says that one thread runs it.\<close>

definition single_mutex :: "bool \<Rightarrow> basic_mutex" where
  "single_mutex l = \<lparr>bm_exec = 7, bm_impl =
     \<lparr>sm_node = 1, service = Some 0, mtx = cem_ctor False, locked = l, waiters = 2\<rparr>\<rparr>"

lemma single_mutex_reachable: "mutex_reachable (single_mutex True, mutex_world, 1)"
proof -
  have c: "basic_mutex_ctor 7 some_hints some_ctx 1 start_service start_world =
      Some (single_mutex False, start_service, mutex_world)"
    by (simp add: sam_eval single_mutex_def fun_upd_twist numeral_eq_Suc)
  have t: "basic_mutex_try_lock (single_mutex False) mutex_world = Some (True, single_mutex True, mutex_world)"
    by (simp add: sam_eval single_mutex_def)
  from mutex_reachable.step[OF mutex_reachable.init[OF start_ok c] mutex_step.call[OF mutex_action.try_lock[OF t, of 0]]]
  show ?thesis by simp
qed

theorem mutex_lock_throws_when_held_witness:
  "basic_mutex_lock_throw (single_mutex True) mutex_world = Some (Returned (Inl in_progress), single_mutex True, mutex_world)"
  using mutex_lock_throws_when_held[OF single_mutex_reachable] by (simp add: single_mutex_def)

end
