(* ===== verification/Semaphore_Impl.thy ===== *)
theory Semaphore_Impl
  imports Permit_Source
begin

section \<open>The semaphore\<close>

text \<open>
  Models \<open>detail/semaphore_impl.hpp\<close>, \<open>detail/impl/semaphore_impl.ipp\<close>, \<open>basic_semaphore.hpp\<close> and
  \<open>impl/basic_semaphore.hpp\<close>.  \<open>count_\<close> is a 32-bit \<open>int\<close>: an increment beyond its range and
  a failed \<open>BOOST_SAM_ASSERT\<close> are \<open>None\<close>.
\<close>

subsection \<open>The implementation object\<close>

record semaphore_impl = service_member +
  sem_count :: int
  sem_waiters :: addr

definition semaphore_impl_ctor ::
  "asio_hints \<Rightarrow> execution_context \<Rightarrow> int \<Rightarrow> int \<Rightarrow> op_list_service \<Rightarrow> world \<Rightarrow>
   (semaphore_impl \<times> op_list_service \<times> world) option" where
  "semaphore_impl_ctor A ctx initial_count hint svc w = do {
     (sm, svc, w) \<leftarrow> service_member_ctor A ctx hint svc w;
     let (r, w) = new_node w;
     Some (service_member.extend sm (semaphore_impl.fields initial_count r), svc, w) }"

definition semaphore_add_waiter :: "semaphore_impl \<Rightarrow> addr \<Rightarrow> world \<Rightarrow> world option" where
  "semaphore_add_waiter this waiter w = on_nodes (link_before waiter (sem_waiters this)) w"

definition semaphore_count :: "semaphore_impl \<Rightarrow> int" where
  "semaphore_count this = sem_count this"

definition semaphore_decrement :: "semaphore_impl \<Rightarrow> semaphore_impl option" where
  "semaphore_decrement this = (if sem_count this > 0 then do {
       c \<leftarrow> checked_int (sem_count this - 1);
       Some (this\<lparr>sem_count := c\<rparr>) }
     else None)"

definition semaphore_impl_release :: "semaphore_impl \<Rightarrow> world \<Rightarrow> (unit \<times> semaphore_impl \<times> world) option" where
  "semaphore_impl_release this w = scoped (\<lambda>this. do {
     c \<leftarrow> checked_int (sem_count this + 1);
     let this = this\<lparr>sem_count := c\<rparr>;
     nx \<leftarrow> get_next (sem_waiters this) (nodes w);
     if nx = sem_waiters this then Some ((), this, w)
     else do {
       this \<leftarrow> semaphore_decrement this;
       w \<leftarrow> op_complete success nx w;
       Some ((), this, w) } }) this"

definition semaphore_impl_try_acquire ::
  "semaphore_impl \<Rightarrow> world \<Rightarrow> (bool \<times> semaphore_impl \<times> world) option" where
  "semaphore_impl_try_acquire this w = scoped (\<lambda>this.
     if sem_count this > 0 then do {
       c \<leftarrow> checked_int (sem_count this - 1);
       Some (True, this\<lparr>sem_count := c\<rparr>, w) }
     else Some (False, this, w)) this"

definition semaphore_impl_acquire ::
  "semaphore_impl \<Rightarrow> error_code \<Rightarrow> world \<Rightarrow> (error_code call \<times> semaphore_impl \<times> world) option" where
  "semaphore_impl_acquire this ec w =
     (if \<not> enabled (mtx this) then do {
        (b, this, w) \<leftarrow> semaphore_impl_try_acquire this w;
        if b then Some (Returned ec, this, w)
        else Some (Returned in_progress, this, w) }
      else scoped (\<lambda>this. do {
        let (a, w) = new_op (acquire_op_t ec) w;
        w \<leftarrow> semaphore_add_waiter this a w;
        if sem_count this > 0 then do {
          this \<leftarrow> semaphore_decrement this;
          w \<leftarrow> on_nodes (unlink a) w;
          w \<leftarrow> destroy a w;
          Some (Returned ec, this, w) }
        else Some (Blocked a, this, w) }) this)"

text \<open>\<open>static_cast<int>(waiters_.size())\<close> keeps the low 32 bits of the 64-bit size.\<close>

definition semaphore_impl_value :: "semaphore_impl \<Rightarrow> world \<Rightarrow> (int \<times> semaphore_impl \<times> world) option" where
  "semaphore_impl_value this w = scoped (\<lambda>this. do {
     nx \<leftarrow> get_next (sem_waiters this) (nodes w);
     if nx = sem_waiters this then Some (semaphore_count this, this, w)
     else do {
       n \<leftarrow> node_size (sem_waiters this) (nodes w);
       v \<leftarrow> checked_int (semaphore_count this - size_to_int n);
       Some (v, this, w) } }) this"

definition semaphore_impl_shutdown :: "semaphore_impl \<Rightarrow> world \<Rightarrow> (semaphore_impl \<times> world) option" where
  "semaphore_impl_shutdown this w = do {
     (l, this, w) \<leftarrow> scoped (\<lambda>this. do {
        (l, w) \<leftarrow> holder_move_ctor (sem_waiters this) w;
        Some (l, this, w) }) this;
     w \<leftarrow> holder_shutdown l w;
     w \<leftarrow> holder_dtor l w;
     Some (this, w) }"

text \<open>Unlike the mutex, the source of a move keeps its count.\<close>

definition semaphore_impl_move_ctor ::
  "semaphore_impl \<Rightarrow> op_list_service \<Rightarrow> world \<Rightarrow>
   (semaphore_impl \<times> semaphore_impl \<times> op_list_service \<times> world) option" where
  "semaphore_impl_move_ctor mi svc w = do {
     (sm, svc, w) \<leftarrow> service_member_move_ctor mi svc w;
     (r, w) \<leftarrow> holder_move_ctor (sem_waiters mi) w;
     Some (service_member.extend sm (semaphore_impl.fields (sem_count mi) r), mi, svc, w) }"

definition semaphore_impl_move_assign ::
  "semaphore_impl \<Rightarrow> semaphore_impl \<Rightarrow> world \<Rightarrow> (unit \<times> semaphore_impl \<times> world) option" where
  "semaphore_impl_move_assign this lhs w = scoped (\<lambda>this. do {
     let this = this\<lparr>sem_count := sem_count lhs\<rparr>;
     w \<leftarrow> holder_swap (sem_waiters lhs) (sem_waiters this) w;
     Some ((), this, w) }) this"

definition semaphore_impl_dtor ::
  "semaphore_impl \<Rightarrow> op_list_service \<Rightarrow> world \<Rightarrow> (op_list_service \<times> world) option" where
  "semaphore_impl_dtor this svc w = do {
     w \<leftarrow> holder_dtor (sem_waiters this) w;
     service_member_dtor this svc w }"

subsection \<open>The public class\<close>

record basic_semaphore =
  bs_exec :: executor
  bs_impl :: semaphore_impl

definition basic_semaphore_ctor ::
  "executor \<Rightarrow> asio_hints \<Rightarrow> execution_context \<Rightarrow> int \<Rightarrow> int \<Rightarrow> op_list_service \<Rightarrow> world \<Rightarrow>
   (basic_semaphore \<times> op_list_service \<times> world) option" where
  "basic_semaphore_ctor ex A ctx initial_count hint svc w = do {
     (i, svc, w) \<leftarrow> semaphore_impl_ctor A ctx initial_count hint svc w;
     Some (\<lparr>bs_exec = ex, bs_impl = i\<rparr>, svc, w) }"

definition basic_semaphore_move_ctor ::
  "basic_semaphore \<Rightarrow> op_list_service \<Rightarrow> world \<Rightarrow>
   (basic_semaphore \<times> basic_semaphore \<times> op_list_service \<times> world) option" where
  "basic_semaphore_move_ctor sem svc w = do {
     (i, si, svc, w) \<leftarrow> semaphore_impl_move_ctor (bs_impl sem) svc w;
     Some (\<lparr>bs_exec = bs_exec sem, bs_impl = i\<rparr>, sem\<lparr>bs_impl := si\<rparr>, svc, w) }"

text \<open>The constructor from an execution context takes the context's own executor.\<close>

definition basic_semaphore_ctor_ctx ::
  "asio_hints \<Rightarrow> execution_context \<Rightarrow> int \<Rightarrow> int \<Rightarrow> op_list_service \<Rightarrow> world \<Rightarrow>
   (basic_semaphore \<times> op_list_service \<times> world) option" where
  "basic_semaphore_ctor_ctx A ctx initial_count hint svc w = do {
     (i, svc, w) \<leftarrow> semaphore_impl_ctor A ctx initial_count hint svc w;
     Some (\<lparr>bs_exec = ctx_executor ctx, bs_impl = i\<rparr>, svc, w) }"

definition basic_semaphore_get_executor :: "basic_semaphore \<Rightarrow> executor" where
  [simp]: "basic_semaphore_get_executor self = bs_exec self"

text \<open>
  Move assignment, and the assignment from a primitive with another executor type.  Both return the target
  first and the source second.
\<close>

definition basic_semaphore_move_assign ::
  "basic_semaphore \<Rightarrow> basic_semaphore \<Rightarrow> world \<Rightarrow> (basic_semaphore \<times> basic_semaphore \<times> world) option" where
  "basic_semaphore_move_assign this sem w = do {
     let this = this\<lparr>bs_exec := bs_exec sem\<rparr>;
     (u, i, w) \<leftarrow> semaphore_impl_move_assign (bs_impl this) (bs_impl sem) w;
     Some (this\<lparr>bs_impl := i\<rparr>, sem, w) }"

definition basic_semaphore_move_assign_converting ::
  "basic_semaphore \<Rightarrow> basic_semaphore \<Rightarrow> world \<Rightarrow> (basic_semaphore \<times> basic_semaphore \<times> world) option" where
  "basic_semaphore_move_assign_converting this sem w = do {
     let this = this\<lparr>bs_exec := bs_exec sem\<rparr>;
     (u, i, w) \<leftarrow> semaphore_impl_move_assign (bs_impl this) (bs_impl sem) w;
     Some (this\<lparr>bs_impl := i\<rparr>, sem, w) }"

definition basic_semaphore_acquire ::
  "basic_semaphore \<Rightarrow> error_code \<Rightarrow> world \<Rightarrow> (error_code call \<times> basic_semaphore \<times> world) option" where
  "basic_semaphore_acquire self ec w = do {
     (r, i, w) \<leftarrow> semaphore_impl_acquire (bs_impl self) ec w;
     Some (r, self\<lparr>bs_impl := i\<rparr>, w) }"

definition basic_semaphore_acquire_throw ::
  "basic_semaphore \<Rightarrow> world \<Rightarrow> ((error_code + unit) call \<times> basic_semaphore \<times> world) option" where
  "basic_semaphore_acquire_throw self w = do {
     (r, self, w) \<leftarrow> basic_semaphore_acquire self success w;
     Some (map_call (check_error ''acquire'') r, self, w) }"

definition basic_semaphore_try_acquire ::
  "basic_semaphore \<Rightarrow> world \<Rightarrow> (bool \<times> basic_semaphore \<times> world) option" where
  "basic_semaphore_try_acquire self w = do {
     (b, i, w) \<leftarrow> semaphore_impl_try_acquire (bs_impl self) w;
     Some (b, self\<lparr>bs_impl := i\<rparr>, w) }"

definition basic_semaphore_release :: "basic_semaphore \<Rightarrow> world \<Rightarrow> (basic_semaphore \<times> world) option" where
  "basic_semaphore_release self w = do {
     (u, i, w) \<leftarrow> semaphore_impl_release (bs_impl self) w;
     Some (self\<lparr>bs_impl := i\<rparr>, w) }"

definition basic_semaphore_value :: "basic_semaphore \<Rightarrow> world \<Rightarrow> (int \<times> basic_semaphore \<times> world) option" where
  "basic_semaphore_value self w = do {
     (v, i, w) \<leftarrow> semaphore_impl_value (bs_impl self) w;
     Some (v, self\<lparr>bs_impl := i\<rparr>, w) }"

definition basic_semaphore_async_acquire ::
  "basic_semaphore \<Rightarrow> handler \<Rightarrow> world \<Rightarrow> (basic_semaphore \<times> world) option" where
  "basic_semaphore_async_acquire self h w = do {
     let e = get_associated_executor h (bs_exec self);
     (u, i, w) \<leftarrow> scoped (\<lambda>impl.
        if semaphore_count impl > 0 then do {
          impl \<leftarrow> semaphore_decrement impl;
          let ie = get_associated_immediate_executor h (bs_exec self);
          Some ((), impl, emit (Dispatch ie h success) w) }
        else do {
          let (model, w) = basic_op_model_construct e h w;
          let w = slot_assign (basic_op_model_get_cancellation_slot (basic_op_model_ctor e h)) model w;
          w \<leftarrow> semaphore_add_waiter impl model w;
          Some ((), impl, w) }) (bs_impl self);
     Some (self\<lparr>bs_impl := i\<rparr>, w) }"

text \<open>
  The initiating function hands the operation to asio's \<open>async_initiate\<close>, a parameter, which makes a handler from the
  completion token and calls the operation with it.
\<close>

definition basic_semaphore_async_acquire_init ::
  "((handler \<Rightarrow> world \<Rightarrow> (basic_semaphore \<times> world) option) \<Rightarrow> 'token \<Rightarrow> 'r) \<Rightarrow>
   basic_semaphore \<Rightarrow> 'token \<Rightarrow> 'r" where
  "basic_semaphore_async_acquire_init async_initiate self token = async_initiate (basic_semaphore_async_acquire self) token"

text \<open>
  The cancellation handler; it also asks whether its copy of the slot is still connected,
  which a slot that was connected when the handler was installed always is.
\<close>

definition async_aquire_cancel ::
  "semaphore_impl \<Rightarrow> addr \<Rightarrow> slot option \<Rightarrow> nat \<Rightarrow> world \<Rightarrow> (unit \<times> semaphore_impl \<times> world) option" where
  "async_aquire_cancel impl model sl type w =
     (if type \<noteq> 0 then scoped (\<lambda>impl.
        if sl = None then Some ((), impl, w)
        else do {
          w \<leftarrow> op_complete operation_aborted model w;
          Some ((), impl, w) }) impl
      else Some ((), impl, w))"

subsection \<open>Abstract specification\<close>

text \<open>The contract: a number of permits and a queue of requests that found none.\<close>

record semaphore_spec =
  avail :: int
  squeue :: "(addr \<times> wait_op) list"
  sfresh :: addr

definition sspec_try_acquire :: "semaphore_spec \<Rightarrow> bool \<times> semaphore_spec" where
  "sspec_try_acquire s = (if avail s > 0 then (True, s\<lparr>avail := avail s - 1\<rparr>) else (False, s))"

definition sspec_acquire :: "bool \<Rightarrow> error_code \<Rightarrow> semaphore_spec \<Rightarrow> error_code call \<times> semaphore_spec" where
  "sspec_acquire multi ec s =
     (if avail s > 0 then (Returned ec, s\<lparr>avail := avail s - 1, sfresh := sfresh s + of_bool multi\<rparr>)
      else if \<not> multi then (Returned in_progress, s)
      else (Blocked (sfresh s),
        s\<lparr>squeue := squeue s @ [(sfresh s, Acquire_op \<lparr>op_ec = ec, op_done = False\<rparr>)], sfresh := Suc (sfresh s)\<rparr>))"

definition sspec_async_acquire :: "executor \<Rightarrow> handler \<Rightarrow> semaphore_spec \<Rightarrow> semaphore_spec \<times> event list" where
  "sspec_async_acquire ex h s =
     (if avail s > 0 then (s\<lparr>avail := avail s - 1\<rparr>, [Dispatch (get_associated_immediate_executor h ex) h success])
      else (s\<lparr>squeue := squeue s @ [(sfresh s, Basic_op \<lparr>work_guard = get_associated_executor h ex, op_handler = h\<rparr>)],
              sfresh := Suc (sfresh s)\<rparr>, []))"

definition sspec_release :: "semaphore_spec \<Rightarrow> semaphore_spec \<times> event list" where
  "sspec_release s = (case squeue s of
     [] \<Rightarrow> (s\<lparr>avail := avail s + 1\<rparr>, [])
   | (a, x) # q \<Rightarrow> (s\<lparr>squeue := q\<rparr>, signals success a x))"

text \<open>Nobody waits while there is a permit.\<close>

definition semaphore_rel :: "semaphore_impl \<Rightarrow> world \<Rightarrow> semaphore_spec \<Rightarrow> bool" where
  "semaphore_rel m w s \<longleftrightarrow> world_ok w \<and> pending w (sem_waiters m) (squeue s) \<and> idle (mtx m) \<and>
     sem_count m = avail s \<and> 0 \<le> avail s \<and> avail s < 2 ^ 31 \<and> brk w = sfresh s \<and>
     (squeue s \<noteq> [] \<longrightarrow> avail s = 0)"

definition same_semaphore :: "semaphore_impl \<Rightarrow> semaphore_impl \<Rightarrow> bool" where
  "same_semaphore m m' \<longleftrightarrow> m' = m\<lparr>sem_count := sem_count m'\<rparr>"


subsection \<open>Refinement\<close>

lemma semaphore_relD:
  assumes "semaphore_rel m w s"
  shows "world_ok w" "pending w (sem_waiters m) (squeue s)" "idle (mtx m)"
  using assms by (simp_all add: semaphore_rel_def)

lemma semaphore_try_acquire_refines:
  assumes "semaphore_rel m w s"
  shows "ok (semaphore_impl_try_acquire m w) (\<lambda>(b, m', w'). w' = w \<and> same_semaphore m m' \<and>
    b = fst (sspec_try_acquire s) \<and> semaphore_rel m' w' (snd (sspec_try_acquire s)))"
  unfolding semaphore_impl_try_acquire_def
  by (rule scoped_ok)
    (use assms in \<open>auto simp: semaphore_rel_def sspec_try_acquire_def same_semaphore_def checked_int_def\<close>)

lemma semaphore_release_refines:
  assumes "semaphore_rel m w s" "squeue s = [] \<longrightarrow> avail s + 1 < 2 ^ 31"
  shows "ok (semaphore_impl_release m w) (\<lambda>(u, m', w'). m' = m\<lparr>sem_count := avail (fst (sspec_release s))\<rparr> \<and>
    semaphore_rel m' w' (fst (sspec_release s)) \<and> trace w' = trace w @ snd (sspec_release s) \<and>
    ops w' = (case squeue s of [] \<Rightarrow> ops w | (a, x) # q \<Rightarrow> (ops w)(a := finished success x)) \<and>
    untouched (queue_nodes (sem_waiters m) (squeue s)) w w')"
proof (cases "squeue s")
  case Nil
  with assms pending_empty[of w "sem_waiters m"] show ?thesis
    unfolding semaphore_impl_release_def
    by (intro scoped_ok) (simp_all add: semaphore_rel_def sspec_release_def checked_int_def)
next
  case (Cons ax q)
  obtain a x where ax: "ax = (a, x)" by force
  have P: "world_ok w" "pending w (sem_waiters m) ([] @ (a, x) # q)"
    using assms Cons by (auto simp: semaphore_rel_def ax)
  have h: "get_next (sem_waiters m) (nodes w) = Some a" "a \<noteq> sem_waiters m"
    using pending_head[of w "sem_waiters m" a x q] P by auto
  from complete_pending[OF P] obtain w' where "op_complete success a w = Some w'" "world_ok w'"
    "pending w' (sem_waiters m) q" "trace w' = trace w @ signals success a x" "brk w' = brk w"
    "ops w' = (ops w)(a := finished success x)"
    "untouched (queue_nodes (sem_waiters m) ((a, x) # q)) w w'" by auto
  with h assms(1) Cons ax show ?thesis
    unfolding semaphore_impl_release_def
    by (intro scoped_ok)
      (auto simp: semaphore_rel_def sspec_release_def semaphore_decrement_def checked_int_def insert_commute)
qed

lemma semaphore_acquire_refines:
  assumes "semaphore_rel m w s"
  shows "ok (semaphore_impl_acquire m ec w) (\<lambda>(r, m', w'). same_semaphore m m' \<and>
    r = fst (sspec_acquire (enabled (mtx m)) ec s) \<and>
    semaphore_rel m' w' (snd (sspec_acquire (enabled (mtx m)) ec s)) \<and>
    trace w' = trace w \<and> slots w' = slots w \<and> untouched (queue_nodes (sem_waiters m) (squeue s)) w w')"
proof (cases "enabled (mtx m)")
  case False
  from semaphore_try_acquire_refines[OF assms] obtain b m' where t: "semaphore_impl_try_acquire m w = Some (b, m', w)"
    "same_semaphore m m'" "b = fst (sspec_try_acquire s)" "semaphore_rel m' w (snd (sspec_try_acquire s))"
    by (auto elim!: okE)
  with False assms show ?thesis
    by (auto simp: semaphore_impl_acquire_def sspec_acquire_def sspec_try_acquire_def)
next
  case True
  let ?x = "Acquire_op \<lparr>op_ec = ec, op_done = False\<rparr>"
  note P = semaphore_relD[OF assms]
  obtain a w1 where n: "new_op ?x w = (a, w1)" by force
  from join_sync[OF P(1,2) n unsettled(4)] obtain w2 where w2: "on_nodes (link_before a (sem_waiters m)) w1 = Some w2"
    "joined (sem_waiters m) (squeue s) ?x w w2" "a = brk w" .
  from join_leave[OF P(1) w2(2)] obtain w3 w4 where w4: "on_nodes (unlink (brk w)) w2 = Some w3"
    "destroy (brk w) w3 = Some w4" "world_ok w4" "pending w4 (sem_waiters m) (squeue s)" "ops w4 = ops w"
    "slots w4 = slots w" "trace w4 = trace w" "brk w4 = Suc (brk w)"
    "untouched (queue_nodes (sem_waiters m) (squeue s)) w w4" .
  show ?thesis
    unfolding semaphore_impl_acquire_def using True
    apply (simp add: n semaphore_add_waiter_def)
    apply (rule scoped_ok[OF P(3)])
    using n w2 w4 assms
    by (auto simp: semaphore_rel_def sspec_acquire_def same_semaphore_def joined_def semaphore_decrement_def checked_int_def)
qed

lemma semaphore_async_acquire_refines:
  assumes "semaphore_rel (bs_impl m) w s"
  shows "ok (basic_semaphore_async_acquire m h w) (\<lambda>(m', w'). bs_exec m' = bs_exec m \<and>
    same_semaphore (bs_impl m) (bs_impl m') \<and>
    semaphore_rel (bs_impl m') w' (fst (sspec_async_acquire (bs_exec m) h s)) \<and>
    trace w' = trace w @ snd (sspec_async_acquire (bs_exec m) h s) \<and>
    (avail s \<le> 0 \<longrightarrow> slots w' = slots (slot_assign (h_slot h) (brk w) w)) \<and>
    untouched (queue_nodes (sem_waiters (bs_impl m)) (squeue s)) w w')"
proof -
  let ?x = "Basic_op \<lparr>work_guard = get_associated_executor h (bs_exec m), op_handler = h\<rparr>"
  note P = semaphore_relD[OF assms]
  obtain a w1 where n: "new_op ?x w = (a, w1)" by force
  from join_async[OF P(1,2) n unsettled(1)] obtain w2 where
    w2: "on_nodes (link_before a (sem_waiters (bs_impl m))) (slot_assign (h_slot h) a w1) = Some w2" "world_ok w2"
      "pending w2 (sem_waiters (bs_impl m)) (squeue s @ [(brk w, ?x)])"
      "slots w2 = slots (slot_assign (h_slot h) (brk w) w)" "trace w2 = trace w" "brk w2 = Suc (brk w)"
      "untouched (queue_nodes (sem_waiters (bs_impl m)) (squeue s)) w w2" by auto
  show ?thesis
    unfolding basic_semaphore_async_acquire_def Let_def ok_bind
    by (rule scoped_ok[OF P(3)])
      (use n w2 assms in \<open>auto simp: semaphore_rel_def sspec_async_acquire_def same_semaphore_def semaphore_count_def
         semaphore_decrement_def checked_int_def basic_op_model_construct_def semaphore_add_waiter_def\<close>)
qed

lemma semaphore_cancel_ok:
  assumes "semaphore_rel m w s" "squeue s = ys @ (a, x) # zs" "type \<noteq> 0" "sl \<noteq> None"
  shows "ok (async_aquire_cancel m a sl type w) (\<lambda>(u, m', w'). m' = m \<and>
    semaphore_rel m w' (s\<lparr>squeue := ys @ zs\<rparr>) \<and> trace w' = trace w @ signals operation_aborted a x \<and>
    untouched (queue_nodes (sem_waiters m) (squeue s)) w w')"
proof -
  note P = semaphore_relD[OF assms(1), unfolded assms(2)]
  from complete_pending[OF P(1,2)] obtain w' where "op_complete operation_aborted a w = Some w'" "world_ok w'"
    "pending w' (sem_waiters m) (ys @ zs)" "trace w' = trace w @ signals operation_aborted a x" "brk w' = brk w"
    "untouched (queue_nodes (sem_waiters m) (squeue s)) w w'" using assms(2) by metis
  with assms P show ?thesis
    unfolding async_aquire_cancel_def
    by (auto simp: semaphore_rel_def intro!: scoped_ok[OF P(3)])
qed

lemma semaphore_value_ok:
  assumes "semaphore_rel m w s" "length (squeue s) < 2 ^ 31"
  shows "semaphore_impl_value m w = Some (avail s - int (length (squeue s)), m, w)"
proof -
  note P = semaphore_relD[OF assms(1)]
  have "node_size (sem_waiters m) (nodes w) = Some (of_nat (length (squeue s)))"
    using node_size_bilist[of "nodes w" "sem_waiters m" "map fst (squeue s)"] P(2) by (simp add: pending_def)
  moreover have "checked_int (avail s - int (length (squeue s))) = Some (avail s - int (length (squeue s)))"
    using assms by (auto simp: semaphore_rel_def checked_int_def)
  ultimately show ?thesis
    using assms P pending_next[OF P(2)] pending_empty_iff[OF P(2)] size_to_int_of_nat[OF assms(2)]
    by (auto simp: semaphore_impl_value_def scoped_def semaphore_count_def semaphore_rel_def)
qed

subsection \<open>Construction, shutdown, destruction, move\<close>

lemma semaphore_ctor_ok:
  assumes "world_ok w" "registered w svc ms" "0 \<le> c" "c < 2 ^ 31"
  shows "ok (basic_semaphore_ctor ex A ctx c hint svc w) (\<lambda>(m, svc', w'). bs_exec m = ex \<and> svc' = svc \<and>
    semaphore_rel (bs_impl m) w' \<lparr>avail = c, squeue = [], sfresh = brk w + 2\<rparr> \<and>
    enabled (mtx (bs_impl m)) = (\<not> is_single_threaded A ctx hint) \<and> sem_waiters (bs_impl m) = Suc (brk w) \<and>
    sm_node (bs_impl m) = brk w \<and> service (bs_impl m) = Some (entries svc) \<and> registered w' svc (ms @ [brk w]) \<and>
    ops w' = ops w \<and> slots w' = slots w \<and> trace w' = trace w \<and> untouched (set (entries svc # ms)) w w' \<and>
    spares (set (entries svc # ms)) w w' \<and> {brk w, Suc (brk w)} \<inter> dom (nodes w) = {})"
  by (rule member_ctor[OF assms(1,2), of A ctx hint])
    (use assms(3,4) in \<open>simp add: basic_semaphore_ctor_def semaphore_impl_ctor_def semaphore_rel_def
       service_member.defs semaphore_impl.defs\<close>)

lemma semaphore_shutdown_ok:
  assumes "semaphore_rel m w s"
  shows "ok (semaphore_impl_shutdown m w) (\<lambda>(m', w'). m' = m \<and>
    semaphore_rel m w' (s\<lparr>squeue := [], sfresh := sfresh s + 2\<rparr>) \<and>
    drained shutdown_signals shut_down (squeue s) (w\<lparr>brk := brk w + 2\<rparr>) w' \<and>
    untouched (queue_nodes (sem_waiters m) (squeue s)) w w')"
proof -
  note P = semaphore_relD[OF assms]
  from move_shutdown[OF P(1,2)] obtain l w1 w2 w3 where
    l: "holder_move_ctor (sem_waiters m) w = Some (l, w1)" "holder_shutdown l w1 = Some w2" "holder_dtor l w2 = Some w3"
    and w3: "world_ok w3" "pending w3 (sem_waiters m) []"
      "drained shutdown_signals shut_down (squeue s) (w\<lparr>brk := brk w + 2\<rparr>) w3"
      "untouched (queue_nodes (sem_waiters m) (squeue s)) w w3" .
  moreover have "brk w3 = brk w + 2" using drained_brk[OF w3(3)] by simp
  ultimately show ?thesis
    unfolding semaphore_impl_shutdown_def ok_bind
    by (intro scoped_ok[OF P(3)]) (use assms P in \<open>simp add: semaphore_rel_def\<close>)
qed

lemma semaphore_dtor_ok:
  assumes "semaphore_rel m w s" "registered w svc (ms @ sm_node m # ns)" "service m = Some (entries svc)"
    and "sem_waiters m \<notin> set (entries svc # ms @ sm_node m # ns)"
  shows "ok (semaphore_impl_dtor m svc w) (\<lambda>(svc', w'). svc' = svc \<and> world_ok w' \<and> registered w' svc (ms @ ns) \<and>
    nodes w' (sem_waiters m) = None \<and> nodes w' (sm_node m) = None \<and>
    drained (signals operation_aborted) operation_aborted (squeue s) w w' \<and>
    spares (insert (sem_waiters m) (set (entries svc # ms @ sm_node m # ns))) w w')"
  using member_dtor_ok[OF semaphore_relD[OF assms(1)] assms(2-4)] by (simp add: semaphore_impl_dtor_def)


text \<open>
  A move hands the waiters and the count to the new object; the source stays a working
  semaphore with no waiters, and with the same count, so its permits exist twice.
\<close>

lemma semaphore_move_ctor_ok:
  assumes "semaphore_rel (bs_impl m) w s" "registered w svc ms" "service (bs_impl m) = Some (entries svc)"
    and "sem_waiters (bs_impl m) \<notin> set (entries svc # ms)"
  shows "ok (basic_semaphore_move_ctor m svc w) (\<lambda>(t, m', svc', w'). svc' = svc \<and> m' = m \<and> bs_exec t = bs_exec m \<and>
    semaphore_rel (bs_impl t) w' (s\<lparr>sfresh := sfresh s + 2\<rparr>) \<and>
    semaphore_rel (bs_impl m') w' (s\<lparr>squeue := [], sfresh := sfresh s + 2\<rparr>) \<and>
    registered w' svc (ms @ [sm_node (bs_impl t)]) \<and> sem_waiters (bs_impl t) \<noteq> sem_waiters (bs_impl m) \<and>
    ops w' = ops w \<and> slots w' = slots w \<and> trace w' = trace w \<and> service (bs_impl t) = Some (entries svc) \<and>
    sm_node (bs_impl t) = brk w \<and> sem_waiters (bs_impl t) = Suc (brk w) \<and>
    spares (insert (sem_waiters (bs_impl m)) (set (entries svc # ms))) w w')"
  by (rule member_move_ctor[OF semaphore_relD(1,2)[OF assms(1)] assms(2-4)])
    (use assms(1) in \<open>simp add: basic_semaphore_move_ctor_def semaphore_impl_move_ctor_def semaphore_rel_def
       service_member.defs semaphore_impl.defs\<close>)

subsection \<open>All interleavings of calls on one semaphore\<close>

text \<open>
  The third component of a state counts permits: the initial count, plus one for every
  \<open>release\<close>, minus one for every request that was granted.  A request is cancelled under the internal mutex of the
  object \<open>i\<close> in which it was made, which a move may have left behind.  Moving a semaphore leaves two objects with as
  many permits each as it had.
\<close>

inductive semaphore_action :: "basic_semaphore \<times> world \<times> int \<Rightarrow> basic_semaphore \<times> world \<times> int \<Rightarrow> bool" where
  try_acquire: "basic_semaphore_try_acquire m w = Some (b, m', w') \<Longrightarrow>
    semaphore_action (m, w, g) (m', w', g - of_bool b)"
| acquire: "basic_semaphore_acquire m success w = Some (r, m', w') \<Longrightarrow>
    semaphore_action (m, w, g) (m', w', g - of_bool (r = Returned success))"
| async_acquire: "basic_semaphore_async_acquire m h w = Some (m', w') \<Longrightarrow>
    semaphore_action (m, w, g) (m', w', g - int (grants w w'))"
| release: "basic_semaphore_release m w = Some (m', w') \<Longrightarrow>
    semaphore_action (m, w, g) (m', w', g + 1 - int (grants w w'))"
| cancel: "pending w (sem_waiters (bs_impl m)) q \<Longrightarrow> (a, x) \<in> set q \<Longrightarrow> op_slot x = Some s \<Longrightarrow> slots w s = Some a \<Longrightarrow>
    async_aquire_cancel i a (Some s) type w = Some (u, i', w') \<Longrightarrow>
    semaphore_action (m, w, g) (m, w', g - int (grants w w'))"

inductive semaphore_step :: "basic_semaphore \<times> world \<times> int \<Rightarrow> basic_semaphore \<times> world \<times> int \<Rightarrow> bool" where
  call: "semaphore_action c c' \<Longrightarrow> semaphore_step c c'"
| other: "world_ok w' \<Longrightarrow> \<forall>q. pending w (sem_waiters (bs_impl m)) q \<longrightarrow> pending w' (sem_waiters (bs_impl m)) q \<Longrightarrow>
    semaphore_step (m, w, g) (m, w', g)"

inductive semaphore_reachable :: "basic_semaphore \<times> world \<times> int \<Rightarrow> bool" where
  init: "world_ok w \<Longrightarrow> registered w svc ms \<Longrightarrow> 0 \<le> c \<Longrightarrow> c < 2 ^ 31 \<Longrightarrow>
    basic_semaphore_ctor ex A ctx c hint svc w = Some (m, svc', w') \<Longrightarrow> semaphore_reachable (m, w', c)"
| step: "semaphore_reachable c \<Longrightarrow> semaphore_step c c' \<Longrightarrow> semaphore_reachable c'"
| move: "semaphore_reachable (m, w, g) \<Longrightarrow> registered w svc ms \<Longrightarrow> service (bs_impl m) = Some (entries svc) \<Longrightarrow>
    sem_waiters (bs_impl m) \<notin> set (entries svc # ms) \<Longrightarrow> basic_semaphore_move_ctor m svc w = Some (t, m', svc', w') \<Longrightarrow>
    c = (t, w', g) \<or> c = (m', w', g) \<Longrightarrow> semaphore_reachable c"

fun semaphore_inv :: "basic_semaphore \<times> world \<times> int \<Rightarrow> bool" where
  "semaphore_inv (m, w, g) \<longleftrightarrow> (\<exists>s. semaphore_rel (bs_impl m) w s \<and> g = avail s)"

lemma semaphore_invI: "semaphore_rel (bs_impl m) w s \<Longrightarrow> g = avail s \<Longrightarrow> semaphore_inv (m, w, g)"
  by auto

text \<open>A release that returned did not overflow.\<close>

lemma semaphore_release_range:
  assumes "semaphore_rel m w s" "semaphore_impl_release m w = Some (u, m', w')"
  shows "avail s + 1 < 2 ^ 31"
  using assms by (auto simp: semaphore_impl_release_def scoped_def semaphore_rel_def checked_int_def
      split: bind_splits if_splits)

text \<open>Every call preserves the invariant.\<close>

lemma semaphore_try_acquire_inv:
  assumes "basic_semaphore_try_acquire m w = Some (b, m', w')"
    and "semaphore_inv (m, w, g)"
  shows "semaphore_inv (m', w', g - of_bool b)"
proof -
  from assms obtain s where s: "semaphore_rel (bs_impl m) w s" "g = avail s" by auto
  from semaphore_try_acquire_refines[OF s(1)] assms(1)
  have "semaphore_rel (bs_impl m') w' (snd (sspec_try_acquire s))" "b = fst (sspec_try_acquire s)"
    by (auto simp: basic_semaphore_try_acquire_def elim!: okE)
  then show ?thesis by (elim semaphore_invI) (use s in \<open>auto simp: sspec_try_acquire_def\<close>)
qed

lemma semaphore_acquire_inv:
  assumes "basic_semaphore_acquire m success w = Some (r, m', w')"
    and "semaphore_inv (m, w, g)"
  shows "semaphore_inv (m', w', g - of_bool (r = Returned success))"
proof -
  from assms obtain s where s: "semaphore_rel (bs_impl m) w s" "g = avail s" by auto
  let ?L = "sspec_acquire (enabled (mtx (bs_impl m))) success s"
  from semaphore_acquire_refines[OF s(1), of success] assms(1)
  have "semaphore_rel (bs_impl m') w' (snd ?L)" "r = fst ?L"
    by (auto simp: basic_semaphore_acquire_def elim!: okE)
  then show ?thesis by (elim semaphore_invI) (use s in \<open>auto simp: sspec_acquire_def\<close>)
qed

lemma semaphore_async_acquire_inv:
  assumes "basic_semaphore_async_acquire m h w = Some (m', w')"
    and "semaphore_inv (m, w, g)"
  shows "semaphore_inv (m', w', g - int (grants w w'))"
proof -
  from assms obtain s where s: "semaphore_rel (bs_impl m) w s" "g = avail s" by auto
  let ?L = "sspec_async_acquire (bs_exec m) h s"
  from semaphore_async_acquire_refines[OF s(1), of h] assms(1)
  have "semaphore_rel (bs_impl m') w' (fst ?L)" "trace w' = trace w @ snd ?L" by (auto elim!: okE)
  then show ?thesis by (elim semaphore_invI) (use s in \<open>auto simp: sspec_async_acquire_def\<close>)
qed

lemma semaphore_release_inv:
  assumes "basic_semaphore_release m w = Some (m', w')"
    and "semaphore_inv (m, w, g)"
  shows "semaphore_inv (m', w', g + 1 - int (grants w w'))"
proof -
  from assms obtain s where s: "semaphore_rel (bs_impl m) w s" "g = avail s" by auto
  have r: "squeue s = [] \<longrightarrow> avail s + 1 < 2 ^ 31"
    using semaphore_release_range[OF s(1)] assms(1) by (auto simp: basic_semaphore_release_def split: bind_splits)
  from semaphore_release_refines[OF s(1) r] assms(1)
  have "semaphore_rel (bs_impl m') w' (fst (sspec_release s))" "trace w' = trace w @ snd (sspec_release s)"
    by (auto simp: basic_semaphore_release_def elim!: okE)
  then show ?thesis
    by (elim semaphore_invI) (use s in \<open>auto simp: sspec_release_def split: list.splits\<close>)
qed

lemma semaphore_cancel_elsewhere:
  "async_aquire_cancel i a (Some sl) type w = Some (u, i', w') \<Longrightarrow> idle (mtx m) \<Longrightarrow>
   async_aquire_cancel m a (Some sl) type w = Some ((), m, w')"
  unfolding async_aquire_cancel_def by (auto intro: scoped_elsewhere split: if_splits)

lemma semaphore_cancel_inv:
  assumes "pending w (sem_waiters (bs_impl m)) q" "(a, x) \<in> set q" "op_slot x = Some sl" "slots w sl = Some a"
    "async_aquire_cancel i a (Some sl) type w = Some (u, i', w')"
    and "semaphore_inv (m, w, g)"
  shows "semaphore_inv (m, w', g - int (grants w w'))"
proof -
  from assms obtain s where s: "semaphore_rel (bs_impl m) w s" "g = avail s" by auto
  then have "q = squeue s" using assms(1) by (auto simp: semaphore_rel_def intro: pending_unique)
  with assms(2) obtain ys zs where q: "squeue s = ys @ (a, x) # zs" by (metis split_list)
  have c: "async_aquire_cancel (bs_impl m) a (Some sl) type w = Some ((), bs_impl m, w')"
    by (rule semaphore_cancel_elsewhere[OF assms(5)]) (use s(1) in \<open>simp add: semaphore_rel_def\<close>)
  show ?thesis
  proof (cases "type = 0")
    case True
    with c s show ?thesis by (auto simp: async_aquire_cancel_def)
  next
    case False
    from semaphore_cancel_ok[OF s(1) q False, of "Some sl"] c
    have "semaphore_rel (bs_impl m) w' (s\<lparr>squeue := ys @ zs\<rparr>)" "trace w' = trace w @ signals operation_aborted a x"
      by (auto elim!: okE)
    with s(2) show ?thesis by (intro semaphore_invI[of _ _ "s\<lparr>squeue := ys @ zs\<rparr>"]) auto
  qed
qed

lemma semaphore_other_inv:
  assumes "world_ok w'"
    "\<forall>q. pending w (sem_waiters (bs_impl m)) q \<longrightarrow> pending w' (sem_waiters (bs_impl m)) q"
    and "semaphore_inv (m, w, g)"
  shows "semaphore_inv (m, w', g)"
proof -
  from assms obtain s where s: "semaphore_rel (bs_impl m) w s" "g = avail s" by auto
  with assms show ?thesis
    by (intro semaphore_invI[of _ _ "s\<lparr>sfresh := brk w'\<rparr>"]) (auto simp: semaphore_rel_def)
qed

lemmas semaphore_calls_inv =
  semaphore_try_acquire_inv semaphore_acquire_inv semaphore_async_acquire_inv
  semaphore_release_inv semaphore_cancel_inv

lemma semaphore_action_inv:
  assumes "semaphore_action c c'" "semaphore_inv c"
  shows "semaphore_inv c'"
  using assms by (induction rule: semaphore_action.induct) (blast intro: semaphore_calls_inv)+

lemma semaphore_step_inv:
  assumes "semaphore_step c c'" "semaphore_inv c"
  shows "semaphore_inv c'"
  using assms by (induction rule: semaphore_step.induct) (blast intro: semaphore_action_inv semaphore_other_inv)+

lemma semaphore_reachable_inv: "semaphore_reachable c \<Longrightarrow> semaphore_inv c"
proof (induction rule: semaphore_reachable.induct)
  case (init w svc ms c ex A ctx hint m svc' w')
  from semaphore_ctor_ok[OF init(1-4), of ex A ctx hint] init(5) show ?case by (fastforce elim!: okE)
next
  case (move m w g svc ms t m' svc' w' c)
  then obtain s where s: "semaphore_rel (bs_impl m) w s" "g = avail s" by auto
  from semaphore_move_ctor_ok[OF s(1) move(2-4)] move(5,6) s(2) show ?case by (fastforce elim!: okE)
qed (blast intro: semaphore_step_inv)

text \<open>Every call stays within the lists of the object and keeps its identity.\<close>

lemma semaphore_action_local:
  assumes "semaphore_action (m, w, g) (m', w', g')" "semaphore_inv (m, w, g)"
  shows "same_semaphore (bs_impl m) (bs_impl m') \<and> keeps {sem_waiters (bs_impl m)} w w'"
proof -
  from assms(2) obtain s where s: "semaphore_rel (bs_impl m) w s" by auto
  note W = semaphore_relD[OF s] and k = keeps_queue[OF semaphore_relD(1) semaphore_relD(2)[OF s]]
  show ?thesis using assms(1)
  proof (cases rule: semaphore_action.cases)
    case (try_acquire b)
    with semaphore_try_acquire_refines[OF s] W show ?thesis
      by (auto simp: basic_semaphore_try_acquire_def elim!: okE)
  next
    case (acquire r)
    with semaphore_acquire_refines[OF s, of success] k show ?thesis
      by (auto simp: basic_semaphore_acquire_def elim!: okE)
  next
    case (async_acquire h)
    with semaphore_async_acquire_refines[OF s, of h] k show ?thesis by (auto elim!: okE)
  next
    case release
    then have "avail s + 1 < 2 ^ 31"
      using semaphore_release_range[OF s] by (auto simp: basic_semaphore_release_def split: bind_splits)
    with release semaphore_release_refines[OF s] k show ?thesis
      by (auto simp: basic_semaphore_release_def same_semaphore_def elim!: okE)
  next
    case (cancel q a x sl i type u i')
    have "q = squeue s" using cancel(3) W(2) by (rule pending_unique)
    with cancel(4) obtain ys zs where q: "squeue s = ys @ (a, x) # zs" by (metis split_list)
    have "idle (mtx (bs_impl m))" using s by (simp add: semaphore_rel_def)
    from semaphore_cancel_elsewhere[OF cancel(7) this] cancel(1,2) semaphore_cancel_ok[OF s q, of type "Some sl"] k W show ?thesis
      by (cases "type = 0") (auto simp: async_aquire_cancel_def same_semaphore_def elim!: okE)
  qed
qed

subsection \<open>Sequences of calls\<close>

datatype semaphore_call =
    Call_try_acquire
  | Call_acquire error_code
  | Call_async_acquire handler
  | Call_release
  | Call_value

fun semaphore_exec :: "semaphore_call \<Rightarrow> basic_semaphore \<Rightarrow> world \<Rightarrow> (call_result \<times> basic_semaphore \<times> world) option" where
  "semaphore_exec Call_try_acquire m w = do { (b, m, w) \<leftarrow> basic_semaphore_try_acquire m w; Some (Bool_result b, m, w) }"
| "semaphore_exec (Call_acquire ec) m w = do { (r, m, w) \<leftarrow> basic_semaphore_acquire m ec w; Some (Code_result r, m, w) }"
| "semaphore_exec (Call_async_acquire h) m w = do { (m, w) \<leftarrow> basic_semaphore_async_acquire m h w; Some (No_result, m, w) }"
| "semaphore_exec Call_release m w = do { (m, w) \<leftarrow> basic_semaphore_release m w; Some (No_result, m, w) }"
| "semaphore_exec Call_value m w = do { (v, m, w) \<leftarrow> basic_semaphore_value m w; Some (Int_result v, m, w) }"

fun sspec_exec :: "bool \<Rightarrow> executor \<Rightarrow> semaphore_call \<Rightarrow> semaphore_spec \<Rightarrow> call_result \<times> semaphore_spec \<times> event list" where
  "sspec_exec multi ex Call_try_acquire s = (let (b, s) = sspec_try_acquire s in (Bool_result b, s, []))"
| "sspec_exec multi ex (Call_acquire ec) s = (let (r, s) = sspec_acquire multi ec s in (Code_result r, s, []))"
| "sspec_exec multi ex (Call_async_acquire h) s = (No_result, sspec_async_acquire ex h s)"
| "sspec_exec multi ex Call_release s = (No_result, sspec_release s)"
| "sspec_exec multi ex Call_value s = (Int_result (avail s - int (length (squeue s))), s, [])"

text \<open>The count must not leave the range of \<open>int\<close>, and \<open>value\<close> must be able to represent the number of waiters.\<close>

fun semaphore_legal :: "semaphore_call \<Rightarrow> semaphore_spec \<Rightarrow> bool" where
  "semaphore_legal Call_release s \<longleftrightarrow> squeue s \<noteq> [] \<or> avail s + 1 < 2 ^ 31"
| "semaphore_legal Call_value s \<longleftrightarrow> length (squeue s) < 2 ^ 31"
| "semaphore_legal _ s \<longleftrightarrow> True"

abbreviation "semaphore_run \<equiv> run_calls semaphore_exec"

abbreviation "sspec_run multi ex \<equiv> run_spec (sspec_exec multi ex)"

lemma same_semaphore_mtx: "same_semaphore m m' \<Longrightarrow> mtx m' = mtx m"
  unfolding same_semaphore_def by (drule arg_cong[where f = mtx]) simp

lemma semaphore_exec_refines:
  assumes "semaphore_rel (bs_impl m) w s" "semaphore_legal c s"
  shows "ok (semaphore_exec c m w) (\<lambda>(r, m', w'). case sspec_exec (enabled (mtx (bs_impl m))) (bs_exec m) c s of
    (r', s', es) \<Rightarrow> r = r' \<and> semaphore_rel (bs_impl m') w' s' \<and> trace w' = trace w @ es \<and>
      mtx (bs_impl m') = mtx (bs_impl m) \<and> bs_exec m' = bs_exec m)"
proof (cases c)
  case Call_try_acquire
  with semaphore_try_acquire_refines[OF assms(1)] show ?thesis
    by (auto simp: basic_semaphore_try_acquire_def same_semaphore_mtx elim!: okE split: prod.splits)
next
  case (Call_acquire ec)
  with semaphore_acquire_refines[OF assms(1), of ec] show ?thesis
    by (auto simp: basic_semaphore_acquire_def same_semaphore_mtx elim!: okE split: prod.splits)
next
  case (Call_async_acquire h)
  with semaphore_async_acquire_refines[OF assms(1), of h] show ?thesis
    by (auto simp: same_semaphore_mtx elim!: okE split: prod.splits)
next
  case Call_release
  with semaphore_release_refines[OF assms(1)] assms(2) show ?thesis
    by (auto simp: basic_semaphore_release_def elim!: okE split: prod.splits)
next
  case Call_value
  with semaphore_value_ok[OF assms(1)] assms show ?thesis by (simp add: basic_semaphore_value_def)
qed

interpretation semaphore_calls: refined_calls semaphore_exec sspec_exec semaphore_legal
    "\<lambda>m. semaphore_rel (bs_impl m)" "\<lambda>m. enabled (mtx (bs_impl m))" bs_exec
proof (unfold_locales, goal_cases)
  case (1 m w s c)
  from semaphore_exec_refines[OF 1] show ?case by (auto elim!: ok_conseq split: prod.splits)
qed

subsection \<open>The semaphore as a source of permits\<close>

definition semaphore_permits :: "basic_semaphore \<Rightarrow> world \<Rightarrow> nat \<Rightarrow> handler multiset \<Rightarrow> bool" where
  "semaphore_permits m w k Q \<longleftrightarrow>
     (\<exists>s. semaphore_rel (bs_impl m) w s \<and> avail s = int k \<and> Q = awaiting (squeue s) \<and> all_async (squeue s))"

lemma semaphore_permitsI:
  "semaphore_rel (bs_impl m) w s \<Longrightarrow> avail s = int k \<Longrightarrow> Q = awaiting (squeue s) \<Longrightarrow> all_async (squeue s) \<Longrightarrow>
    semaphore_permits m w k Q"
  unfolding semaphore_permits_def by blast

definition semaphore_cancels :: "basic_semaphore \<Rightarrow> world \<Rightarrow> basic_semaphore \<Rightarrow> world \<Rightarrow> bool" where
  "semaphore_cancels m w m' w' \<longleftrightarrow> (\<exists>q a x s type u i. pending w (sem_waiters (bs_impl m)) q \<and> (a, x) \<in> set q \<and>
     op_slot x = Some s \<and> slots w s = Some a \<and>
     async_aquire_cancel (bs_impl m) a (Some s) type w = Some (u, i, w') \<and> m' = m\<lparr>bs_impl := i\<rparr>)"

lemma semaphore_cancels_ok:
  assumes "semaphore_permits m w k Q" "semaphore_cancels m w m' w'"
  shows "grants w w' = 0 \<and> (\<exists>Q'. semaphore_permits m' w' k Q' \<and> Q' + addressees (new_events w w') = Q \<and>
    all_calls (new_events w w') \<and> (m' = m \<and> w' = w \<or> size Q' < size Q))"
proof -
  from assms(1) obtain s where s: "semaphore_rel (bs_impl m) w s" "avail s = int k" "Q = awaiting (squeue s)" "all_async (squeue s)"
    by (auto simp: semaphore_permits_def)
  from assms(2) obtain q a x sl type u i where c: "pending w (sem_waiters (bs_impl m)) q" "(a, x) \<in> set q" "op_slot x = Some sl"
    "async_aquire_cancel (bs_impl m) a (Some sl) type w = Some (u, i, w')" "m' = m\<lparr>bs_impl := i\<rparr>"
    unfolding semaphore_cancels_def by blast
  have "q = squeue s" using s(1) c(1) by (auto simp: semaphore_rel_def intro: pending_unique)
  with c(2) obtain ys zs where q: "squeue s = ys @ (a, x) # zs" by (metis split_list)
  show ?thesis
  proof (cases "type = 0")
    case True
    with c(4,5) assms(1) show ?thesis by (auto simp: async_aquire_cancel_def grants_def new_events_def)
  next
    case False
    from semaphore_cancel_ok[OF s(1) q False, of "Some sl"] c(4,5) have r:
      "semaphore_rel (bs_impl m') w' (s\<lparr>squeue := ys @ zs\<rparr>)" "trace w' = trace w @ signals operation_aborted a x"
      by (auto elim!: okE)
    have "semaphore_permits m' w' k (awaiting (ys @ zs))" by (rule semaphore_permitsI[OF r(1)]) (use s(2,4) q in simp_all)
    with r(2) s(3) q slot_handler[OF c(3)] show ?thesis by (intro conjI exI[of _ "awaiting (ys @ zs)"]) simp_all
  qed
qed

interpretation semaphore_source: permit_source basic_semaphore_try_acquire basic_semaphore_async_acquire
  basic_semaphore_release semaphore_cancels semaphore_permits "2 ^ 31 - 1"
proof (unfold_locales, goal_cases)
  case (1 p w k Q)
  then show ?case by (auto simp: semaphore_permits_def semaphore_rel_def)
next
  case (2 p w k Q)
  then obtain s where s: "semaphore_rel (bs_impl p) w s" "avail s = int k" "Q = awaiting (squeue s)" "all_async (squeue s)"
    by (auto simp: semaphore_permits_def)
  show ?case
    using semaphore_try_acquire_refines[OF s(1)] s(2-4)
    by (fastforce simp: basic_semaphore_try_acquire_def sspec_try_acquire_def semaphore_permits_def elim!: okE split: if_splits)
next
  case (3 p w k Q h)
  then obtain s where s: "semaphore_rel (bs_impl p) w s" "avail s = int k" "Q = awaiting (squeue s)" "all_async (squeue s)"
    by (auto simp: semaphore_permits_def)
  let ?L = "sspec_async_acquire (bs_exec p) h s"
  from semaphore_async_acquire_refines[OF s(1), of h] obtain p' w' where
    a: "basic_semaphore_async_acquire p h w = Some (p', w')" "semaphore_rel (bs_impl p') w' (fst ?L)"
      "trace w' = trace w @ snd ?L" by (auto elim!: okE)
  have "grants w w' \<le> k" "avail (fst ?L) = int (k - grants w w')"
    "awaiting (squeue (fst ?L)) + addressees (new_events w w') = add_mset h Q"
    "all_async (squeue (fst ?L))" "all_calls (new_events w w')"
    using a(3) s(2-4) by (auto simp: sspec_async_acquire_def)
  with semaphore_permitsI[OF a(2) _ refl, of "k - grants w w'"] a(1) show ?case by auto
next
  case (4 p w k Q)
  then obtain s where s: "semaphore_rel (bs_impl p) w s" "avail s = int k" "avail s + 1 < 2 ^ 31" "Q = awaiting (squeue s)" "all_async (squeue s)"
    by (auto simp: semaphore_permits_def)
  from semaphore_release_refines[OF s(1)] s(3) obtain i w' where u: "semaphore_impl_release (bs_impl p) w = Some ((), i, w')"
    "semaphore_rel (bs_impl (p\<lparr>bs_impl := i\<rparr>)) w' (fst (sspec_release s))" "trace w' = trace w @ snd (sspec_release s)"
    by (auto elim!: okE)
  have "grants w w' \<le> k + 1" "avail (fst (sspec_release s)) = int (k + 1 - grants w w')"
    "awaiting (squeue (fst (sspec_release s))) + addressees (new_events w w') = Q"
    "all_async (squeue (fst (sspec_release s)))" "all_calls (new_events w w')"
    using u(3) s(2,4,5) by (auto simp: sspec_release_def ac_simps split: list.splits)
  with semaphore_permitsI[OF u(2) _ refl, of "k + 1 - grants w w'"] u(1) show ?case
    by (auto simp: basic_semaphore_release_def)
next
  case (5 p w k Q p' w')
  then show ?case by (rule semaphore_cancels_ok)
qed

subsection \<open>The semaphore among other primitives\<close>

text \<open>A semaphore with its ledger of permits.\<close>

type_synonym stocked = "basic_semaphore \<times> int"

fun semaphore_history :: "stocked \<Rightarrow> world \<Rightarrow> bool" where
  "semaphore_history (m, g) w = semaphore_reachable (m, w, g)"

fun semaphore_acts :: "stocked \<times> world \<Rightarrow> stocked \<times> world \<Rightarrow> bool" where
  "semaphore_acts ((m, g), w) ((m', g'), w') = semaphore_action (m, w, g) (m', w', g')"

fun semaphore_roots :: "stocked \<Rightarrow> addr list" where
  "semaphore_roots (m, g) = [sem_waiters (bs_impl m)]"

fun semaphore_base :: "stocked \<Rightarrow> service_member" where
  "semaphore_base (m, g) = service_member.truncate (bs_impl m)"

fun semaphore_new :: "op_list_service \<times> world \<Rightarrow> stocked \<times> op_list_service \<times> world \<Rightarrow> bool" where
  "semaphore_new (svc, w) ((m, g), svc', w') \<longleftrightarrow> 0 \<le> g \<and> g < 2 ^ 31 \<and>
     (\<exists>ex A ctx hint. basic_semaphore_ctor ex A ctx g hint svc w = Some (m, svc', w'))"

fun semaphore_delete :: "stocked \<Rightarrow> op_list_service \<Rightarrow> world \<Rightarrow> (op_list_service \<times> world) option" where
  "semaphore_delete (m, g) svc w = semaphore_impl_dtor (bs_impl m) svc w"

lemma same_semaphoreD:
  assumes "same_semaphore m m'"
  shows "sem_waiters m' = sem_waiters m" "service_member.truncate m' = service_member.truncate m"
  using assms[unfolded same_semaphore_def, THEN arg_cong, of sem_waiters]
    assms[unfolded same_semaphore_def, THEN arg_cong, of service_member.truncate]
  by (simp_all add: service_member.defs)

fun semaphore_move :: "stocked \<Rightarrow> op_list_service \<Rightarrow> world \<Rightarrow> (stocked \<times> stocked \<times> op_list_service \<times> world) option" where
  "semaphore_move (m, g) svc w = do {
     (t, m, svc, w) \<leftarrow> basic_semaphore_move_ctor m svc w;
     Some ((t, g), (m, g), svc, w) }"

interpretation semaphore_shared: shared_primitive semaphore_history semaphore_acts semaphore_roots semaphore_base
  semaphore_new semaphore_delete semaphore_move
proof (unfold_locales, goal_cases)
  case (1 p w r)
  then show ?case by (cases p) (auto dest!: semaphore_reachable_inv, metis semaphore_relD(2))
next
  case (2 p w p' w')
  obtain m g m' g' where p: "p = (m, g)" "p' = (m', g')" by force
  with 2 have a: "semaphore_reachable (m, w, g)" "semaphore_action (m, w, g) (m', w', g')" by simp_all
  with semaphore_action_local[OF a(2) semaphore_reachable_inv[OF a(1)]] p show ?case
    by (auto simp: same_semaphoreD intro: semaphore_reachable.step semaphore_step.call)
next
  case (3 p w w')
  then show ?case by (cases p) (auto intro: semaphore_reachable.step semaphore_step.other)
next
  case (4 w svc ms p svc' w')
  obtain m g where p: "p = (m, g)" by force
  with 4 obtain ex A ctx hint where c: "basic_semaphore_ctor ex A ctx g hint svc w = Some (m, svc', w')"
    "0 \<le> g" "g < 2 ^ 31" by auto
  have "semaphore_reachable (m, w', g)" by (rule semaphore_reachable.init[OF 4(1,2) c(2,3,1)])
  with semaphore_ctor_ok[OF 4(1,2) c(2,3), of ex A ctx hint] c(1) p show ?case
    by (auto simp: service_member.defs semaphore_rel_def)
next
  case (5 p w svc ms ns)
  obtain m g where p: "p = (m, g)" by force
  with 5(1) obtain s where s: "semaphore_rel (bs_impl m) w s" by (auto dest!: semaphore_reachable_inv)
  have "registered w svc (ms @ sm_node (bs_impl m) # ns)" "service (bs_impl m) = Some (entries svc)"
    "sem_waiters (bs_impl m) \<notin> set (entries svc # ms @ sm_node (bs_impl m) # ns)"
    using 5 p by (auto simp: service_member.defs)
  from semaphore_dtor_ok[OF s this] p show ?case by (auto simp: service_member.defs insert_commute elim!: ok_conseq)
next
  case (6 p w svc ms)
  obtain m g where p: "p = (m, g)" by force
  with 6(1) obtain s where s: "semaphore_rel (bs_impl m) w s" by (auto dest!: semaphore_reachable_inv)
  have r: "semaphore_reachable (m, w, g)" "service (bs_impl m) = Some (entries svc)"
    "sem_waiters (bs_impl m) \<notin> set (entries svc # ms)"
    using 6 p by (auto simp: service_member.defs)
  note reach = semaphore_reachable.move[OF r(1) 6(2) r(2,3)]
  from semaphore_move_ctor_ok[OF s 6(2) r(2,3)] obtain t w' where
    "basic_semaphore_move_ctor m svc w = Some (t, m, svc, w')" "semaphore_rel (bs_impl t) w' (s\<lparr>sfresh := sfresh s + 2\<rparr>)"
    "semaphore_rel (bs_impl m) w' (s\<lparr>squeue := [], sfresh := sfresh s + 2\<rparr>)"
    "registered w' svc (ms @ [sm_node (bs_impl t)])" "trace w' = trace w" "service (bs_impl t) = Some (entries svc)"
    "sm_node (bs_impl t) = brk w" "sem_waiters (bs_impl t) = Suc (brk w)"
    "spares (insert (sem_waiters (bs_impl m)) (set (entries svc # ms))) w w'"
    by (auto elim!: okE)
  moreover have "brk w \<notin> dom (nodes w)" "Suc (brk w) \<notin> dom (nodes w)"
    using world_ok_fresh[OF semaphore_relD(1)[OF s]] by simp_all
  ultimately show ?case using p s reach
    by (auto simp: service_member.defs insert_commute semaphore_rel_def intro: carriedI)
next
  case (7 p w)
  then show ?case by (cases p) (auto simp: service_member.defs semaphore_rel_def dest!: semaphore_reachable_inv)
qed

end
