(* ===== verification/Semaphore_Props.thy ===== *)
theory Semaphore_Props
  imports Semaphore_Impl
begin

section \<open>Properties of the semaphore\<close>

text \<open>
  What callers of the semaphore rely on, stated over every reachable state, each with an example
  that applies it to a concrete history.
\<close>

subsection \<open>A semaphore to start from\<close>

text \<open>One permit; then the permit is taken; then two asynchronous requests wait.\<close>

definition some_semaphore :: "int \<Rightarrow> basic_semaphore" where
  "some_semaphore c = \<lparr>bs_exec = 7, bs_impl =
     \<lparr>sm_node = 1, service = Some 0, mtx = cem_ctor True, sem_count = c, sem_waiters = 2\<rparr>\<rparr>"

definition semaphore_world :: world where
  "semaphore_world = \<lparr>nodes = [0 \<mapsto> \<lparr>next_node = 1, prev_node = 1\<rparr>, 1 \<mapsto> \<lparr>next_node = 0, prev_node = 0\<rparr>,
                               2 \<mapsto> \<lparr>next_node = 2, prev_node = 2\<rparr>],
     ops = Map.empty, slots = Map.empty, trace = [], brk = 3\<rparr>"

definition queued_world :: world where
  "queued_world = \<lparr>nodes = [0 \<mapsto> \<lparr>next_node = 1, prev_node = 1\<rparr>, 1 \<mapsto> \<lparr>next_node = 0, prev_node = 0\<rparr>,
       2 \<mapsto> \<lparr>next_node = 3, prev_node = 4\<rparr>, 3 \<mapsto> \<lparr>next_node = 4, prev_node = 2\<rparr>,
       4 \<mapsto> \<lparr>next_node = 2, prev_node = 3\<rparr>],
     ops = [3 \<mapsto> Basic_op \<lparr>work_guard = 7, op_handler = some_handler 1\<rparr>,
            4 \<mapsto> Basic_op \<lparr>work_guard = 7, op_handler = some_handler 2\<rparr>],
     slots = [1 \<mapsto> 3, 2 \<mapsto> 4], trace = [], brk = 5\<rparr>"

lemmas semaphore_eval [sam_eval] = semaphore_impl.defs some_semaphore_def semaphore_world_def semaphore_add_waiter_def
  semaphore_count_def semaphore_decrement_def checked_int_def basic_semaphore_ctor_def semaphore_impl_ctor_def
  basic_semaphore_try_acquire_def basic_semaphore_acquire_def basic_semaphore_async_acquire_def
  basic_semaphore_release_def semaphore_impl_try_acquire_def semaphore_impl_acquire_def semaphore_impl_release_def

lemma some_semaphore_ctor:
  "basic_semaphore_ctor 7 some_hints some_ctx c (-1) start_service start_world =
     Some (some_semaphore c, start_service, semaphore_world)"
  by (simp add: sam_eval fun_upd_twist numeral_eq_Suc)

lemma taken_semaphore_reachable: "semaphore_reachable (some_semaphore 0, semaphore_world, 0)"
proof -
  have "semaphore_reachable (some_semaphore 1, semaphore_world, 1)"
    by (rule semaphore_reachable.init[OF start_ok _ _ some_semaphore_ctor]) simp_all
  moreover have "basic_semaphore_try_acquire (some_semaphore 1) semaphore_world =
      Some (True, some_semaphore 0, semaphore_world)" by (simp add: sam_eval)
  ultimately show ?thesis
    using semaphore_reachable.step[OF _ semaphore_step.call[OF semaphore_action.try_acquire]] by fastforce
qed

lemma queued_semaphore_reachable: "semaphore_reachable (some_semaphore 0, queued_world, 0)"
proof -
  let ?w = "\<lparr>nodes = [0 \<mapsto> \<lparr>next_node = 1, prev_node = 1\<rparr>, 1 \<mapsto> \<lparr>next_node = 0, prev_node = 0\<rparr>,
       2 \<mapsto> \<lparr>next_node = 3, prev_node = 3\<rparr>, 3 \<mapsto> \<lparr>next_node = 2, prev_node = 2\<rparr>],
     ops = [3 \<mapsto> Basic_op \<lparr>work_guard = 7, op_handler = some_handler 1\<rparr>],
     slots = [1 \<mapsto> 3], trace = [], brk = 4\<rparr>"
  have 1: "basic_semaphore_async_acquire (some_semaphore 0) (some_handler 1) semaphore_world = Some (some_semaphore 0, ?w)"
    by (simp add: sam_eval fun_upd_twist)
  have 2: "basic_semaphore_async_acquire (some_semaphore 0) (some_handler 2) ?w = Some (some_semaphore 0, queued_world)"
    by (simp add: sam_eval queued_world_def fun_upd_twist)
  have g: "grants semaphore_world ?w = 0" "grants ?w queued_world = 0"
    by (simp_all add: grants_def semaphore_world_def queued_world_def)
  from semaphore_reachable.step[OF taken_semaphore_reachable semaphore_step.call[OF semaphore_action.async_acquire[OF 1, of 0]]] g(1)
  have "semaphore_reachable (some_semaphore 0, ?w, 0)" by simp
  from semaphore_reachable.step[OF this semaphore_step.call[OF semaphore_action.async_acquire[OF 2, of 0]]] g(2) show ?thesis by simp
qed

lemma queued_pending: "pending queued_world (sem_waiters (bs_impl (some_semaphore 0)))
    [(3, Basic_op \<lparr>work_guard = 7, op_handler = some_handler 1\<rparr>),
     (4, Basic_op \<lparr>work_guard = 7, op_handler = some_handler 2\<rparr>)]"
  by (simp add: pending_def is_bilist_def link_def queued_world_def some_semaphore_def heap_access)

subsection \<open>Properties\<close>

text \<open>
  C13: Permits are conserved.  After any interleaving of calls on a semaphore constructed with a
  non-negative count, \<open>count_\<close> is the initial count plus the releases minus the grants; it is
  never negative, so no more requests are granted than there are permits; and no permit is
  kept back while a request waits.
\<close>

theorem semaphore_permits_conserved:
  assumes "semaphore_reachable (m, w, g)"
  shows "sem_count (bs_impl m) = g \<and> 0 \<le> g \<and> g < 2 ^ 31 \<and>
    (\<exists>q. pending w (sem_waiters (bs_impl m)) q \<and> (q = [] \<or> g = 0))"
  using semaphore_reachable_inv[OF assms] by (auto simp: semaphore_rel_def)

theorem semaphore_permits_conserved_witness:
  "semaphore_reachable (some_semaphore 0, queued_world, 0) \<and> sem_count (bs_impl (some_semaphore 0)) = 0"
  using semaphore_permits_conserved[OF queued_semaphore_reachable] queued_semaphore_reachable by simp

text \<open>
  FIFO.  While requests wait, \<open>release\<close> passes the permit to the least recent one: exactly that
  operation is completed, without an error, and the count stays zero.
\<close>

theorem semaphore_release_fifo:
  assumes "semaphore_reachable (m, w, g)" "pending w (sem_waiters (bs_impl m)) ((a, x) # q)"
  shows "ok (basic_semaphore_release m w) (\<lambda>(m', w'). m' = m \<and> sem_count (bs_impl m') = 0 \<and>
    pending w' (sem_waiters (bs_impl m')) q \<and> trace w' = trace w @ signals success a x \<and>
    ops w' = (ops w)(a := finished success x))"
proof -
  from semaphore_reachable_inv[OF assms(1)] obtain s where s: "semaphore_rel (bs_impl m) w s" by auto
  have q: "squeue s = (a, x) # q" using s assms(2) by (auto simp: semaphore_rel_def intro: pending_unique)
  with semaphore_release_refines[OF s] s show ?thesis
    by (auto simp: basic_semaphore_release_def sspec_release_def semaphore_rel_def elim!: okE)
qed

theorem semaphore_release_fifo_witness:
  "ok (basic_semaphore_release (some_semaphore 0) queued_world) (\<lambda>(m', w').
     pending w' 2 [(4, Basic_op \<lparr>work_guard = 7, op_handler = some_handler 2\<rparr>)] \<and>
     trace w' = [Post 7 (some_handler 1) success])"
  using semaphore_release_fifo[OF queued_semaphore_reachable queued_pending]
  by (auto simp: some_semaphore_def queued_world_def elim!: ok_conseq)

text \<open>
  \<open>value\<close> reports the free permits, or minus the number of waiting requests, and changes
  nothing, as long as fewer than \<open>2^31\<close> requests wait.
\<close>

theorem semaphore_value_counts:
  assumes "semaphore_reachable (m, w, g)" "pending w (sem_waiters (bs_impl m)) q" "length q < 2 ^ 31"
  shows "basic_semaphore_value m w = Some (g - int (length q), m, w)"
proof -
  from semaphore_reachable_inv[OF assms(1)] obtain s where s: "semaphore_rel (bs_impl m) w s" "g = avail s" by auto
  have "squeue s = q" using s assms(2) by (auto simp: semaphore_rel_def intro: pending_unique)
  with semaphore_value_ok[OF s(1)] s(2) assms(3) show ?thesis by (simp add: basic_semaphore_value_def)
qed

theorem semaphore_value_counts_witness:
  "basic_semaphore_value (some_semaphore 0) queued_world = Some (- 2, some_semaphore 0, queued_world)"
  using semaphore_value_counts[OF queued_semaphore_reachable queued_pending] by simp

text \<open>
  C8: Refinement.  Construct a semaphore and make any sequence of \<open>try_acquire\<close>, \<open>acquire\<close>, \<open>async_acquire\<close>,
  \<open>release\<close> and \<open>value\<close> calls in which the count stays within \<open>int\<close>: every call returns, with the result, the
  completions and the queue that the abstract semaphore (a number of permits and a queue of requests) has for the
  same sequence.
\<close>

theorem semaphore_run_refines:
  assumes "world_ok w" "registered w svc ms" "0 \<le> c" "c < 2 ^ 31"
    and "legal_run (sspec_exec (\<not> is_single_threaded A ctx hint) ex) semaphore_legal cs
      \<lparr>avail = c, squeue = [], sfresh = brk w + 2\<rparr>"
  shows "ok (do { (m, svc', w1) \<leftarrow> basic_semaphore_ctor ex A ctx c hint svc w; semaphore_run cs m w1 })
    (\<lambda>(rs, m', w'). case sspec_run (\<not> is_single_threaded A ctx hint) ex cs
        \<lparr>avail = c, squeue = [], sfresh = brk w + 2\<rparr> of
      (rs', s', es) \<Rightarrow> rs = rs' \<and> trace w' = trace w @ es \<and> sem_count (bs_impl m') = avail s' \<and>
        pending w' (sem_waiters (bs_impl m')) (squeue s'))"
proof -
  from semaphore_ctor_ok[OF assms(1-4), of ex A ctx hint] obtain m w1 where
    c: "basic_semaphore_ctor ex A ctx c hint svc w = Some (m, svc, w1)" "bs_exec m = ex"
      "semaphore_rel (bs_impl m) w1 \<lparr>avail = c, squeue = [], sfresh = brk w + 2\<rparr>"
      "enabled (mtx (bs_impl m)) = (\<not> is_single_threaded A ctx hint)" "trace w1 = trace w"
    by (auto elim!: okE)
  show ?thesis
    using semaphore_calls.run_refines[OF c(3), of cs] assms(5) c(1,2,4,5)
    by (auto simp: semaphore_rel_def elim!: ok_conseq split: prod.splits)
qed

abbreviation permit_calls :: "semaphore_call list" where
  "permit_calls \<equiv> [Call_acquire success, Call_async_acquire (some_handler 1), Call_value, Call_release, Call_release, Call_value]"

theorem semaphore_run_refines_witness:
  "ok (do { (m, svc', w1) \<leftarrow> basic_semaphore_ctor 7 some_hints some_ctx 1 (-1) start_service start_world;
            semaphore_run permit_calls m w1 })
    (\<lambda>(rs, m', w'). rs = [Code_result (Returned success), No_result, Int_result (-1), No_result, No_result, Int_result 1] \<and>
       trace w' = [Post 7 (some_handler 1) success] \<and> pending w' (sem_waiters (bs_impl m')) [])"
proof -
  have e: "is_single_threaded some_hints some_ctx (-1) = False" "trace start_world = []"
    by (simp_all add: sam_eval)
  note d = sspec_acquire_def sspec_async_acquire_def sspec_release_def some_handler_def get_associated_executor_def
  let ?s = "\<lparr>avail = 1, squeue = [], sfresh = brk start_world + 2\<rparr>"
  have l: "legal_run (sspec_exec (\<not> is_single_threaded some_hints some_ctx (-1)) 7) semaphore_legal permit_calls ?s"
    by (simp add: e d)
  show ?thesis
    by (rule ok_conseq[OF semaphore_run_refines[OF start_ok _ _ l]]) (auto simp: e d)
qed

text \<open>
  C31: Overflow.  With nobody waiting, \<open>release\<close> adds a permit; it is undefined exactly when the
  count already has the largest value of an \<open>int\<close>.
\<close>

theorem semaphore_release_range_exact:
  assumes "semaphore_reachable (m, w, g)" "pending w (sem_waiters (bs_impl m)) []"
  shows "(basic_semaphore_release m w = None \<longleftrightarrow> g = 2 ^ 31 - 1) \<and>
    (g < 2 ^ 31 - 1 \<longrightarrow> basic_semaphore_release m w = Some (m\<lparr>bs_impl := (bs_impl m)\<lparr>sem_count := g + 1\<rparr>\<rparr>, w))"
proof -
  from semaphore_reachable_inv[OF assms(1)] obtain s where s: "semaphore_rel (bs_impl m) w s" "g = avail s" by auto
  with pending_empty[OF assms(2)] show ?thesis
    by (auto simp: basic_semaphore_release_def semaphore_impl_release_def scoped_def semaphore_rel_def checked_int_def)
qed

theorem semaphore_release_range_exact_witness:
  "basic_semaphore_release (some_semaphore 0) semaphore_world = Some (some_semaphore 1, semaphore_world)"
proof -
  have "pending semaphore_world (sem_waiters (bs_impl (some_semaphore 0))) []"
    by (simp add: pending_def is_bilist_def link_def semaphore_world_def some_semaphore_def heap_access)
  from semaphore_release_range_exact[OF taken_semaphore_reachable this] show ?thesis
    by (simp add: some_semaphore_def)
qed

end
