(* ===== verification/Guarded.thy ===== *)
theory Guarded
  imports Mutex_Props Semaphore_Props
begin

section \<open>Guarded operations\<close>

text \<open>
  Models \<open>guarded.hpp\<close> and \<open>detail/guarded.hpp\<close>: an asynchronous operation that runs only while a permit
  of a semaphore, or a mutex, is held.  \<open>guard_by_semaphore_op\<close> and \<open>guard_by_mutex_op\<close> are the same three
  call operators over different members, so they are instances of three definitions.

  \<open>net::async_compose\<close>, the executors and the guarded operation itself are not part of the library.
  They appear as: the composed operation is known by its \<open>handler\<close>; starting the guarded operation puts it
  on the list \<open>running\<close>; an operation whose \<open>try_acquire\<close> has failed and which has not called \<open>async_acquire\<close> yet is on the
  list \<open>asking\<close>; what the semaphore hands to an executor is on the list \<open>posted\<close> until
  the executor runs it; \<open>self.complete\<close> appends to \<open>completed\<close>.
\<close>

subsection \<open>The call operators\<close>

text \<open>
  The first argument of the completion is an \<open>error_code\<close> or an \<open>exception_ptr\<close>; \<open>make_error\<close> builds the one
  that the signature of the operation asks for, by overloading on a null pointer to it.
\<close>

datatype err_type = Err_error_code | Err_exception_ptr

datatype op_error = Error_code error_code | Exception_ptr error_code

fun make_error_impl :: "error_code \<Rightarrow> err_type \<Rightarrow> op_error" where
  "make_error_impl ec Err_error_code = Error_code ec"
| "make_error_impl ec Err_exception_ptr = Exception_ptr ec"

definition make_error :: "err_type \<Rightarrow> error_code \<Rightarrow> op_error" where
  "make_error Err ec = make_error_impl ec Err"

record ('p, 'r) guard_state =
  prim :: 'p
  gworld :: world
  asking :: "handler list"
  running :: "handler list"
  posted :: "event list"
  completed :: "(handler \<times> (op_error + 'r)) list"

definition start_op :: "handler \<Rightarrow> ('p, 'r) guard_state \<Rightarrow> ('p, 'r) guard_state" where
  "start_op self st = st\<lparr>running := running st @ [self]\<rparr>"

definition complete_op :: "handler \<Rightarrow> op_error + 'r \<Rightarrow> ('p, 'r) guard_state \<Rightarrow> ('p, 'r) guard_state" where
  "complete_op self r st = st\<lparr>completed := completed st @ [(self, r)]\<rparr>"

text \<open>
  \<open>operator()(self)\<close>; \<open>cancelled\<close> is the state of the composed operation's cancellation, 0 is \<open>none\<close>.  \<open>try_acquire\<close> and
  \<open>async_acquire\<close> are two critical sections, between which others may use the primitive: the first part, which says
  whether the call is over, and the second.
\<close>

definition guard_try ::
  "('p \<Rightarrow> world \<Rightarrow> (bool \<times> 'p \<times> world) option) \<Rightarrow> err_type \<Rightarrow> nat \<Rightarrow> handler \<Rightarrow> ('p, 'r) guard_state \<Rightarrow>
   (bool \<times> ('p, 'r) guard_state) option" where
  "guard_try try_acquire Err cancelled self st =
     (if cancelled \<noteq> 0 then Some (True, complete_op self (Inl (make_error Err operation_aborted)) st)
      else do {
        (b, p, w) \<leftarrow> try_acquire (prim st) (gworld st);
        let st = st\<lparr>prim := p, gworld := w\<rparr>;
        if b then Some (True, start_op self st) else Some (False, st) })"

definition guard_ask ::
  "('p \<Rightarrow> handler \<Rightarrow> world \<Rightarrow> ('p \<times> world) option) \<Rightarrow> handler \<Rightarrow> ('p, 'r) guard_state \<Rightarrow> ('p, 'r) guard_state option" where
  "guard_ask async_acquire self st = do {
     (p, w) \<leftarrow> async_acquire (prim st) self (gworld st);
     Some (st\<lparr>prim := p, gworld := w, posted := posted st @ new_events (gworld st) w\<rparr>) }"

definition guard_init ::
  "('p \<Rightarrow> world \<Rightarrow> (bool \<times> 'p \<times> world) option) \<Rightarrow> ('p \<Rightarrow> handler \<Rightarrow> world \<Rightarrow> ('p \<times> world) option) \<Rightarrow>
   err_type \<Rightarrow> nat \<Rightarrow> handler \<Rightarrow> ('p, 'r) guard_state \<Rightarrow> ('p, 'r) guard_state option" where
  "guard_init try_acquire async_acquire Err cancelled self st = do {
     (b, st) \<leftarrow> guard_try try_acquire Err cancelled self st;
     if b then Some st else guard_ask async_acquire self st }"

text \<open>\<open>operator()(self, semaphore_tag, ec)\<close>.\<close>

definition guard_obtained ::
  "err_type \<Rightarrow> handler \<Rightarrow> error_code \<Rightarrow> ('p, 'r) guard_state \<Rightarrow> ('p, 'r) guard_state" where
  "guard_obtained Err self ec st =
     (if failed ec then complete_op self (Inl (make_error Err ec)) st else start_op self st)"

text \<open>\<open>operator()(self, op_tag, args...)\<close>: the guarded operation has completed with \<open>args\<close>.\<close>

definition guard_finished ::
  "('p \<Rightarrow> world \<Rightarrow> ('p \<times> world) option) \<Rightarrow> handler \<Rightarrow> 'r \<Rightarrow> ('p, 'r) guard_state \<Rightarrow> ('p, 'r) guard_state option" where
  "guard_finished release self args st = do {
     (p, w) \<leftarrow> release (prim st) (gworld st);
     Some (complete_op self (Inr args)
       (st\<lparr>prim := p, gworld := w, posted := posted st @ new_events (gworld st) w, running := remove1 self (running st)\<rparr>)) }"

definition guard_by_semaphore_init ::
  "err_type \<Rightarrow> nat \<Rightarrow> handler \<Rightarrow> (basic_semaphore, 'r) guard_state \<Rightarrow> (basic_semaphore, 'r) guard_state option" where
  "guard_by_semaphore_init = guard_init basic_semaphore_try_acquire basic_semaphore_async_acquire"

definition guard_by_semaphore_obtained ::
  "err_type \<Rightarrow> handler \<Rightarrow> error_code \<Rightarrow> (basic_semaphore, 'r) guard_state \<Rightarrow> (basic_semaphore, 'r) guard_state" where
  "guard_by_semaphore_obtained = guard_obtained"

definition guard_by_semaphore_finished ::
  "handler \<Rightarrow> 'r \<Rightarrow> (basic_semaphore, 'r) guard_state \<Rightarrow> (basic_semaphore, 'r) guard_state option" where
  "guard_by_semaphore_finished = guard_finished basic_semaphore_release"

definition guard_by_mutex_init ::
  "err_type \<Rightarrow> nat \<Rightarrow> handler \<Rightarrow> (basic_mutex, 'r) guard_state \<Rightarrow> (basic_mutex, 'r) guard_state option" where
  "guard_by_mutex_init = guard_init basic_mutex_try_lock basic_mutex_async_lock"

definition guard_by_mutex_obtained ::
  "err_type \<Rightarrow> handler \<Rightarrow> error_code \<Rightarrow> (basic_mutex, 'r) guard_state \<Rightarrow> (basic_mutex, 'r) guard_state" where
  "guard_by_mutex_obtained = guard_obtained"

definition guard_by_mutex_finished ::
  "handler \<Rightarrow> 'r \<Rightarrow> (basic_mutex, 'r) guard_state \<Rightarrow> (basic_mutex, 'r) guard_state option" where
  "guard_by_mutex_finished = guard_finished basic_mutex_unlock"

text \<open>
  \<open>guarded(sm, op, token)\<close> composes the three call operators; \<open>async_compose\<close> is asio's, a parameter, and gets the
  executor of the primitive as its I/O object.
\<close>

type_synonym ('p, 'r) guard_operators =
  "(nat \<Rightarrow> handler \<Rightarrow> ('p, 'r) guard_state \<Rightarrow> ('p, 'r) guard_state option) \<times>
   (handler \<Rightarrow> error_code \<Rightarrow> ('p, 'r) guard_state \<Rightarrow> ('p, 'r) guard_state) \<times>
   (handler \<Rightarrow> 'r \<Rightarrow> ('p, 'r) guard_state \<Rightarrow> ('p, 'r) guard_state option)"

definition guarded_semaphore ::
  "((basic_semaphore, 'r) guard_operators \<Rightarrow> 'token \<Rightarrow> executor \<Rightarrow> 'x) \<Rightarrow> err_type \<Rightarrow>
   basic_semaphore \<Rightarrow> 'token \<Rightarrow> 'x" where
  "guarded_semaphore async_compose Err sm completion_token =
     async_compose (guard_by_semaphore_init Err, guard_by_semaphore_obtained Err, guard_by_semaphore_finished)
       completion_token (basic_semaphore_get_executor sm)"

definition guarded_mutex ::
  "((basic_mutex, 'r) guard_operators \<Rightarrow> 'token \<Rightarrow> executor \<Rightarrow> 'x) \<Rightarrow> err_type \<Rightarrow>
   basic_mutex \<Rightarrow> 'token \<Rightarrow> 'x" where
  "guarded_mutex async_compose Err mx completion_token =
     async_compose (guard_by_mutex_init Err, guard_by_mutex_obtained Err, guard_by_mutex_finished)
       completion_token (basic_mutex_get_executor mx)"

subsection \<open>Histories\<close>

text \<open>
  The steps of all composed operations over one primitive: a call of \<open>guarded\<close>, as a whole or only as far as the end of its
  \<open>try_acquire\<close>, and what happens later: such a call goes on, an executor runs a posted completion, a guarded operation that
  is running completes, or a request that waits in the primitive is cancelled, which \<open>env\<close> describes.
\<close>

inductive guard_later ::
  "('p \<Rightarrow> handler \<Rightarrow> world \<Rightarrow> ('p \<times> world) option) \<Rightarrow> ('p \<Rightarrow> world \<Rightarrow> ('p \<times> world) option) \<Rightarrow>
   ('p \<Rightarrow> world \<Rightarrow> 'p \<Rightarrow> world \<Rightarrow> bool) \<Rightarrow> ('p, 'r) guard_state \<Rightarrow> ('p, 'r) guard_state \<Rightarrow> bool"
  for async_acquire release env where
  asked: "self \<in> set (asking st) \<Longrightarrow> guard_ask async_acquire self (st\<lparr>asking := remove1 self (asking st)\<rparr>) = Some st' \<Longrightarrow>
    guard_later async_acquire release env st st'"
| obtained: "e \<in> set (posted st) \<Longrightarrow> completion_of e = Some (self, ec) \<Longrightarrow>
    guard_later async_acquire release env st (guard_obtained Err self ec (st\<lparr>posted := remove1 e (posted st)\<rparr>))"
| finished: "self \<in> set (running st) \<Longrightarrow> guard_finished release self args st = Some st' \<Longrightarrow>
    guard_later async_acquire release env st st'"
| cancel: "env (prim st) (gworld st) p w \<Longrightarrow>
    guard_later async_acquire release env st
      (st\<lparr>prim := p, gworld := w, posted := posted st @ new_events (gworld st) w\<rparr>)"

inductive guard_start_step ::
  "('p \<Rightarrow> world \<Rightarrow> (bool \<times> 'p \<times> world) option) \<Rightarrow> ('p \<Rightarrow> handler \<Rightarrow> world \<Rightarrow> ('p \<times> world) option) \<Rightarrow>
   handler \<Rightarrow> ('p, 'r) guard_state \<Rightarrow> ('p, 'r) guard_state \<Rightarrow> bool"
  for try_acquire async_acquire self where
  whole: "guard_init try_acquire async_acquire Err cancelled self st = Some st' \<Longrightarrow>
    guard_start_step try_acquire async_acquire self st st'"
| over: "guard_try try_acquire Err cancelled self st = Some (True, st') \<Longrightarrow>
    guard_start_step try_acquire async_acquire self st st'"
| part: "guard_try try_acquire Err cancelled self st = Some (False, st') \<Longrightarrow>
    guard_start_step try_acquire async_acquire self st (st'\<lparr>asking := asking st' @ [self]\<rparr>)"

inductive guard_step ::
  "('p \<Rightarrow> world \<Rightarrow> (bool \<times> 'p \<times> world) option) \<Rightarrow> ('p \<Rightarrow> handler \<Rightarrow> world \<Rightarrow> ('p \<times> world) option) \<Rightarrow>
   ('p \<Rightarrow> world \<Rightarrow> ('p \<times> world) option) \<Rightarrow> ('p \<Rightarrow> world \<Rightarrow> 'p \<Rightarrow> world \<Rightarrow> bool) \<Rightarrow>
   ('p, 'r) guard_state \<Rightarrow> ('p, 'r) guard_state \<Rightarrow> bool"
  for try_acquire async_acquire release env where
  init: "guard_start_step try_acquire async_acquire self st st' \<Longrightarrow>
    guard_step try_acquire async_acquire release env st st'"
| later: "guard_later async_acquire release env st st' \<Longrightarrow>
    guard_step try_acquire async_acquire release env st st'"

text \<open>A history with the operations that were started in it.\<close>

inductive guard_history ::
  "('p \<Rightarrow> world \<Rightarrow> (bool \<times> 'p \<times> world) option) \<Rightarrow> ('p \<Rightarrow> handler \<Rightarrow> world \<Rightarrow> ('p \<times> world) option) \<Rightarrow>
   ('p \<Rightarrow> world \<Rightarrow> ('p \<times> world) option) \<Rightarrow> ('p \<Rightarrow> world \<Rightarrow> 'p \<Rightarrow> world \<Rightarrow> bool) \<Rightarrow>
   ('p, 'r) guard_state \<Rightarrow> ('p, 'r) guard_state \<Rightarrow> handler list \<Rightarrow> bool"
  for try_acquire async_acquire release env st0 where
  start: "guard_history try_acquire async_acquire release env st0 st0 []"
| init: "guard_history try_acquire async_acquire release env st0 st hs \<Longrightarrow>
    guard_start_step try_acquire async_acquire self st st' \<Longrightarrow>
    guard_history try_acquire async_acquire release env st0 st' (hs @ [self])"
| later: "guard_history try_acquire async_acquire release env st0 st hs \<Longrightarrow>
    guard_later async_acquire release env st st' \<Longrightarrow>
    guard_history try_acquire async_acquire release env st0 st' hs"

definition guard_start :: "'p \<Rightarrow> world \<Rightarrow> ('p, 'r) guard_state" where
  "guard_start p w = \<lparr>prim = p, gworld = w, asking = [], running = [], posted = [], completed = []\<rparr>"

lemma guard_steps_history:
  assumes "(guard_step try_acquire async_acquire release env)\<^sup>*\<^sup>* st0 st"
  shows "\<exists>hs. guard_history try_acquire async_acquire release env st0 st hs"
  using assms
proof (induction rule: rtranclp_induct)
  case (step st st')
  then show ?case by (auto elim!: guard_step.cases intro: guard_history.intros)
qed (blast intro: guard_history.start)

definition granted_posts :: "('p, 'r) guard_state \<Rightarrow> nat" where
  "granted_posts st = length (filter granted_event (posted st))"

lemma granted_remove1:
  assumes "e \<in> set es"
  shows "length (filter granted_event es) = length (filter granted_event (remove1 e es)) + of_bool (granted_event e)"
  using assms by (induction es) auto

text \<open>
  Where the operations are, when those of \<open>Q\<close> wait in the primitive, and how many steps they still have to make at most: a
  waiting one has to be granted its permit, to be told so and to complete; one that is asking has to start waiting first.
\<close>

definition placed :: "handler multiset \<Rightarrow> ('p, 'r) guard_state \<Rightarrow> handler multiset" where
  "placed Q st = Q + mset (asking st) + addressees (posted st) + mset (running st) + mset (map fst (completed st))"

definition guard_work :: "handler multiset \<Rightarrow> ('p, 'r) guard_state \<Rightarrow> nat" where
  "guard_work Q st = 4 * length (asking st) + 3 * size Q + 2 * size (addressees (posted st)) + length (running st)"

subsection \<open>What the interface gives a guarded operation\<close>

context permit_source
begin

definition guard_ok :: "nat \<Rightarrow> handler multiset \<Rightarrow> ('p, 'r) guard_state \<Rightarrow> bool" where
  "guard_ok tot Q st \<longleftrightarrow> all_calls (posted st) \<and>
     (\<exists>k. inv (prim st) (gworld st) k Q \<and> k + granted_posts st + length (running st) = tot)"

lemma guard_okI:
  "inv (prim st) (gworld st) k Q \<Longrightarrow> k + granted_posts st + length (running st) = tot \<Longrightarrow> all_calls (posted st) \<Longrightarrow>
    guard_ok tot Q st"
  unfolding guard_ok_def by blast

lemma guard_try_ok:
  assumes "guard_ok tot Q st"
  shows "ok (guard_try try_acquire Err c self st) (\<lambda>(b, st'). guard_ok tot Q st' \<and>
    placed Q st' = (if b then add_mset self (placed Q st) else placed Q st))"
proof (cases "c = 0")
  case False
  with assms show ?thesis
    by (auto simp: guard_try_def complete_op_def guard_ok_def granted_posts_def placed_def)
next
  case True
  from assms obtain k where k: "inv (prim st) (gworld st) k Q" "k + granted_posts st + length (running st) = tot"
    "all_calls (posted st)" by (auto simp: guard_ok_def)
  from try_ok[OF k(1)] obtain b p w where t: "try_acquire (prim st) (gworld st) = Some (b, p, w)"
    "if b then k > 0 \<and> inv p w (k - 1) Q else inv p w k Q" by (auto elim!: okE)
  show ?thesis
  proof (cases b)
    case True
    have "k - 1 + granted_posts st + Suc (length (running st)) = tot" using t(2) True k(2) by auto
    then have "guard_ok tot Q (start_op self (st\<lparr>prim := p, gworld := w\<rparr>))"
      using t(2) True k(3) by (intro guard_okI[of _ "k - 1"]) (simp_all add: start_op_def granted_posts_def)
    then show ?thesis using t(1) True \<open>c = 0\<close> by (simp add: guard_try_def start_op_def placed_def)
  next
    case False
    then have "guard_ok tot Q (st\<lparr>prim := p, gworld := w\<rparr>)"
      using t(2) k(2,3) by (intro guard_okI[of _ k]) (simp_all add: granted_posts_def)
    then show ?thesis using t(1) False \<open>c = 0\<close> by (simp add: guard_try_def placed_def)
  qed
qed

lemma guard_ask_ok:
  assumes "guard_ok tot Q st"
  shows "ok (guard_ask async_acquire self st) (\<lambda>st'. \<exists>Q'. guard_ok tot Q' st' \<and>
    placed Q' st' = add_mset self (placed Q st) \<and> asking st' = asking st \<and> guard_work Q' st' \<le> guard_work Q st + 3)"
proof -
  from assms obtain k where k: "inv (prim st) (gworld st) k Q" "k + granted_posts st + length (running st) = tot"
    "all_calls (posted st)" by (auto simp: guard_ok_def)
  from async_ok[OF k(1), of self] obtain p w Q' where
    a: "async_acquire (prim st) self (gworld st) = Some (p, w)" "grants (gworld st) w \<le> k" "inv p w (k - grants (gworld st) w) Q'"
      "Q' + addressees (new_events (gworld st) w) = add_mset self Q" "all_calls (new_events (gworld st) w)" by (auto elim!: okE)
  let ?st = "st\<lparr>prim := p, gworld := w, posted := posted st @ new_events (gworld st) w\<rparr>"
  have "guard_ok tot Q' ?st"
    using a(2,3,5) k(2,3)
    by (intro guard_okI[of _ "k - grants (gworld st) w"]) (simp_all add: granted_posts_def granted_new_events)
  moreover have "placed Q' ?st = add_mset self (placed Q st)"
    using a(4) by (simp add: placed_def ac_simps flip: add_mset_add_single union_mset_add_mset_left)
  moreover have "guard_work Q' ?st \<le> guard_work Q st + 3"
    using arg_cong[OF a(4), of size] by (simp add: guard_work_def)
  ultimately show ?thesis using a(1) by (auto simp: guard_ask_def)
qed

lemma guard_init_ok:
  assumes "guard_ok tot Q st"
  shows "ok (guard_init try_acquire async_acquire Err c self st)
    (\<lambda>st'. \<exists>Q'. guard_ok tot Q' st' \<and> placed Q' st' = add_mset self (placed Q st))"
proof -
  from guard_try_ok[OF assms, of Err c self] obtain b st1 where t: "guard_try try_acquire Err c self st = Some (b, st1)"
    "guard_ok tot Q st1" "placed Q st1 = (if b then add_mset self (placed Q st) else placed Q st)" by (auto elim!: okE)
  show ?thesis
    using t guard_ask_ok[OF t(2), of self] by (cases b) (auto simp: guard_init_def elim!: ok_conseq)
qed

text \<open>An operation that has been started, in whatever way, has its place.\<close>

lemma guard_start_ok:
  assumes "guard_start_step try_acquire async_acquire self st st'" "guard_ok tot Q st"
  shows "\<exists>Q'. guard_ok tot Q' st' \<and> placed Q' st' = add_mset self (placed Q st)"
  using assms(1)
proof cases
  case (whole Err c)
  with guard_init_ok[OF assms(2), of Err c self] show ?thesis by (auto elim!: okE)
next
  case (over Err c)
  with guard_try_ok[OF assms(2), of Err c self] show ?thesis by (auto elim!: okE)
next
  case (part Err c st1)
  with guard_try_ok[OF assms(2), of Err c self] have "guard_ok tot Q st1" "placed Q st1 = placed Q st"
    by (auto elim!: okE)
  then have "guard_ok tot Q st'" "placed Q st' = add_mset self (placed Q st)"
    by (simp_all add: part(1) guard_ok_def granted_posts_def placed_def)
  then show ?thesis by blast
qed

lemma guard_asked_ok:
  assumes "guard_ok tot Q st" "self \<in> set (asking st)"
  shows "ok (guard_ask async_acquire self (st\<lparr>asking := remove1 self (asking st)\<rparr>))
    (\<lambda>st'. \<exists>Q'. guard_ok tot Q' st' \<and> placed Q' st' = placed Q st \<and> guard_work Q' st' < guard_work Q st)"
proof -
  let ?st = "st\<lparr>asking := remove1 self (asking st)\<rparr>"
  have "length (asking st) = Suc (length (remove1 self (asking st)))"
    "mset (asking st) = add_mset self (mset (remove1 self (asking st)))"
    using assms(2) length_pos_if_in_set[OF assms(2)] by (auto simp: length_remove1)
  then have p: "placed Q st = add_mset self (placed Q ?st)" "guard_work Q st = guard_work Q ?st + 4"
    by (simp_all add: placed_def guard_work_def)
  have "guard_ok tot Q ?st" using assms(1) by (simp add: guard_ok_def granted_posts_def)
  from guard_ask_ok[OF this, of self] show ?thesis by (rule ok_conseq) (fastforce simp: p)
qed

lemma guard_obtained_ok:
  assumes "guard_ok tot Q st" "e \<in> set (posted st)" "completion_of e = Some (self, ec)"
  shows "let st' = guard_obtained Err self ec (st\<lparr>posted := remove1 e (posted st)\<rparr>) in
    guard_ok tot Q st' \<and> placed Q st' = placed Q st \<and> guard_work Q st' < guard_work Q st"
proof -
  have "granted_event e = (\<not> failed ec)" using assms(3) by (cases e) auto
  with assms(1) granted_remove1[OF assms(2)] all_calls_remove1[of "posted st" e] addressees_remove1[OF assms(2,3)] show ?thesis
    by (auto simp: guard_ok_def guard_obtained_def complete_op_def start_op_def granted_posts_def placed_def guard_work_def)
qed

lemma guard_finished_ok:
  assumes "guard_ok tot Q st" "self \<in> set (running st)" "tot \<le> cap"
  shows "ok (guard_finished release self args st)
    (\<lambda>st'. \<exists>Q'. guard_ok tot Q' st' \<and> placed Q' st' = placed Q st \<and> guard_work Q' st' < guard_work Q st)"
proof -
  from assms(1) obtain k where k: "inv (prim st) (gworld st) k Q" "k + granted_posts st + length (running st) = tot"
    "all_calls (posted st)" by (auto simp: guard_ok_def)
  have r: "length (running st) = Suc (length (remove1 self (running st)))"
    "mset (running st) = add_mset self (mset (remove1 self (running st)))"
    using assms(2) length_pos_if_in_set[OF assms(2)] by (auto simp: length_remove1)
  have "k < cap" using k(2) r(1) assms(3) by linarith
  from release_ok[OF k(1) this] obtain p w Q' where p: "release (prim st) (gworld st) = Some (p, w)"
    "grants (gworld st) w \<le> k + 1" "inv p w (k + 1 - grants (gworld st) w) Q'"
    "Q' + addressees (new_events (gworld st) w) = Q" "all_calls (new_events (gworld st) w)" by (auto elim!: okE)
  let ?st = "st\<lparr>prim := p, gworld := w, posted := posted st @ new_events (gworld st) w, running := remove1 self (running st),
    completed := completed st @ [(self, Inr args)]\<rparr>"
  have "guard_ok tot Q' ?st"
    using p(2,3,5) k(2,3) r(1)
    by (intro guard_okI[of _ "k + 1 - grants (gworld st) w"]) (simp_all add: granted_posts_def granted_new_events)
  moreover have "placed Q' ?st = placed Q st" using r(2) by (simp add: placed_def ac_simps flip: p(4))
  moreover have "guard_work Q' ?st < guard_work Q st" using r(1) by (simp add: guard_work_def flip: p(4))
  ultimately show ?thesis using p(1) by (auto simp: guard_finished_def complete_op_def)
qed

text \<open>Later steps keep every operation in its place or bring it forward.\<close>

lemma guard_later_ok:
  assumes "guard_later async_acquire release env st st'" "guard_ok tot Q st" "tot \<le> cap"
  shows "\<exists>Q'. guard_ok tot Q' st' \<and> placed Q' st' = placed Q st \<and> (st' = st \<or> guard_work Q' st' < guard_work Q st)"
  using assms(1)
proof cases
  case (asked self)
  with guard_asked_ok[OF assms(2) asked(1)] show ?thesis by (auto elim!: okE)
next
  case (obtained e self ec Err)
  with guard_obtained_ok[OF assms(2) obtained(2,3), of Err] show ?thesis by (auto simp: Let_def)
next
  case (finished self args)
  with guard_finished_ok[OF assms(2) finished(1) assms(3), of args] show ?thesis by (auto elim!: okE)
next
  case (cancel p w)
  from assms(2) obtain k where k: "inv (prim st) (gworld st) k Q" "k + granted_posts st + length (running st) = tot"
    "all_calls (posted st)" by (auto simp: guard_ok_def)
  from env_ok[OF k(1) cancel(2)] obtain Q' where e: "grants (gworld st) w = 0" "inv p w k Q'"
    "Q' + addressees (new_events (gworld st) w) = Q" "p = prim st \<and> w = gworld st \<or> size Q' < size Q" "all_calls (new_events (gworld st) w)" by blast
  have "guard_ok tot Q' st'"
    using e(1,2,5) k(2,3) by (intro guard_okI[of _ k]) (simp_all add: cancel(1) granted_posts_def granted_new_events)
  moreover have "placed Q' st' = placed Q st" by (simp add: cancel(1) placed_def ac_simps flip: e(3))
  moreover have "st' = st \<or> guard_work Q' st' < guard_work Q st"
  proof (rule disjE[OF e(4)])
    assume "p = prim st \<and> w = gworld st"
    then show ?thesis by (simp add: cancel(1) new_events_def)
  next
    assume "size Q' < size Q"
    then show ?thesis by (simp add: cancel(1) guard_work_def flip: e(3))
  qed
  ultimately show ?thesis by blast
qed

lemma guard_history_ok:
  assumes "guard_history try_acquire async_acquire release env (guard_start p w) st hs" "inv p w tot {#}" "tot \<le> cap"
  shows "\<exists>Q. guard_ok tot Q st \<and> placed Q st = mset hs"
  using assms(1)
proof (induction rule: guard_history.induct)
  case start
  show ?case using assms(2) by (auto simp: guard_ok_def guard_start_def granted_posts_def placed_def intro!: exI[of _ "{#}"])
next
  case (init st hs self st')
  from init(3) obtain Q where "guard_ok tot Q st" "placed Q st = mset hs" by blast
  with guard_start_ok[OF init(2) this(1)] show ?case by auto
next
  case (later st hs st')
  from later(3) obtain Q where "guard_ok tot Q st" "placed Q st = mset hs" by blast
  with guard_later_ok[OF later(2) this(1) assms(3)] show ?case by auto
qed

lemma guard_steps_ok:
  assumes "(guard_step try_acquire async_acquire release env)\<^sup>*\<^sup>* (guard_start p w) st" "inv p w tot {#}" "tot \<le> cap"
  obtains Q where "guard_ok tot Q st"
  using guard_steps_history[OF assms(1)] guard_history_ok[OF _ assms(2,3)] by blast

text \<open>Never more guarded operations at a time than permits, and no permit is lost.\<close>

lemma guarded_limit:
  assumes "(guard_step try_acquire async_acquire release env)\<^sup>*\<^sup>* (guard_start p w) st" "inv p w tot {#}" "tot \<le> cap"
  shows "length (running st) \<le> tot"
  by (rule guard_steps_ok[OF assms]) (auto simp: guard_ok_def)

lemma guarded_permits_return:
  assumes "(guard_step try_acquire async_acquire release env)\<^sup>*\<^sup>* (guard_start p w) st" "inv p w tot {#}" "tot \<le> cap"
    and "running st = []" "\<forall>e \<in> set (posted st). \<not> granted_event e"
  shows "\<exists>Q. inv (prim st) (gworld st) tot Q"
proof -
  from assms(1-3) obtain Q where "guard_ok tot Q st" by (rule guard_steps_ok)
  moreover have "granted_posts st = 0" using assms(5) by (simp add: granted_posts_def)
  ultimately show ?thesis using assms(4) by (auto simp: guard_ok_def)
qed

lemma guarded_progress:
  assumes "(guard_step try_acquire async_acquire release env)\<^sup>*\<^sup>* (guard_start p w) st" "inv p w tot {#}" "tot \<le> cap"
  shows "guard_init try_acquire async_acquire Err c self st \<noteq> None"
    "self \<in> set (running st) \<Longrightarrow> guard_finished release self args st \<noteq> None"
proof -
  from assms obtain Q where Q: "guard_ok tot Q st" by (rule guard_steps_ok)
  show "guard_init try_acquire async_acquire Err c self st \<noteq> None"
    using guard_init_ok[OF Q, of Err c self] by (auto simp: ok_def)
  show "guard_finished release self args st \<noteq> None" if "self \<in> set (running st)"
    using guard_finished_ok[OF Q that assms(3), of args] by (auto simp: ok_def)
qed

text \<open>When nothing is under way every operation has completed, and until then one of them can go on.\<close>

lemma guard_quiet:
  assumes "guard_ok tot Q st" "running st = []" "posted st = []" "0 < tot"
  shows "inv (prim st) (gworld st) tot {#}" "Q = {#}"
proof -
  have k: "inv (prim st) (gworld st) tot Q" using assms(1-3) by (auto simp: guard_ok_def granted_posts_def)
  with wait_ok[OF this] assms(4) show "Q = {#}" by blast
  with k show "inv (prim st) (gworld st) tot {#}" by simp
qed

lemma guard_not_stuck:
  assumes "guard_ok tot Q st" "tot \<le> cap" "asking st \<noteq> [] \<or> running st \<noteq> [] \<or> posted st \<noteq> []"
  shows "\<exists>st'. guard_later async_acquire release env st st' \<and> st' \<noteq> st"
proof (cases "asking st")
  case (Cons self as)
  then have r: "self \<in> set (asking st)" by simp
  from guard_asked_ok[OF assms(1) r] obtain st' where
    a: "guard_ask async_acquire self (st\<lparr>asking := remove1 self (asking st)\<rparr>) = Some st'" by (auto elim!: okE)
  moreover from this have "asking st' \<noteq> asking st" using Cons by (auto simp: guard_ask_def split: bind_splits)
  ultimately show ?thesis using guard_later.asked[OF r a] by blast
next
  case asking: Nil
  show ?thesis
  proof (cases "running st")
    case (Cons self rs)
    then have r: "self \<in> set (running st)" by simp
    from guard_finished_ok[OF assms(1) r assms(2), of undefined] obtain st' where
      "guard_finished release self undefined st = Some st'" by (auto elim!: okE)
    moreover from this have "completed st' \<noteq> completed st"
      by (auto simp: guard_finished_def complete_op_def split: bind_splits)
    ultimately show ?thesis using guard_later.finished[OF r, of release undefined st' async_acquire env] by blast
  next
    case Nil
    with asking assms(3) obtain e es where e: "posted st = e # es" by (cases "posted st") auto
    with assms(1) obtain self ec where "completion_of e = Some (self, ec)" by (auto simp: guard_ok_def)
    with e have "guard_later async_acquire release env st (guard_obtained undefined self ec (st\<lparr>posted := remove1 e (posted st)\<rparr>))"
      by (intro guard_later.obtained) simp_all
    moreover have "posted (guard_obtained undefined self ec (st\<lparr>posted := remove1 e (posted st)\<rparr>)) \<noteq> posted st"
      using e by (simp add: guard_obtained_def complete_op_def start_op_def)
    ultimately show ?thesis by metis
  qed
qed

lemma guard_run_ok:
  assumes "(guard_later async_acquire release env)\<^sup>*\<^sup>* st st'" "guard_ok tot Q st" "tot \<le> cap"
  shows "\<exists>Q'. guard_ok tot Q' st' \<and> placed Q' st' = placed Q st"
  using assms(1)
proof (induction rule: rtranclp_induct)
  case (step st1 st2)
  then obtain Q1 where "guard_ok tot Q1 st1" "placed Q1 st1 = placed Q st" by blast
  with guard_later_ok[OF step(2) this(1) assms(3)] show ?case by auto
qed (use assms(2) in blast)

lemma guarded_all_complete:
  assumes "guard_history try_acquire async_acquire release env (guard_start p w) st hs" "inv p w tot {#}" "0 < tot" "tot \<le> cap"
    and "(guard_later async_acquire release env)\<^sup>*\<^sup>* st st'" "\<And>st''. guard_later async_acquire release env st' st'' \<Longrightarrow> st'' = st'"
  shows "mset (map fst (completed st')) = mset hs" "inv (prim st') (gworld st') tot {#}"
proof -
  from guard_history_ok[OF assms(1,2,4)] obtain Q where "guard_ok tot Q st" "placed Q st = mset hs" by blast
  with guard_run_ok[OF assms(5) _ assms(4)] obtain Q' where Q': "guard_ok tot Q' st'" "placed Q' st' = mset hs" by metis
  from guard_not_stuck[OF Q'(1) assms(4)] assms(6) have n: "asking st' = []" "running st' = []" "posted st' = []" by blast+
  from guard_quiet[OF Q'(1) n(2,3) assms(3)] Q'(2) n
  show "mset (map fst (completed st')) = mset hs" "inv (prim st') (gworld st') tot {#}" by (simp_all add: placed_def)
qed

text \<open>The number of later steps that change anything is bounded.\<close>

lemma guarded_work_bounds:
  assumes "((\<lambda>st st'. guard_later async_acquire release env st st' \<and> st' \<noteq> st) ^^ n) st st'" "guard_ok tot Q st" "tot \<le> cap"
  shows "n \<le> guard_work Q st"
  using assms(1,2)
proof (induction n arbitrary: st Q)
  case (Suc n)
  from relpowp_Suc_D2[OF Suc.prems(1)] obtain st1 where
    1: "guard_later async_acquire release env st st1" "st1 \<noteq> st" "((\<lambda>st st'. guard_later async_acquire release env st st' \<and> st' \<noteq> st) ^^ n) st1 st'" by blast
  from guard_later_ok[OF 1(1) Suc.prems(2) assms(3)] 1(2) obtain Q1 where
    "guard_ok tot Q1 st1" "guard_work Q1 st1 < guard_work Q st" by blast
  with Suc.IH[OF 1(3)] show ?case by fastforce
qed simp

text \<open>Three steps for each operation at most: \<open>guard_work\<close> never exceeds it, as each has its place.\<close>

lemma guarded_terminates:
  assumes "guard_history try_acquire async_acquire release env (guard_start p w) st hs" "inv p w tot {#}" "tot \<le> cap"
    and "((\<lambda>st st'. guard_later async_acquire release env st st' \<and> st' \<noteq> st) ^^ n) st st'"
  shows "n + 3 * length (completed st) \<le> 3 * length hs + length (asking st)"
proof -
  from guard_history_ok[OF assms(1-3)] obtain Q where Q: "guard_ok tot Q st" "placed Q st = mset hs" by blast
  from arg_cong[OF Q(2), of size] guarded_work_bounds[OF assms(4) Q(1) assms(3)]
  show ?thesis by (simp add: placed_def guard_work_def)
qed

end

subsection \<open>Properties\<close>

abbreviation semaphore_guard_step ::
  "(basic_semaphore, 'r) guard_state \<Rightarrow> (basic_semaphore, 'r) guard_state \<Rightarrow> bool" where
  "semaphore_guard_step \<equiv> guard_step basic_semaphore_try_acquire basic_semaphore_async_acquire
     basic_semaphore_release semaphore_cancels"

abbreviation mutex_guard_step :: "(basic_mutex, 'r) guard_state \<Rightarrow> (basic_mutex, 'r) guard_state \<Rightarrow> bool" where
  "mutex_guard_step \<equiv> guard_step basic_mutex_try_lock basic_mutex_async_lock basic_mutex_unlock mutex_cancels"

abbreviation semaphore_guard_later ::
  "(basic_semaphore, 'r) guard_state \<Rightarrow> (basic_semaphore, 'r) guard_state \<Rightarrow> bool" where
  "semaphore_guard_later \<equiv> guard_later basic_semaphore_async_acquire basic_semaphore_release semaphore_cancels"

abbreviation semaphore_guard_history ::
  "(basic_semaphore, 'r) guard_state \<Rightarrow> (basic_semaphore, 'r) guard_state \<Rightarrow> handler list \<Rightarrow> bool" where
  "semaphore_guard_history \<equiv> guard_history basic_semaphore_try_acquire basic_semaphore_async_acquire
     basic_semaphore_release semaphore_cancels"

lemma constructed_semaphore:
  assumes "world_ok w" "registered w svc ms" "0 \<le> c" "c < 2 ^ 31"
    and "basic_semaphore_ctor ex A ctx c hint svc w = Some (p, svc', w')"
  shows "semaphore_permits p w' (nat c) {#}"
proof -
  from semaphore_ctor_ok[OF assms(1-4), of ex A ctx hint] assms(5)
  have "semaphore_rel (bs_impl p) w' \<lparr>avail = c, squeue = [], sfresh = brk w + 2\<rparr>" by (simp add: ok_def)
  then show ?thesis by (rule semaphore_permitsI) (use assms(3) in simp_all)
qed

lemma constructed_mutex:
  assumes "world_ok w" "registered w svc ms" "basic_mutex_ctor ex A ctx hint svc w = Some (p, svc', w')"
  shows "mutex_permits p w' 1 {#}"
proof -
  from mutex_ctor_ok[OF assms(1,2), of ex A ctx hint] assms(3)
  have "mutex_rel (bm_impl p) w' \<lparr>owned = False, queue = [], fresh = brk w + 2\<rparr>" by (simp add: ok_def)
  then show ?thesis by (rule mutex_permitsI) simp_all
qed

text \<open>
  C4: Limit.  However many operations are started with \<open>guarded\<close> on a semaphore constructed with count \<open>c\<close>, and in
  whatever order the executors run the completions and requests are cancelled, also between the \<open>try_acquire\<close> and the
  \<open>async_acquire\<close> of other calls, at most \<open>c\<close> guarded operations are in progress at any time.
\<close>

theorem guarded_by_semaphore_limit:
  assumes "world_ok w" "registered w svc ms" "0 \<le> c" "c < 2 ^ 31"
    and "basic_semaphore_ctor ex A ctx c hint svc w = Some (p, svc', w')"
    and "semaphore_guard_step\<^sup>*\<^sup>* (guard_start p w') st"
  shows "int (length (running st)) \<le> c"
proof -
  have "nat c \<le> 2 ^ 31 - 1" using assms(4) by simp
  from semaphore_source.guarded_limit[OF assms(6) constructed_semaphore[OF assms(1-5)] this] assms(3)
  show ?thesis by linarith
qed

theorem guarded_by_semaphore_limit_witness:
  "(\<exists>st :: (basic_semaphore, nat) guard_state.
     guard_by_semaphore_init Err_error_code 0 (some_handler 1) (guard_start (some_semaphore 1) semaphore_world) = Some st \<and>
     running st = [some_handler 1] \<and> int (length (running st)) \<le> 1)"
proof -
  let ?st = "\<lparr>prim = some_semaphore 0, gworld = semaphore_world, asking = [], running = [some_handler 1], posted = [], completed = []\<rparr>
    :: (basic_semaphore, nat) guard_state"
  have i: "guard_by_semaphore_init Err_error_code 0 (some_handler 1) (guard_start (some_semaphore 1) semaphore_world) = Some ?st"
    by (simp add: guard_by_semaphore_init_def guard_init_def guard_try_def guard_start_def start_op_def sam_eval)
  then have "semaphore_guard_step\<^sup>*\<^sup>* (guard_start (some_semaphore 1) semaphore_world) ?st"
    by (auto simp: guard_by_semaphore_init_def intro: guard_step.init[OF guard_start_step.whole])
  from guarded_by_semaphore_limit[OF start_ok _ _ some_semaphore_ctor this] i show ?thesis by auto
qed

text \<open>
  C18: Exclusion.  At most one operation guarded by the same mutex is in progress at any time.
\<close>

theorem guarded_by_mutex_exclusive:
  assumes "world_ok w" "registered w svc ms" "basic_mutex_ctor ex A ctx hint svc w = Some (p, svc', w')"
    and "mutex_guard_step\<^sup>*\<^sup>* (guard_start p w') st"
  shows "length (running st) \<le> 1"
  using mutex_source.guarded_limit[OF assms(4) constructed_mutex[OF assms(1-3)]] by simp

theorem guarded_by_mutex_exclusive_witness:
  "(\<exists>st :: (basic_mutex, nat) guard_state.
     guard_by_mutex_init Err_error_code 0 (some_handler 1) (guard_start some_mutex mutex_world) = Some st \<and>
     running st = [some_handler 1] \<and> length (running st) \<le> 1)"
proof -
  let ?st = "\<lparr>prim = held_mutex, gworld = mutex_world, asking = [], running = [some_handler 1], posted = [], completed = []\<rparr>
    :: (basic_mutex, nat) guard_state"
  have i: "guard_by_mutex_init Err_error_code 0 (some_handler 1) (guard_start some_mutex mutex_world) = Some ?st"
    by (simp add: guard_by_mutex_init_def guard_init_def guard_try_def guard_start_def start_op_def held_mutex_def sam_eval)
  then have "mutex_guard_step\<^sup>*\<^sup>* (guard_start some_mutex mutex_world) ?st"
    by (auto simp: guard_by_mutex_init_def intro: guard_step.init[OF guard_start_step.whole])
  from guarded_by_mutex_exclusive[OF start_ok some_mutex_ctor this] i show ?thesis by auto
qed

text \<open>
  No permit is lost.  When no guarded operation is in progress and no granted completion is on its way, the semaphore has
  all its permits again, and so nobody waits unless it was constructed with none; cancelled and failed requests
  consume nothing.
\<close>

theorem guarded_permits_return_to_semaphore:
  assumes "world_ok w" "registered w svc ms" "0 < c" "c < 2 ^ 31"
    and "basic_semaphore_ctor ex A ctx c hint svc w = Some (p, svc', w')"
    and "semaphore_guard_step\<^sup>*\<^sup>* (guard_start p w') st"
    and "running st = []" "\<forall>e \<in> set (posted st). \<not> granted_event e"
  shows "sem_count (bs_impl (prim st)) = c \<and> pending (gworld st) (sem_waiters (bs_impl (prim st))) []"
proof -
  have "semaphore_permits p w' (nat c) {#}" using constructed_semaphore[OF assms(1,2) _ assms(4,5)] assms(3) by simp
  from semaphore_source.guarded_permits_return[OF assms(6) this _ assms(7,8)] assms(3,4)
  obtain Q where "semaphore_permits (prim st) (gworld st) (nat c) Q" by fastforce
  with assms(3) show ?thesis by (auto simp: semaphore_permits_def semaphore_rel_def)
qed

text \<open>
  C12: Completion.  Once the executors have run what was posted and the guarded operations have returned, until nothing but
  a call of \<open>guarded\<close> could change anything, each operation that was started on a semaphore constructed with permits has
  called its handler exactly once, the count is the one constructed and nobody waits.
\<close>

theorem guarded_by_semaphore_completes:
  assumes "world_ok w" "registered w svc ms" "0 < c" "c < 2 ^ 31"
    and "basic_semaphore_ctor ex A ctx c hint svc w = Some (p, svc', w')"
    and "semaphore_guard_history (guard_start p w') st hs" "semaphore_guard_later\<^sup>*\<^sup>* st st'"
    and "\<And>st''. semaphore_guard_later st' st'' \<Longrightarrow> st'' = st'"
  shows "mset (map fst (completed st')) = mset hs \<and> sem_count (bs_impl (prim st')) = c \<and>
    pending (gworld st') (sem_waiters (bs_impl (prim st'))) []"
proof -
  have n: "0 < nat c" "nat c \<le> 2 ^ 31 - 1" using assms(3,4) by simp_all
  have "semaphore_permits p w' (nat c) {#}" using constructed_semaphore[OF assms(1,2) _ assms(4,5)] assms(3) by simp
  note g = semaphore_source.guarded_all_complete[OF assms(6) this n assms(7,8)]
  show ?thesis using g assms(3) by (auto simp: semaphore_permits_def semaphore_rel_def)
qed

text \<open>The same for the mutex.\<close>

theorem guarded_by_mutex_completes:
  assumes "world_ok w" "registered w svc ms" "basic_mutex_ctor ex A ctx hint svc w = Some (p, svc', w')"
    and "guard_history basic_mutex_try_lock basic_mutex_async_lock basic_mutex_unlock mutex_cancels (guard_start p w') st hs"
    and "(guard_later basic_mutex_async_lock basic_mutex_unlock mutex_cancels)\<^sup>*\<^sup>* st st'"
    and "\<And>st''. guard_later basic_mutex_async_lock basic_mutex_unlock mutex_cancels st' st'' \<Longrightarrow> st'' = st'"
  shows "mset (map fst (completed st')) = mset hs \<and> locked (bm_impl (prim st')) = False \<and>
    pending (gworld st') (waiters (bm_impl (prim st'))) []"
proof -
  note g = mutex_source.guarded_all_complete[OF assms(4) constructed_mutex[OF assms(1-3)] _ _ assms(5,6)]
  show ?thesis using g by (auto simp: mutex_permits_def mutex_rel_def)
qed

theorem guarded_by_mutex_terminates:
  assumes "world_ok w" "registered w svc ms" "basic_mutex_ctor ex A ctx hint svc w = Some (p, svc', w')"
    and "guard_history basic_mutex_try_lock basic_mutex_async_lock basic_mutex_unlock mutex_cancels (guard_start p w') st hs"
    and "((\<lambda>st st'. guard_later basic_mutex_async_lock basic_mutex_unlock mutex_cancels st st' \<and> st' \<noteq> st) ^^ n) st st'"
  shows "n + 3 * length (completed st) \<le> 3 * length hs + length (asking st)"
  using mutex_source.guarded_terminates[OF assms(4) constructed_mutex[OF assms(1-3)] _ assms(5)] by simp

text \<open>
  C19: Bounded work.  Of the steps that follow a history, whatever their order, at most three for each operation that has
  not completed change anything: its permit is granted or its request is cancelled, it is told so, and it completes.  An
  operation that is still between its \<open>try_acquire\<close> and its \<open>async_acquire\<close> has one step more.
\<close>

theorem guarded_by_semaphore_terminates:
  assumes "world_ok w" "registered w svc ms" "0 \<le> c" "c < 2 ^ 31"
    and "basic_semaphore_ctor ex A ctx c hint svc w = Some (p, svc', w')"
    and "semaphore_guard_history (guard_start p w') st hs"
    and "((\<lambda>st st'. semaphore_guard_later st st' \<and> st' \<noteq> st) ^^ n) st st'"
  shows "n + 3 * length (completed st) \<le> 3 * length hs + length (asking st)"
proof -
  have "nat c \<le> 2 ^ 31 - 1" using assms(4) by simp
  from semaphore_source.guarded_terminates[OF assms(6) constructed_semaphore[OF assms(1-5)] this assms(7)] show ?thesis .
qed

text \<open>One operation on a semaphore with one permit, before and after it completes.\<close>

definition guard_started :: "(basic_semaphore, nat) guard_state" where
  "guard_started = \<lparr>prim = some_semaphore 0, gworld = semaphore_world, asking = [], running = [some_handler 1], posted = [], completed = []\<rparr>"

definition guard_done :: "(basic_semaphore, nat) guard_state" where
  "guard_done = \<lparr>prim = some_semaphore 1, gworld = semaphore_world, asking = [], running = [], posted = [],
     completed = [(some_handler 1, Inr 42)]\<rparr>"

lemma guard_started_init:
  "guard_by_semaphore_init Err_error_code 0 (some_handler 1) (guard_start (some_semaphore 1) semaphore_world) = Some guard_started"
  by (simp add: guard_started_def guard_by_semaphore_init_def guard_init_def guard_try_def guard_start_def start_op_def sam_eval)

lemma guard_started_history:
  "semaphore_guard_history (guard_start (some_semaphore 1) semaphore_world) guard_started [some_handler 1]"
  using guard_history.init[OF guard_history.start guard_start_step.whole] guard_started_init by (fastforce simp: guard_by_semaphore_init_def)

lemma guard_done_finished: "guard_by_semaphore_finished (some_handler 1) 42 guard_started = Some guard_done"
  by (simp add: guard_started_def guard_done_def guard_by_semaphore_finished_def guard_finished_def complete_op_def
      new_events_def sam_eval)

lemma guard_done_later: "semaphore_guard_later guard_started guard_done"
  by (rule guard_later.finished[of "some_handler 1" _ _ 42])
    (use guard_done_finished in \<open>simp_all add: guard_by_semaphore_finished_def guard_started_def\<close>)

lemma guard_done_run: "semaphore_guard_later\<^sup>*\<^sup>* guard_started guard_done"
  using guard_done_later by (rule r_into_rtranclp)

lemma guard_done_quiet:
  assumes "semaphore_guard_later guard_done st"
  shows "st = guard_done"
  using assms
proof cases
  case (cancel p w)
  have "semaphore_permits (some_semaphore 1) semaphore_world (nat 1) {#}"
    by (rule constructed_semaphore[OF start_ok _ _ some_semaphore_ctor]) simp_all
  from semaphore_source.env_ok[OF this] cancel show ?thesis
    by (force simp: guard_done_def new_events_def)
qed (simp_all add: guard_done_def)

theorem guarded_permits_return_to_semaphore_witness:
  "sem_count (bs_impl (prim guard_done)) = 1 \<and>
    pending (gworld guard_done) (sem_waiters (bs_impl (prim guard_done))) []"
proof -
  have "semaphore_guard_step\<^sup>*\<^sup>* (guard_start (some_semaphore 1) semaphore_world) guard_done"
    using guard_started_init guard_done_later
    by (metis guard_by_semaphore_init_def guard_step.init guard_start_step.whole guard_step.later converse_rtranclp_into_rtranclp r_into_rtranclp)
  from guarded_permits_return_to_semaphore[OF start_ok _ _ some_semaphore_ctor this] show ?thesis by (simp add: guard_done_def)
qed

theorem guarded_by_semaphore_completes_witness:
  "completed guard_done = [(some_handler 1, Inr 42)] \<and>
    mset (map fst (completed guard_done)) = mset [some_handler 1] \<and> sem_count (bs_impl (prim guard_done)) = 1"
  using guarded_by_semaphore_completes[OF start_ok _ _ some_semaphore_ctor guard_started_history
      guard_done_run guard_done_quiet]
  by (simp add: guard_done_def)

theorem guarded_by_semaphore_terminates_witness:
  "completed guard_started = [] \<and>
    1 + 3 * length (completed guard_started) \<le> 3 * length [some_handler 1] + length (asking guard_started)"
proof -
  have "guard_done \<noteq> guard_started" by (simp add: guard_done_def guard_started_def)
  then have "((\<lambda>st st'. semaphore_guard_later st st' \<and> st' \<noteq> st) ^^ 1) guard_started guard_done"
    using guard_done_later by (simp add: OO_def)
  from guarded_by_semaphore_terminates[OF start_ok _ _ some_semaphore_ctor guard_started_history this]
  show ?thesis by (simp add: guard_started_def)
qed

end
