(* ===== verification/Shared_Mutex_Impl.thy ===== *)
theory Shared_Mutex_Impl
  imports Mutex_Impl
begin

section \<open>The shared mutex\<close>

text \<open>
  Models \<open>detail/shared_mutex_impl.hpp\<close>, \<open>detail/impl/shared_mutex_impl.ipp\<close>,
  \<open>basic_shared_mutex.hpp\<close> and \<open>impl/basic_shared_mutex.hpp\<close>.  The object extends the mutex by a
  64-bit reader count, which wraps, and a second list for shared requests.
\<close>

subsection \<open>The implementation object\<close>

record shared_mutex_impl = mutex_impl +
  locked_shared :: "64 word"
  shared_waiters :: addr

definition shared_mutex_impl_ctor ::
  "asio_hints \<Rightarrow> execution_context \<Rightarrow> int \<Rightarrow> op_list_service \<Rightarrow> world \<Rightarrow>
   (shared_mutex_impl \<times> op_list_service \<times> world) option" where
  "shared_mutex_impl_ctor A ctx hint svc w = do {
     (i, svc, w) \<leftarrow> mutex_impl_ctor A ctx hint svc w;
     let (r, w) = new_node w;
     Some (mutex_impl.extend i (shared_mutex_impl.fields 0 r), svc, w) }"

definition add_shared_waiter :: "shared_mutex_impl \<Rightarrow> addr \<Rightarrow> world \<Rightarrow> world option" where
  "add_shared_waiter this waiter w = on_nodes (link_before waiter (shared_waiters this)) w"

definition shared_mutex_impl_try_lock ::
  "shared_mutex_impl \<Rightarrow> world \<Rightarrow> (bool \<times> shared_mutex_impl \<times> world) option" where
  "shared_mutex_impl_try_lock this w = scoped (\<lambda>this.
     if locked this \<or> locked_shared this > 0 then Some (False, this, w)
     else Some (True, this\<lparr>locked := True\<rparr>, w)) this"

definition shared_mutex_impl_try_lock_shared ::
  "shared_mutex_impl \<Rightarrow> world \<Rightarrow> (bool \<times> shared_mutex_impl \<times> world) option" where
  "shared_mutex_impl_try_lock_shared this w = scoped (\<lambda>this.
     if locked this then Some (False, this, w)
     else Some (True, this\<lparr>locked_shared := locked_shared this + 1\<rparr>, w)) this"

definition shared_mutex_impl_lock ::
  "shared_mutex_impl \<Rightarrow> error_code \<Rightarrow> world \<Rightarrow> (error_code call \<times> shared_mutex_impl \<times> world) option" where
  "shared_mutex_impl_lock this ec w =
     (if \<not> enabled (mtx this) then do {
        (b, this, w) \<leftarrow> shared_mutex_impl_try_lock this w;
        if b then Some (Returned ec, this, w)
        else Some (Returned in_progress, this, w) }
      else scoped (\<lambda>this. do {
        let (a, w) = new_op (lock_op_t ec) w;
        w \<leftarrow> add_waiter this a w;
        if \<not> locked this \<and> locked_shared this = 0 then do {
          let this = this\<lparr>locked := True\<rparr>;
          w \<leftarrow> on_nodes (unlink a) w;
          w \<leftarrow> destroy a w;
          Some (Returned ec, this, w) }
        else Some (Blocked a, this, w) }) this)"

text \<open>The loop of \<open>unlock\<close> that lets every shared request in.\<close>

partial_function (option) grant_shared :: "shared_mutex_impl \<Rightarrow> world \<Rightarrow> (shared_mutex_impl \<times> world) option" where
  "grant_shared this w = do {
     nx \<leftarrow> get_next (shared_waiters this) (nodes w);
     if nx = shared_waiters this then Some (this, w)
     else do {
       let this = this\<lparr>locked_shared := locked_shared this + 1\<rparr>;
       w \<leftarrow> op_complete success nx w;
       grant_shared this w } }"

definition shared_mutex_impl_unlock ::
  "shared_mutex_impl \<Rightarrow> world \<Rightarrow> (unit \<times> shared_mutex_impl \<times> world) option" where
  "shared_mutex_impl_unlock this w = scoped (\<lambda>this. do {
     sx \<leftarrow> get_next (shared_waiters this) (nodes w);
     if sx \<noteq> shared_waiters this then do {
       let this = this\<lparr>locked := False\<rparr>;
       (this, w) \<leftarrow> grant_shared this w;
       Some ((), this, w) }
     else do {
       nx \<leftarrow> get_next (waiters this) (nodes w);
       if nx = waiters this then Some ((), this\<lparr>locked := False\<rparr>, w)
       else do {
         w \<leftarrow> op_complete success nx w;
         Some ((), this, w) } } }) this"

text \<open>A blocking \<open>lock_shared\<close> joins the list of exclusive requests.\<close>

definition shared_mutex_impl_lock_shared ::
  "shared_mutex_impl \<Rightarrow> error_code \<Rightarrow> world \<Rightarrow> (error_code call \<times> shared_mutex_impl \<times> world) option" where
  "shared_mutex_impl_lock_shared this ec w =
     (if \<not> enabled (mtx this) then do {
        (b, this, w) \<leftarrow> shared_mutex_impl_try_lock_shared this w;
        if b then Some (Returned ec, this, w)
        else Some (Returned in_progress, this, w) }
      else scoped (\<lambda>this. do {
        let (a, w) = new_op (lock_op_t ec) w;
        w \<leftarrow> add_waiter this a w;
        if \<not> locked this then do {
          let this = this\<lparr>locked_shared := locked_shared this + 1\<rparr>;
          w \<leftarrow> on_nodes (unlink a) w;
          w \<leftarrow> destroy a w;
          Some (Returned ec, this, w) }
        else Some (Blocked a, this, w) }) this)"

definition shared_mutex_impl_unlock_shared ::
  "shared_mutex_impl \<Rightarrow> world \<Rightarrow> (unit \<times> shared_mutex_impl \<times> world) option" where
  "shared_mutex_impl_unlock_shared this w = scoped (\<lambda>this. do {
     let this = (if locked_shared this > 0 then this\<lparr>locked_shared := locked_shared this - 1\<rparr> else this);
     if locked_shared this = 0 then do {
       nx \<leftarrow> get_next (waiters this) (nodes w);
       if nx \<noteq> waiters this then do {
         let this = this\<lparr>locked := True\<rparr>;
         w \<leftarrow> op_complete success nx w;
         Some ((), this, w) }
       else Some ((), this, w) }
     else Some ((), this, w) }) this"

text \<open>The two local holders of \<open>shutdown\<close> are destroyed in reverse order.\<close>

definition shared_mutex_impl_shutdown :: "shared_mutex_impl \<Rightarrow> world \<Rightarrow> (shared_mutex_impl \<times> world) option" where
  "shared_mutex_impl_shutdown this w = do {
     ((l, s), this, w) \<leftarrow> scoped (\<lambda>this. do {
        (l, w) \<leftarrow> holder_move_ctor (waiters this) w;
        (s, w) \<leftarrow> holder_move_ctor (shared_waiters this) w;
        Some ((l, s), this, w) }) this;
     w \<leftarrow> holder_shutdown l w;
     w \<leftarrow> holder_shutdown s w;
     w \<leftarrow> holder_dtor s w;
     w \<leftarrow> holder_dtor l w;
     Some (this, w) }"

text \<open>The source of a move is unlocked but keeps its reader count.\<close>

definition shared_mutex_impl_move_ctor ::
  "shared_mutex_impl \<Rightarrow> op_list_service \<Rightarrow> world \<Rightarrow>
   (shared_mutex_impl \<times> shared_mutex_impl \<times> op_list_service \<times> world) option" where
  "shared_mutex_impl_move_ctor mi svc w = do {
     (i, mi, svc, w) \<leftarrow> mutex_impl_move_ctor mi svc w;
     (r, w) \<leftarrow> holder_move_ctor (shared_waiters mi) w;
     let this = mutex_impl.extend i (shared_mutex_impl.fields (locked_shared mi) r);
     let mi = mi\<lparr>locked := False\<rparr>;
     Some (this, mi, svc, w) }"

definition shared_mutex_impl_move_assign ::
  "shared_mutex_impl \<Rightarrow> shared_mutex_impl \<Rightarrow> world \<Rightarrow> (shared_mutex_impl \<times> shared_mutex_impl \<times> world) option" where
  "shared_mutex_impl_move_assign this lhs w = do {
     l \<leftarrow> cem_lock (mtx lhs);
     let this = this\<lparr>locked := locked lhs, locked_shared := locked_shared lhs\<rparr>;
     let lhs = lhs\<lparr>locked := False, locked_shared := 0\<rparr>;
     w \<leftarrow> on_nodes (node_move_assign (waiters lhs) (waiters this)) w;
     w \<leftarrow> on_nodes (node_move_assign (shared_waiters lhs) (shared_waiters this)) w;
     u \<leftarrow> cem_unlock l;
     Some (this, lhs\<lparr>mtx := u\<rparr>, w) }"

definition shared_mutex_impl_dtor ::
  "shared_mutex_impl \<Rightarrow> op_list_service \<Rightarrow> world \<Rightarrow> (op_list_service \<times> world) option" where
  "shared_mutex_impl_dtor this svc w = do {
     w \<leftarrow> holder_dtor (shared_waiters this) w;
     mutex_impl_dtor this svc w }"

subsection \<open>The public class\<close>

record basic_shared_mutex =
  bsm_exec :: executor
  bsm_impl :: shared_mutex_impl

definition basic_shared_mutex_ctor ::
  "executor \<Rightarrow> asio_hints \<Rightarrow> execution_context \<Rightarrow> int \<Rightarrow> op_list_service \<Rightarrow> world \<Rightarrow>
   (basic_shared_mutex \<times> op_list_service \<times> world) option" where
  "basic_shared_mutex_ctor ex A ctx hint svc w = do {
     (i, svc, w) \<leftarrow> shared_mutex_impl_ctor A ctx hint svc w;
     Some (\<lparr>bsm_exec = ex, bsm_impl = i\<rparr>, svc, w) }"

definition basic_shared_mutex_move_ctor ::
  "basic_shared_mutex \<Rightarrow> op_list_service \<Rightarrow> world \<Rightarrow>
   (basic_shared_mutex \<times> basic_shared_mutex \<times> op_list_service \<times> world) option" where
  "basic_shared_mutex_move_ctor sem svc w = do {
     (i, si, svc, w) \<leftarrow> shared_mutex_impl_move_ctor (bsm_impl sem) svc w;
     Some (\<lparr>bsm_exec = bsm_exec sem, bsm_impl = i\<rparr>, sem\<lparr>bsm_impl := si\<rparr>, svc, w) }"

text \<open>The constructor from an execution context takes the context's own executor.\<close>

definition basic_shared_mutex_ctor_ctx ::
  "asio_hints \<Rightarrow> execution_context \<Rightarrow> int \<Rightarrow> op_list_service \<Rightarrow> world \<Rightarrow>
   (basic_shared_mutex \<times> op_list_service \<times> world) option" where
  "basic_shared_mutex_ctor_ctx A ctx hint svc w = do {
     (i, svc, w) \<leftarrow> shared_mutex_impl_ctor A ctx hint svc w;
     Some (\<lparr>bsm_exec = ctx_executor ctx, bsm_impl = i\<rparr>, svc, w) }"

definition basic_shared_mutex_get_executor :: "basic_shared_mutex \<Rightarrow> executor" where
  [simp]: "basic_shared_mutex_get_executor self = bsm_exec self"

text \<open>
  Move assignment, and the assignment from a primitive with another executor type.  Both return the target
  first and the source second.
\<close>

definition basic_shared_mutex_move_assign :: "basic_shared_mutex \<Rightarrow> basic_shared_mutex \<Rightarrow> world \<Rightarrow> (basic_shared_mutex \<times> basic_shared_mutex \<times> world) option" where
  "basic_shared_mutex_move_assign this sem w = do {
     let this = this\<lparr>bsm_exec := bsm_exec sem\<rparr>;
     (i, si, w) \<leftarrow> shared_mutex_impl_move_assign (bsm_impl this) (bsm_impl sem) w;
     Some (this\<lparr>bsm_impl := i\<rparr>, sem\<lparr>bsm_impl := si\<rparr>, w) }"

text \<open>\<open>std::swap(impl_, sem.impl_)\<close>: a temporary takes over the first, and both are move assigned.\<close>

definition shared_mutex_impl_swap ::
  "shared_mutex_impl \<Rightarrow> shared_mutex_impl \<Rightarrow> op_list_service \<Rightarrow> world \<Rightarrow> (shared_mutex_impl \<times> shared_mutex_impl \<times> op_list_service \<times> world) option" where
  "shared_mutex_impl_swap x y svc w = do {
     (t, x, svc, w) \<leftarrow> shared_mutex_impl_move_ctor x svc w;
     (x, y, w) \<leftarrow> shared_mutex_impl_move_assign x y w;
     (y, t, w) \<leftarrow> shared_mutex_impl_move_assign y t w;
     (svc, w) \<leftarrow> shared_mutex_impl_dtor t svc w;
     Some (x, y, svc, w) }"

definition basic_shared_mutex_move_assign_converting ::
  "basic_shared_mutex \<Rightarrow> basic_shared_mutex \<Rightarrow> op_list_service \<Rightarrow> world \<Rightarrow> (basic_shared_mutex \<times> basic_shared_mutex \<times> op_list_service \<times> world) option" where
  "basic_shared_mutex_move_assign_converting this sem svc w = do {
     let e = bsm_exec this;
     let this = this\<lparr>bsm_exec := bsm_exec sem\<rparr>;
     let sem = sem\<lparr>bsm_exec := e\<rparr>;
     (i, si, svc, w) \<leftarrow> shared_mutex_impl_swap (bsm_impl this) (bsm_impl sem) svc w;
     Some (this\<lparr>bsm_impl := i\<rparr>, sem\<lparr>bsm_impl := si\<rparr>, svc, w) }"

text \<open>The members that forward to the implementation, which is put back into the object.\<close>

definition with_impl ::
  "(shared_mutex_impl \<Rightarrow> world \<Rightarrow> ('r \<times> shared_mutex_impl \<times> world) option) \<Rightarrow>
   basic_shared_mutex \<Rightarrow> world \<Rightarrow> ('r \<times> basic_shared_mutex \<times> world) option" where
  "with_impl f self w = do { (r, i, w) \<leftarrow> f (bsm_impl self) w; Some (r, self\<lparr>bsm_impl := i\<rparr>, w) }"

definition basic_shared_mutex_lock ::
  "basic_shared_mutex \<Rightarrow> error_code \<Rightarrow> world \<Rightarrow> (error_code call \<times> basic_shared_mutex \<times> world) option" where
  "basic_shared_mutex_lock self ec w = with_impl (\<lambda>i. shared_mutex_impl_lock i ec) self w"

definition basic_shared_mutex_lock_throw ::
  "basic_shared_mutex \<Rightarrow> world \<Rightarrow> ((error_code + unit) call \<times> basic_shared_mutex \<times> world) option" where
  "basic_shared_mutex_lock_throw self w = do {
     (r, self, w) \<leftarrow> basic_shared_mutex_lock self success w;
     Some (map_call (check_error ''lock'') r, self, w) }"

definition basic_shared_mutex_unlock ::
  "basic_shared_mutex \<Rightarrow> world \<Rightarrow> (unit \<times> basic_shared_mutex \<times> world) option" where
  "basic_shared_mutex_unlock self w = with_impl shared_mutex_impl_unlock self w"

definition basic_shared_mutex_try_lock ::
  "basic_shared_mutex \<Rightarrow> world \<Rightarrow> (bool \<times> basic_shared_mutex \<times> world) option" where
  "basic_shared_mutex_try_lock self w = with_impl shared_mutex_impl_try_lock self w"

definition basic_shared_mutex_lock_shared ::
  "basic_shared_mutex \<Rightarrow> error_code \<Rightarrow> world \<Rightarrow> (error_code call \<times> basic_shared_mutex \<times> world) option" where
  "basic_shared_mutex_lock_shared self ec w = with_impl (\<lambda>i. shared_mutex_impl_lock_shared i ec) self w"

definition basic_shared_mutex_lock_shared_throw ::
  "basic_shared_mutex \<Rightarrow> world \<Rightarrow> ((error_code + unit) call \<times> basic_shared_mutex \<times> world) option" where
  "basic_shared_mutex_lock_shared_throw self w = do {
     (r, self, w) \<leftarrow> basic_shared_mutex_lock_shared self success w;
     Some (map_call (check_error ''lock_shared'') r, self, w) }"

definition basic_shared_mutex_unlock_shared ::
  "basic_shared_mutex \<Rightarrow> world \<Rightarrow> (unit \<times> basic_shared_mutex \<times> world) option" where
  "basic_shared_mutex_unlock_shared self w = with_impl shared_mutex_impl_unlock_shared self w"

definition basic_shared_mutex_try_lock_shared ::
  "basic_shared_mutex \<Rightarrow> world \<Rightarrow> (bool \<times> basic_shared_mutex \<times> world) option" where
  "basic_shared_mutex_try_lock_shared self w = with_impl shared_mutex_impl_try_lock_shared self w"

definition basic_shared_mutex_async_lock ::
  "basic_shared_mutex \<Rightarrow> handler \<Rightarrow> world \<Rightarrow> (unit \<times> basic_shared_mutex \<times> world) option" where
  "basic_shared_mutex_async_lock self h w = with_impl (\<lambda>impl w. do {
     let e = get_associated_executor h (bsm_exec self);
     scoped (\<lambda>impl.
        if \<not> locked impl \<and> locked_shared impl = 0 then do {
          let impl = impl\<lparr>locked := True\<rparr>;
          let ie = get_associated_immediate_executor h (bsm_exec self);
          Some ((), impl, emit (Dispatch ie h success) w) }
        else do {
          let (model, w) = basic_op_model_construct e h w;
          let w = slot_assign (basic_op_model_get_cancellation_slot (basic_op_model_ctor e h)) model w;
          w \<leftarrow> add_waiter impl model w;
          Some ((), impl, w) }) impl }) self w"

definition basic_shared_mutex_async_lock_shared ::
  "basic_shared_mutex \<Rightarrow> handler \<Rightarrow> world \<Rightarrow> (unit \<times> basic_shared_mutex \<times> world) option" where
  "basic_shared_mutex_async_lock_shared self h w = with_impl (\<lambda>impl w. do {
     let e = get_associated_executor h (bsm_exec self);
     scoped (\<lambda>impl.
        if \<not> locked impl then do {
          let impl = impl\<lparr>locked_shared := locked_shared impl + 1\<rparr>;
          let ie = get_associated_immediate_executor h (bsm_exec self);
          Some ((), impl, emit (Dispatch ie h success) w) }
        else do {
          let (model, w) = basic_op_model_construct e h w;
          let w = slot_assign (basic_op_model_get_cancellation_slot (basic_op_model_ctor e h)) model w;
          w \<leftarrow> add_shared_waiter impl model w;
          Some ((), impl, w) }) impl }) self w"

text \<open>
  The initiating function hands the operation to asio's \<open>async_initiate\<close>, a parameter, which makes a handler from the
  completion token and calls the operation with it.
\<close>

definition basic_shared_mutex_async_lock_init ::
  "((handler \<Rightarrow> world \<Rightarrow> (unit \<times> basic_shared_mutex \<times> world) option) \<Rightarrow> 'token \<Rightarrow> 'r) \<Rightarrow>
   basic_shared_mutex \<Rightarrow> 'token \<Rightarrow> 'r" where
  "basic_shared_mutex_async_lock_init async_initiate self token = async_initiate (basic_shared_mutex_async_lock self) token"

definition basic_shared_mutex_async_lock_shared_init ::
  "((handler \<Rightarrow> world \<Rightarrow> (unit \<times> basic_shared_mutex \<times> world) option) \<Rightarrow> 'token \<Rightarrow> 'r) \<Rightarrow>
   basic_shared_mutex \<Rightarrow> 'token \<Rightarrow> 'r" where
  "basic_shared_mutex_async_lock_shared_init async_initiate self token = async_initiate (basic_shared_mutex_async_lock_shared self) token"

text \<open>The cancellation handlers of the two initiations have the same body.\<close>

definition shared_async_lock_cancel ::
  "shared_mutex_impl \<Rightarrow> addr \<Rightarrow> nat \<Rightarrow> world \<Rightarrow> (unit \<times> shared_mutex_impl \<times> world) option" where
  "shared_async_lock_cancel impl model type w =
     (if type \<noteq> 0 then scoped (\<lambda>impl. do {
        w \<leftarrow> op_complete operation_aborted model w;
        Some ((), impl, w) }) impl
      else Some ((), impl, w))"

definition async_lock_shared_cancel ::
  "shared_mutex_impl \<Rightarrow> addr \<Rightarrow> nat \<Rightarrow> world \<Rightarrow> (unit \<times> shared_mutex_impl \<times> world) option" where
  "async_lock_shared_cancel impl model type w =
     (if type \<noteq> 0 then scoped (\<lambda>impl. do {
        w \<leftarrow> op_complete operation_aborted model w;
        Some ((), impl, w) }) impl
      else Some ((), impl, w))"

subsection \<open>Abstract specification\<close>

text \<open>
  A writer or some readers, a queue of exclusive and a queue of shared requests.
\<close>

record shared_spec =
  writer :: bool
  readers :: nat
  wqueue :: "(addr \<times> wait_op) list"
  rqueue :: "(addr \<times> wait_op) list"
  shfresh :: addr

definition shspec_try_lock :: "shared_spec \<Rightarrow> bool \<times> shared_spec" where
  "shspec_try_lock s = (if \<not> writer s \<and> readers s = 0 then (True, s\<lparr>writer := True\<rparr>) else (False, s))"

definition shspec_try_lock_shared :: "shared_spec \<Rightarrow> bool \<times> shared_spec" where
  "shspec_try_lock_shared s = (if \<not> writer s then (True, s\<lparr>readers := readers s + 1\<rparr>) else (False, s))"

definition shspec_block :: "error_code \<Rightarrow> shared_spec \<Rightarrow> error_code call \<times> shared_spec" where
  "shspec_block ec s = (Blocked (shfresh s),
     s\<lparr>wqueue := wqueue s @ [(shfresh s, Lock_op \<lparr>op_ec = ec, op_done = False\<rparr>)], shfresh := Suc (shfresh s)\<rparr>)"

definition shspec_lock :: "bool \<Rightarrow> error_code \<Rightarrow> shared_spec \<Rightarrow> error_code call \<times> shared_spec" where
  "shspec_lock multi ec s =
     (if \<not> writer s \<and> readers s = 0 then (Returned ec, s\<lparr>writer := True, shfresh := shfresh s + of_bool multi\<rparr>)
      else if \<not> multi then (Returned in_progress, s) else shspec_block ec s)"

definition shspec_lock_shared :: "bool \<Rightarrow> error_code \<Rightarrow> shared_spec \<Rightarrow> error_code call \<times> shared_spec" where
  "shspec_lock_shared multi ec s =
     (if \<not> writer s then (Returned ec, s\<lparr>readers := readers s + 1, shfresh := shfresh s + of_bool multi\<rparr>)
      else if \<not> multi then (Returned in_progress, s) else shspec_block ec s)"

definition shspec_async_lock :: "executor \<Rightarrow> handler \<Rightarrow> shared_spec \<Rightarrow> shared_spec \<times> event list" where
  "shspec_async_lock ex h s =
     (if \<not> writer s \<and> readers s = 0
      then (s\<lparr>writer := True\<rparr>, [Dispatch (get_associated_immediate_executor h ex) h success])
      else (s\<lparr>wqueue := wqueue s @ [(shfresh s, Basic_op \<lparr>work_guard = get_associated_executor h ex, op_handler = h\<rparr>)],
              shfresh := Suc (shfresh s)\<rparr>, []))"

definition shspec_async_lock_shared :: "executor \<Rightarrow> handler \<Rightarrow> shared_spec \<Rightarrow> shared_spec \<times> event list" where
  "shspec_async_lock_shared ex h s =
     (if \<not> writer s
      then (s\<lparr>readers := readers s + 1\<rparr>, [Dispatch (get_associated_immediate_executor h ex) h success])
      else (s\<lparr>rqueue := rqueue s @ [(shfresh s, Basic_op \<lparr>work_guard = get_associated_executor h ex, op_handler = h\<rparr>)],
              shfresh := Suc (shfresh s)\<rparr>, []))"

definition shspec_unlock :: "shared_spec \<Rightarrow> shared_spec \<times> event list" where
  "shspec_unlock s =
     (if rqueue s \<noteq> [] then (s\<lparr>writer := False, readers := readers s + length (rqueue s), rqueue := []\<rparr>,
        concat (map (\<lambda>(a, x). signals success a x) (rqueue s)))
      else (case wqueue s of
        [] \<Rightarrow> (s\<lparr>writer := False\<rparr>, [])
      | (a, x) # q \<Rightarrow> (s\<lparr>wqueue := q\<rparr>, signals success a x)))"

definition shspec_unlock_shared :: "shared_spec \<Rightarrow> shared_spec \<times> event list" where
  "shspec_unlock_shared s = (if readers s = 1 then (case wqueue s of
        [] \<Rightarrow> (s\<lparr>readers := 0\<rparr>, [])
      | (a, x) # q \<Rightarrow> (s\<lparr>readers := 0, writer := True, wqueue := q\<rparr>, signals success a x))
      else (s\<lparr>readers := readers s - 1\<rparr>, []))"

definition shared_rel :: "shared_mutex_impl \<Rightarrow> world \<Rightarrow> shared_spec \<Rightarrow> bool" where
  "shared_rel m w s \<longleftrightarrow> world_ok w \<and> pending w (waiters m) (wqueue s) \<and> pending w (shared_waiters m) (rqueue s) \<and>
     waiters m \<noteq> shared_waiters m \<and> idle (mtx m) \<and> locked m = writer s \<and> unat (locked_shared m) = readers s \<and>
     brk w = shfresh s \<and> \<not> (writer s \<and> readers s > 0) \<and> (rqueue s \<noteq> [] \<longrightarrow> writer s) \<and>
     (wqueue s \<noteq> [] \<longrightarrow> writer s \<or> readers s > 0)"

definition same_shared :: "shared_mutex_impl \<Rightarrow> shared_mutex_impl \<Rightarrow> bool" where
  "same_shared m m' \<longleftrightarrow> m' = m\<lparr>locked := locked m', locked_shared := locked_shared m'\<rparr>"

abbreviation shared_roots :: "shared_mutex_impl \<Rightarrow> addr set" where
  "shared_roots m \<equiv> {waiters m, shared_waiters m}"

subsection \<open>Refinement\<close>

lemma shared_relD:
  assumes "shared_rel m w s"
  shows "world_ok w" "pending w (waiters m) (wqueue s)" "pending w (shared_waiters m) (rqueue s)"
    "waiters m \<noteq> shared_waiters m" "idle (mtx m)"
  using assms by (simp_all add: shared_rel_def)

lemma same_sharedD:
  assumes "same_shared m m'"
  shows "waiters m' = waiters m" "shared_waiters m' = shared_waiters m" "mtx m' = mtx m"
  using assms[unfolded same_shared_def, THEN arg_cong, of waiters]
    assms[unfolded same_shared_def, THEN arg_cong, of shared_waiters]
    assms[unfolded same_shared_def, THEN arg_cong, of mtx] by simp_all

lemma same_shared_roots:
  "same_shared m m' \<Longrightarrow> waiters m' = waiters m \<and> shared_waiters m' = shared_waiters m \<and> mtx m' = mtx m"
  by (simp add: same_sharedD)

lemma locked_shared_zero:
  assumes "shared_rel m w s"
  shows "locked_shared m = 0 \<longleftrightarrow> readers s = 0" "0 < locked_shared m \<longleftrightarrow> 0 < readers s"
proof -
  have "unat (locked_shared m) = readers s" using assms by (simp add: shared_rel_def)
  then show "locked_shared m = 0 \<longleftrightarrow> readers s = 0" by (metis unat_eq_zero)
  then show "0 < locked_shared m \<longleftrightarrow> 0 < readers s" by (simp add: word_gt_0)
qed

text \<open>What stays within one of the two lists stays within the mutex.\<close>

lemma shared_keeps:
  assumes "shared_rel m w s" "world_ok w'"
  shows "untouched (queue_nodes (waiters m) (wqueue s)) w w' \<Longrightarrow> keeps (shared_roots m) w w'"
    "untouched (queue_nodes (shared_waiters m) (rqueue s)) w w' \<Longrightarrow> keeps (shared_roots m) w w'"
  using keeps_mono[OF keeps_queue[OF assms(2) shared_relD(2)[OF assms(1)]], of "shared_roots m"]
    keeps_mono[OF keeps_queue[OF assms(2) shared_relD(3)[OF assms(1)]], of "shared_roots m"] by simp_all

lemma unat_plus_of_nat:
  fixes x :: "64 word"
  assumes "unat x + n < 2 ^ 64"
  shows "unat (x + of_nat n) = unat x + n"
  using assms by (simp add: unat_word_ariths unat_of_nat)

lemma unat_plus_one: "unat (x :: 64 word) + 1 < 2 ^ 64 \<Longrightarrow> unat (x + 1) = unat x + 1"
  using unat_plus_of_nat[of x 1] by simp

lemma shared_try_lock_refines:
  assumes "shared_rel m w s"
  shows "ok (shared_mutex_impl_try_lock m w) (\<lambda>(b, m', w'). w' = w \<and> same_shared m m' \<and>
    b = fst (shspec_try_lock s) \<and> shared_rel m' w (snd (shspec_try_lock s)))"
  unfolding shared_mutex_impl_try_lock_def
  by (rule scoped_ok[OF shared_relD(5)[OF assms]])
    (use assms locked_shared_zero[OF assms] in \<open>auto simp: shared_rel_def shspec_try_lock_def same_shared_def\<close>)

lemma shared_try_lock_shared_refines:
  assumes "shared_rel m w s" "readers s + 1 < 2 ^ 64"
  shows "ok (shared_mutex_impl_try_lock_shared m w) (\<lambda>(b, m', w'). w' = w \<and> same_shared m m' \<and>
    b = fst (shspec_try_lock_shared s) \<and> shared_rel m' w (snd (shspec_try_lock_shared s)))"
proof -
  have "unat (locked_shared m + 1) = readers s + 1"
    using assms unat_plus_one[of "locked_shared m"] by (simp add: shared_rel_def)
  then show ?thesis
    unfolding shared_mutex_impl_try_lock_shared_def
    by (intro scoped_ok[OF shared_relD(5)[OF assms(1)]])
      (use assms(1) in \<open>auto simp: shared_rel_def shspec_try_lock_shared_def same_shared_def\<close>)
qed

text \<open>A blocking call of either kind puts its operation into the exclusive queue for a moment or for good.\<close>

lemma shared_block:
  assumes "shared_rel m w s"
  obtains a w1 w2 w3 w4 where "new_op (Lock_op \<lparr>op_ec = ec, op_done = False\<rparr>) w = (a, w1)" "a = brk w"
    "add_waiter m a w1 = Some w2" "on_nodes (unlink a) w2 = Some w3" "destroy a w3 = Some w4"
    "trace w2 = trace w" "trace w4 = trace w"
    "writer s \<or> readers s > 0 \<Longrightarrow> shared_rel m w2 (snd (shspec_block ec s))"
    "shared_rel m w4 (s\<lparr>shfresh := Suc (shfresh s)\<rparr>)" "keeps (shared_roots m) w w2" "keeps (shared_roots m) w w4"
proof -
  let ?x = "Lock_op \<lparr>op_ec = ec, op_done = False\<rparr>"
  note P = shared_relD[OF assms]
  obtain a w1 where n: "new_op ?x w = (a, w1)" by force
  from join_sync[OF P(1,2) n unsettled(3)] obtain w2 where w2: "on_nodes (link_before a (waiters m)) w1 = Some w2"
    "joined (waiters m) (wqueue s) ?x w w2" "a = brk w" .
  from join_leave[OF P(1) w2(2)] obtain w3 w4 where w4: "on_nodes (unlink (brk w)) w2 = Some w3"
    "destroy (brk w) w3 = Some w4" "world_ok w4" "pending w4 (waiters m) (wqueue s)" "ops w4 = ops w"
    "slots w4 = slots w" "trace w4 = trace w" "brk w4 = Suc (brk w)"
    "untouched (queue_nodes (waiters m) (wqueue s)) w w4" .
  have "pending w2 (shared_waiters m) (rqueue s)"
    by (rule pending_other[OF P(2,3,4)]) (use w2(2) in \<open>simp add: joined_def\<close>)
  moreover have "pending w4 (shared_waiters m) (rqueue s)" by (rule pending_other[OF P(2,3,4) w4(9)])
  moreover have "keeps (shared_roots m) w w2"
    by (rule shared_keeps(1)[OF assms]) (use w2(2) in \<open>simp_all add: joined_def\<close>)
  moreover have "keeps (shared_roots m) w w4" by (rule shared_keeps(1)[OF assms w4(3,9)])
  ultimately show thesis
    using that[OF n w2(3), of w2 w3 w4] w2 w4 assms
    by (simp add: shared_rel_def shspec_block_def joined_def add_waiter_def)
qed

lemma shared_lock_refines:
  assumes "shared_rel m w s"
  shows "ok (shared_mutex_impl_lock m ec w) (\<lambda>(r, m', w'). same_shared m m' \<and> trace w' = trace w \<and>
    r = fst (shspec_lock (enabled (mtx m)) ec s) \<and> shared_rel m' w' (snd (shspec_lock (enabled (mtx m)) ec s)) \<and>
    keeps (shared_roots m) w w')"
proof (cases "enabled (mtx m)")
  case False
  from shared_try_lock_refines[OF assms] obtain b m' where t: "shared_mutex_impl_try_lock m w = Some (b, m', w)"
    "same_shared m m'" "b = fst (shspec_try_lock s)" "shared_rel m' w (snd (shspec_try_lock s))"
    by (auto elim!: okE)
  with False assms shared_relD(1)[OF assms] show ?thesis
    by (auto simp: shared_mutex_impl_lock_def shspec_lock_def shspec_try_lock_def)
next
  case True
  from shared_block[OF assms, of ec] obtain a w1 w2 w3 w4 where
    b: "new_op (Lock_op \<lparr>op_ec = ec, op_done = False\<rparr>) w = (a, w1)" "a = brk w"
      "add_waiter m a w1 = Some w2" "on_nodes (unlink a) w2 = Some w3" "destroy a w3 = Some w4"
      "trace w2 = trace w" "trace w4 = trace w"
      "writer s \<or> readers s > 0 \<Longrightarrow> shared_rel m w2 (snd (shspec_block ec s))"
      "shared_rel m w4 (s\<lparr>shfresh := Suc (shfresh s)\<rparr>)" "keeps (shared_roots m) w w2" "keeps (shared_roots m) w w4"
    by blast
  have lk: "locked m = writer s" "brk w = shfresh s" using assms by (simp_all add: shared_rel_def)
  show ?thesis
    unfolding shared_mutex_impl_lock_def using True
    apply (simp add: b(1))
    apply (rule scoped_ok[OF shared_relD(5)[OF assms]])
    using b lk locked_shared_zero[OF assms]
    by (auto simp: shspec_lock_def same_shared_def add_waiter_def shspec_block_def shared_rel_def)
qed

lemma shared_lock_shared_refines:
  assumes "shared_rel m w s" "readers s + 1 < 2 ^ 64"
  shows "ok (shared_mutex_impl_lock_shared m ec w) (\<lambda>(r, m', w'). same_shared m m' \<and> trace w' = trace w \<and>
    r = fst (shspec_lock_shared (enabled (mtx m)) ec s) \<and>
    shared_rel m' w' (snd (shspec_lock_shared (enabled (mtx m)) ec s)) \<and> keeps (shared_roots m) w w')"
proof (cases "enabled (mtx m)")
  case False
  from shared_try_lock_shared_refines[OF assms] obtain b m' where
    t: "shared_mutex_impl_try_lock_shared m w = Some (b, m', w)" "same_shared m m'"
      "b = fst (shspec_try_lock_shared s)" "shared_rel m' w (snd (shspec_try_lock_shared s))"
    by (auto elim!: okE)
  with False assms shared_relD(1)[OF assms(1)] show ?thesis
    by (auto simp: shared_mutex_impl_lock_shared_def shspec_lock_shared_def shspec_try_lock_shared_def)
next
  case True
  from shared_block[OF assms(1), of ec] obtain a w1 w2 w3 w4 where
    b: "new_op (Lock_op \<lparr>op_ec = ec, op_done = False\<rparr>) w = (a, w1)" "a = brk w"
      "add_waiter m a w1 = Some w2" "on_nodes (unlink a) w2 = Some w3" "destroy a w3 = Some w4"
      "trace w2 = trace w" "trace w4 = trace w"
      "writer s \<or> readers s > 0 \<Longrightarrow> shared_rel m w2 (snd (shspec_block ec s))"
      "shared_rel m w4 (s\<lparr>shfresh := Suc (shfresh s)\<rparr>)" "keeps (shared_roots m) w w2" "keeps (shared_roots m) w w4"
    by blast
  have lk: "locked m = writer s" "brk w = shfresh s" "unat (locked_shared m + 1) = readers s + 1"
    using assms unat_plus_one[of "locked_shared m"] by (simp_all add: shared_rel_def)
  show ?thesis
    unfolding shared_mutex_impl_lock_shared_def using True
    apply (simp add: b(1))
    apply (rule scoped_ok[OF shared_relD(5)[OF assms(1)]])
    using b lk
    by (auto simp: shspec_lock_shared_def same_shared_def add_waiter_def shspec_block_def shared_rel_def)
qed

lemma grant_shared_drain:
  assumes "world_ok w" "pending w (shared_waiters m) q"
  shows "grant_shared m w = map_option (\<lambda>w'. (m\<lparr>locked_shared := locked_shared m + of_nat (length q)\<rparr>, w'))
    (drain (op_complete success) (shared_waiters m) w)"
  using assms
proof (induction q arbitrary: m w)
  case Nil
  then have "get_next (shared_waiters m) (nodes w) = Some (shared_waiters m)" by (simp add: pending_empty)
  then show ?case by (subst drain.simps, subst grant_shared.simps) simp
next
  case (Cons ax q)
  obtain a x where ax: "ax = (a, x)" by force
  let ?m = "m\<lparr>locked_shared := locked_shared m + 1\<rparr>"
  from Cons.prems ax have p: "pending w (shared_waiters m) ([] @ (a, x) # q)" by simp
  have h: "get_next (shared_waiters m) (nodes w) = Some a" "a \<noteq> shared_waiters m"
    using pending_head[of w "shared_waiters m" a x q] p by auto
  from complete_pending[OF Cons.prems(1) p] obtain w1 where
    w1: "op_complete success a w = Some w1" "world_ok w1" "pending w1 (shared_waiters ?m) q" by auto
  with h Cons.IH[OF w1(2,3)] show ?case
    by (subst drain.simps, subst grant_shared.simps) (simp add: add.assoc)
qed

lemma shared_unlock_readers:
  assumes "shared_rel m w s" "writer s" "rqueue s \<noteq> []" "length (rqueue s) < 2 ^ 64"
  shows "ok (shared_mutex_impl_unlock m w) (\<lambda>(u, m', w'). same_shared m m' \<and>
    shared_rel m' w' (fst (shspec_unlock s)) \<and> trace w' = trace w @ snd (shspec_unlock s) \<and>
    keeps (shared_roots m) w w')"
proof -
  note P = shared_relD[OF assms(1)]
  let ?m = "m\<lparr>mtx := acquired (mtx m), locked := False\<rparr>"
  have z: "locked_shared m = 0" "readers s = 0"
    using assms(1,2) locked_shared_zero[OF assms(1)] by (auto simp: shared_rel_def)
  from holder_complete_all_ok[OF P(1,3), of success] obtain w' where
    w': "drain (op_complete success) (shared_waiters m) w = Some w'" "world_ok w'" "pending w' (shared_waiters m) []"
      "drained (signals success) success (rqueue s) w w'" "untouched (queue_nodes (shared_waiters m) (rqueue s)) w w'"
    by (auto simp: holder_complete_all_def elim!: okE)
  have p: "pending w' (waiters m) (wqueue s)"
    by (rule pending_other[OF P(3,2) P(4)[symmetric] w'(5)])
  have d: "trace w' = trace w @ snd (shspec_unlock s)" "brk w' = brk w"
    using w'(4) assms(3) by (simp_all add: drained_def shspec_unlock_def)
  have g: "grant_shared ?m w = Some (?m\<lparr>locked_shared := of_nat (length (rqueue s))\<rparr>, w')"
    using grant_shared_drain[of w ?m "rqueue s"] P(1,3) w'(1) z(1) by simp
  have h: "get_next (shared_waiters m) (nodes w) \<noteq> Some (shared_waiters m)"
    "get_next (shared_waiters m) (nodes w) = Some (hd (map fst (rqueue s) @ [shared_waiters m]))"
    using pending_empty_iff[OF P(3)] assms(3) pending_next[OF P(3)] by auto
  have n: "unat (of_nat (length (rqueue s)) :: 64 word) = length (rqueue s)"
    using assms(4) by (simp add: unat_of_nat)
  show ?thesis
    unfolding shared_mutex_impl_unlock_def
    by (rule scoped_ok[OF P(5)])
      (use g h n z d p w'(2,3) assms(1,3) shared_keeps(2)[OF assms(1) w'(2,5)] in
        \<open>auto simp: same_shared_def shared_rel_def shspec_unlock_def\<close>)
qed

text \<open>Completing the oldest exclusive request.\<close>

lemma shared_complete_writer:
  assumes "shared_rel m w s" "wqueue s = (a, x) # q"
  obtains w' where "get_next (waiters m) (nodes w) = Some a" "a \<noteq> waiters m" "op_complete success a w = Some w'"
    "world_ok w'" "pending w' (waiters m) q" "pending w' (shared_waiters m) (rqueue s)" "brk w' = brk w"
    "trace w' = trace w @ signals success a x" "ops w' = (ops w)(a := finished success x)"
    "keeps (shared_roots m) w w'"
proof -
  note P = shared_relD[OF assms(1), unfolded assms(2)]
  have p: "pending w (waiters m) ([] @ (a, x) # q)" using P(2) by simp
  from complete_pending[OF P(1) p] obtain w' where w': "op_complete success a w = Some w'" "world_ok w'"
    "pending w' (waiters m) q" "trace w' = trace w @ signals success a x" "brk w' = brk w"
    "ops w' = (ops w)(a := finished success x)"
    "untouched (queue_nodes (waiters m) ((a, x) # q)) w w'" by auto
  have "pending w' (shared_waiters m) (rqueue s)" by (rule pending_other[OF P(2,3,4) w'(7)])
  moreover have "keeps (shared_roots m) w w'" using shared_keeps(1)[OF assms(1) w'(2)] w'(7) assms(2) by simp
  ultimately show thesis using that w' pending_head[OF P(2)] by blast
qed

lemma shared_unlock_refines:
  assumes "shared_rel m w s" "writer s" "length (rqueue s) < 2 ^ 64"
  shows "ok (shared_mutex_impl_unlock m w) (\<lambda>(u, m', w'). same_shared m m' \<and>
    shared_rel m' w' (fst (shspec_unlock s)) \<and> trace w' = trace w @ snd (shspec_unlock s) \<and>
    keeps (shared_roots m) w w')"
proof (cases "rqueue s = []")
  case False
  from shared_unlock_readers[OF assms(1,2) False assms(3)] show ?thesis .
next
  case True
  note P = shared_relD[OF assms(1)]
  have e: "get_next (shared_waiters m) (nodes w) = Some (shared_waiters m)"
    using pending_empty_iff[OF P(3)] True by simp
  show ?thesis
  proof (cases "wqueue s")
    case Nil
    with True e assms P pending_empty_iff[OF P(2)] show ?thesis
      unfolding shared_mutex_impl_unlock_def
      by (intro scoped_ok[OF P(5)]) (simp add: shared_rel_def shspec_unlock_def same_shared_def)
  next
    case (Cons ax q)
    obtain a x where ax: "ax = (a, x)" by force
    from shared_complete_writer[OF assms(1) Cons[unfolded ax]] obtain w' where
      "get_next (waiters m) (nodes w) = Some a" "a \<noteq> waiters m" "op_complete success a w = Some w'"
      "world_ok w'" "pending w' (waiters m) q" "pending w' (shared_waiters m) (rqueue s)" "brk w' = brk w"
      "trace w' = trace w @ signals success a x" "keeps (shared_roots m) w w'"
      by blast
    with True e Cons ax assms show ?thesis
      unfolding shared_mutex_impl_unlock_def
      by (intro scoped_ok[OF P(5)]) (simp add: shared_rel_def shspec_unlock_def same_shared_def)
  qed
qed

lemma shared_unlock_shared_refines:
  assumes "shared_rel m w s" "readers s > 0"
  shows "ok (shared_mutex_impl_unlock_shared m w) (\<lambda>(u, m', w'). same_shared m m' \<and>
    shared_rel m' w' (fst (shspec_unlock_shared s)) \<and> trace w' = trace w @ snd (shspec_unlock_shared s) \<and>
    keeps (shared_roots m) w w')"
proof -
  note P = shared_relD[OF assms(1)]
  have k: "locked_shared m > 0" "unat (locked_shared m - 1) = readers s - 1"
    using assms locked_shared_zero[OF assms(1)] by (auto simp: shared_rel_def unat_minus_one word_gt_0)
  have z: "locked_shared m - 1 = 0 \<longleftrightarrow> readers s = 1"
    using k(2) assms(2) unat_eq_zero[of "locked_shared m - 1"] by linarith
  show ?thesis
  proof (cases "wqueue s")
    case Nil
    with z k assms P pending_empty_iff[OF P(2)] show ?thesis
      unfolding shared_mutex_impl_unlock_shared_def
      by (intro scoped_ok[OF P(5)]) (auto simp: shared_rel_def shspec_unlock_shared_def same_shared_def)
  next
    case (Cons ax q)
    obtain a x where ax: "ax = (a, x)" by force
    from shared_complete_writer[OF assms(1) Cons[unfolded ax]] obtain w' where
      "get_next (waiters m) (nodes w) = Some a" "a \<noteq> waiters m" "op_complete success a w = Some w'"
      "world_ok w'" "pending w' (waiters m) q" "pending w' (shared_waiters m) (rqueue s)" "brk w' = brk w"
      "trace w' = trace w @ signals success a x" "keeps (shared_roots m) w w'"
      by blast
    with z k Cons ax assms show ?thesis
      unfolding shared_mutex_impl_unlock_shared_def
      by (intro scoped_ok[OF P(5)]) (auto simp: shared_rel_def shspec_unlock_shared_def same_shared_def)
  qed
qed

text \<open>\<open>unlock_shared\<close> without a shared holder and without exclusive requests changes nothing.\<close>

lemma shared_unlock_shared_idle:
  assumes "shared_rel m w s" "readers s = 0" "wqueue s = []"
  shows "shared_mutex_impl_unlock_shared m w = Some ((), m, w)"
  using shared_relD[OF assms(1)] locked_shared_zero[OF assms(1)] assms(2,3) pending_empty[of w "waiters m"]
  by (simp add: shared_mutex_impl_unlock_shared_def scoped_def)

text \<open>
  The \<open>unlock_shared\<close> of a holder that is not counted, such as a \<open>lock_shared\<close> that had to wait, hands the mutex to
  the oldest exclusive request and otherwise does nothing.
\<close>

lemma shared_unlock_shared_uncounted:
  assumes "shared_rel m w s" "writer s"
  shows "ok (shared_mutex_impl_unlock_shared m w) (\<lambda>(u, m', w'). same_shared m m' \<and>
    (case wqueue s of [] \<Rightarrow> shared_rel m' w' s \<and> trace w' = trace w
     | (a, x) # q \<Rightarrow> shared_rel m' w' (s\<lparr>wqueue := q\<rparr>) \<and> trace w' = trace w @ signals success a x) \<and>
    keeps (shared_roots m) w w')"
proof (cases "wqueue s")
  case Nil
  with shared_unlock_shared_idle[OF assms(1)] assms shared_relD(1)[OF assms(1)] show ?thesis
    by (simp add: same_shared_def shared_rel_def)
next
  case (Cons ax q)
  obtain a x where ax: "ax = (a, x)" by force
  have z: "locked_shared m = 0" using assms locked_shared_zero[OF assms(1)] by (auto simp: shared_rel_def)
  from shared_complete_writer[OF assms(1) Cons[unfolded ax]] obtain w' where
    "get_next (waiters m) (nodes w) = Some a" "a \<noteq> waiters m" "op_complete success a w = Some w'"
    "world_ok w'" "pending w' (waiters m) q" "pending w' (shared_waiters m) (rqueue s)" "brk w' = brk w"
    "trace w' = trace w @ signals success a x" "keeps (shared_roots m) w w'"
    by blast
  with z Cons ax assms show ?thesis
    unfolding shared_mutex_impl_unlock_shared_def
    by (intro scoped_ok[OF shared_relD(5)[OF assms(1)]]) (auto simp: shared_rel_def same_shared_def)
qed

lemma shared_async_lock_refines:
  assumes "shared_rel (bsm_impl m) w s"
  shows "ok (basic_shared_mutex_async_lock m h w) (\<lambda>(u, m', w'). bsm_exec m' = bsm_exec m \<and>
    same_shared (bsm_impl m) (bsm_impl m') \<and>
    shared_rel (bsm_impl m') w' (fst (shspec_async_lock (bsm_exec m) h s)) \<and>
    trace w' = trace w @ snd (shspec_async_lock (bsm_exec m) h s) \<and> keeps (shared_roots (bsm_impl m)) w w')"
proof -
  let ?x = "Basic_op \<lparr>work_guard = get_associated_executor h (bsm_exec m), op_handler = h\<rparr>"
  let ?i = "bsm_impl m"
  note P = shared_relD[OF assms]
  obtain a w1 where n: "new_op ?x w = (a, w1)" by force
  from join_async[OF P(1,2) n unsettled(1)] obtain w2 where
    w2: "on_nodes (link_before a (waiters ?i)) (slot_assign (h_slot h) a w1) = Some w2" "world_ok w2"
      "pending w2 (waiters ?i) (wqueue s @ [(brk w, ?x)])" "trace w2 = trace w" "brk w2 = Suc (brk w)"
      "untouched (queue_nodes (waiters ?i) (wqueue s)) w w2" by auto
  have "pending w2 (shared_waiters ?i) (rqueue s)" by (rule pending_other[OF P(2,3,4) w2(6)])
  moreover have "keeps (shared_roots ?i) w w2" by (rule shared_keeps(1)[OF assms w2(2,6)])
  moreover have "keeps (shared_roots ?i) w (emit e w)" for e
    using P(1) by (intro keeps_same_nodes) simp_all
  ultimately show ?thesis
    unfolding basic_shared_mutex_async_lock_def with_impl_def Let_def ok_bind
    by (intro scoped_ok[OF P(5)])
      (use n w2 assms locked_shared_zero[OF assms] in \<open>auto simp: shared_rel_def shspec_async_lock_def same_shared_def
         basic_op_model_construct_def add_waiter_def\<close>)
qed

lemma shared_async_lock_shared_refines:
  assumes "shared_rel (bsm_impl m) w s" "readers s + 1 < 2 ^ 64"
  shows "ok (basic_shared_mutex_async_lock_shared m h w) (\<lambda>(u, m', w'). bsm_exec m' = bsm_exec m \<and>
    same_shared (bsm_impl m) (bsm_impl m') \<and>
    shared_rel (bsm_impl m') w' (fst (shspec_async_lock_shared (bsm_exec m) h s)) \<and>
    trace w' = trace w @ snd (shspec_async_lock_shared (bsm_exec m) h s) \<and> keeps (shared_roots (bsm_impl m)) w w')"
proof -
  let ?x = "Basic_op \<lparr>work_guard = get_associated_executor h (bsm_exec m), op_handler = h\<rparr>"
  let ?i = "bsm_impl m"
  note P = shared_relD[OF assms(1)]
  obtain a w1 where n: "new_op ?x w = (a, w1)" by force
  from join_async[OF P(1,3) n unsettled(1)] obtain w2 where
    w2: "on_nodes (link_before a (shared_waiters ?i)) (slot_assign (h_slot h) a w1) = Some w2" "world_ok w2"
      "pending w2 (shared_waiters ?i) (rqueue s @ [(brk w, ?x)])" "trace w2 = trace w" "brk w2 = Suc (brk w)"
      "untouched (queue_nodes (shared_waiters ?i) (rqueue s)) w w2" by auto
  have "pending w2 (waiters ?i) (wqueue s)" by (rule pending_other[OF P(3,2) P(4)[symmetric] w2(6)])
  moreover have "unat (locked_shared ?i + 1) = readers s + 1"
    using assms unat_plus_one[of "locked_shared ?i"] by (simp add: shared_rel_def)
  moreover have "keeps (shared_roots ?i) w w2" by (rule shared_keeps(2)[OF assms(1) w2(2,6)])
  moreover have "keeps (shared_roots ?i) w (emit e w)" for e
    using P(1) by (intro keeps_same_nodes) simp_all
  ultimately show ?thesis
    unfolding basic_shared_mutex_async_lock_shared_def with_impl_def Let_def ok_bind
    by (intro scoped_ok[OF P(5)])
      (use n w2 assms(1) in \<open>auto simp: shared_rel_def shspec_async_lock_shared_def same_shared_def
         basic_op_model_construct_def add_shared_waiter_def\<close>)
qed

lemma shared_cancel_eq: "async_lock_shared_cancel = shared_async_lock_cancel"
  by (simp add: fun_eq_iff async_lock_shared_cancel_def shared_async_lock_cancel_def)

lemma shared_cancel_writer:
  assumes "shared_rel m w s" "wqueue s = ys @ (a, x) # zs" "type \<noteq> 0"
  shows "ok (shared_async_lock_cancel m a type w) (\<lambda>(u, m', w'). m' = m \<and>
    shared_rel m w' (s\<lparr>wqueue := ys @ zs\<rparr>) \<and> trace w' = trace w @ signals operation_aborted a x \<and>
    keeps (shared_roots m) w w')"
proof -
  note P = shared_relD[OF assms(1), unfolded assms(2)]
  from complete_pending[OF P(1,2)] obtain w' where w': "op_complete operation_aborted a w = Some w'" "world_ok w'"
    "pending w' (waiters m) (ys @ zs)" "trace w' = trace w @ signals operation_aborted a x" "brk w' = brk w"
    "untouched (queue_nodes (waiters m) (ys @ (a, x) # zs)) w w'" by metis
  have "pending w' (shared_waiters m) (rqueue s)" by (rule pending_other[OF P(2,3,4) w'(6)])
  moreover have "keeps (shared_roots m) w w'" using shared_keeps(1)[OF assms(1) w'(2)] w'(6) assms(2) by simp
  ultimately show ?thesis
    using w' assms unfolding shared_async_lock_cancel_def
    by (auto simp: shared_rel_def intro!: scoped_ok[OF P(5)])
qed

lemma shared_cancel_reader:
  assumes "shared_rel m w s" "rqueue s = ys @ (a, x) # zs" "type \<noteq> 0"
  shows "ok (shared_async_lock_cancel m a type w) (\<lambda>(u, m', w'). m' = m \<and>
    shared_rel m w' (s\<lparr>rqueue := ys @ zs\<rparr>) \<and> trace w' = trace w @ signals operation_aborted a x \<and>
    keeps (shared_roots m) w w')"
proof -
  note P = shared_relD[OF assms(1), unfolded assms(2)]
  from complete_pending[OF P(1,3)] obtain w' where w': "op_complete operation_aborted a w = Some w'" "world_ok w'"
    "pending w' (shared_waiters m) (ys @ zs)" "trace w' = trace w @ signals operation_aborted a x" "brk w' = brk w"
    "untouched (queue_nodes (shared_waiters m) (ys @ (a, x) # zs)) w w'" by metis
  have "pending w' (waiters m) (wqueue s)" by (rule pending_other[OF P(3,2) P(4)[symmetric] w'(6)])
  moreover have "keeps (shared_roots m) w w'" using shared_keeps(2)[OF assms(1) w'(2)] w'(6) assms(2) by simp
  ultimately show ?thesis
    using w' assms unfolding shared_async_lock_cancel_def
    by (auto simp: shared_rel_def intro!: scoped_ok[OF P(5)])
qed

lemma shared_ctor_ok:
  assumes "world_ok w" "registered w svc ms"
  shows "ok (basic_shared_mutex_ctor ex A ctx hint svc w) (\<lambda>(m, svc', w'). bsm_exec m = ex \<and> svc' = svc \<and>
    shared_rel (bsm_impl m) w' \<lparr>writer = False, readers = 0, wqueue = [], rqueue = [], shfresh = brk w + 3\<rparr> \<and>
    enabled (mtx (bsm_impl m)) = (\<not> is_single_threaded A ctx hint) \<and> sm_node (bsm_impl m) = brk w \<and>
    service (bsm_impl m) = Some (entries svc) \<and> registered w' svc (ms @ [brk w]) \<and> trace w' = trace w \<and>
    waiters (bsm_impl m) = Suc (brk w) \<and> shared_waiters (bsm_impl m) = brk w + 2 \<and>
    spares (set (entries svc # ms)) w w' \<and> {brk w, Suc (brk w), brk w + 2} \<inter> dom (nodes w) = {})"
proof (rule member_ctor[OF assms, of A ctx hint])
  fix sm w1 w2
  assume c: "service_member_ctor A ctx hint svc w = Some (sm, svc, w1)" "new_node w1 = (Suc (brk w), w2)"
    "sm_node sm = brk w" "service sm = Some (entries svc)" "idle (mtx sm)"
    "enabled (mtx sm) = (\<not> is_single_threaded A ctx hint)" and w2: "world_ok w2" "registered w2 svc (ms @ [brk w])"
    "pending w2 (Suc (brk w)) []" "trace w2 = trace w" "brk w2 = brk w + 2" "spares (set (entries svc # ms)) w w2"
    "{brk w, Suc (brk w)} \<inter> dom (nodes w) = {}"
  obtain r w3 where nw: "new_node w2 = (r, w3)" by force
  note n = new_node_ok[OF w2(1) nw]
  have "registered w3 svc (ms @ [brk w])" by (rule registered_untouched[OF w2(2) n(9)]) simp
  moreover have "pending w3 (Suc (brk w)) []" by (rule pending_untouched[OF w2(3) n(9)]) simp
  moreover have "spares (set (entries svc # ms)) w w3" using spares_trans[OF w2(6) spares_fresh[OF n(9)]] by simp
  moreover have "brk w + 2 \<notin> dom (nodes w)" using assms(1) by (auto simp: world_ok_def)
  ultimately show ?thesis using c w2 nw n pending_new_node[OF w2(1) nw]
    by (simp add: basic_shared_mutex_ctor_def shared_mutex_impl_ctor_def mutex_impl_ctor_def shared_rel_def
        service_member.defs mutex_impl.defs shared_mutex_impl.defs)
qed

text \<open>The destructor completes the shared requests first, then the exclusive ones.\<close>

lemma shared_dtor_ok:
  assumes "shared_rel m w s" "registered w svc (ms @ sm_node m # ns)" "service m = Some (entries svc)"
    and "shared_roots m \<inter> set (entries svc # ms @ sm_node m # ns) = {}"
  shows "ok (shared_mutex_impl_dtor m svc w) (\<lambda>(svc', w'). svc' = svc \<and> world_ok w' \<and> registered w' svc (ms @ ns) \<and>
    trace w' = trace w @ concat (map (\<lambda>(a, x). signals operation_aborted a x) (rqueue s @ wqueue s)) \<and>
    spares (shared_roots m \<union> set (entries svc # ms @ sm_node m # ns)) w w')"
proof -
  note P = shared_relD[OF assms(1)]
  from holder_dtor_ok[OF P(1,3)] obtain w1 where
    w1: "holder_dtor (shared_waiters m) w = Some w1" "world_ok w1"
      "drained (signals operation_aborted) operation_aborted (rqueue s) w w1"
      "untouched (queue_nodes (shared_waiters m) (rqueue s)) w w1" by (auto elim!: okE)
  have p1: "pending w1 (waiters m) (wqueue s)" by (rule pending_other[OF P(3,2) P(4)[symmetric] w1(4)])
  have r1: "registered w1 svc (ms @ sm_node m # ns)"
    by (rule registered_other[OF assms(2) P(3) _ w1(4)]) (use assms(4) in auto)
  have "waiters m \<notin> set (entries svc # ms @ sm_node m # ns)" using assms(4) by auto
  from member_dtor_ok[OF w1(2) p1 P(5) r1 assms(3) this] obtain w2 where
    w2: "do { w2 \<leftarrow> holder_dtor (waiters m) w1; service_member_dtor m svc w2 } = Some (svc, w2)" "world_ok w2"
      "registered w2 svc (ms @ ns)" "drained (signals operation_aborted) operation_aborted (wqueue s) w1 w2"
      "spares (insert (waiters m) (set (entries svc # ms @ sm_node m # ns))) w1 w2"
    by (auto elim!: okE)
  have "spares (shared_roots m \<union> set (entries svc # ms @ sm_node m # ns)) w w2"
    by (rule spares_mono[OF spares_trans[OF spares_queue[OF P(3) w1(4)] w2(5)]]) auto
  with w1 w2 show ?thesis
    by (simp add: shared_mutex_impl_dtor_def mutex_impl_dtor_def drained_def)
qed

text \<open>
  Moving a shared mutex moves both queues and copies the lock; the old object is unlocked, but keeps its
  reader count.
\<close>

lemma shared_move_ctor_ok:
  assumes "shared_rel (bsm_impl m) w s" "registered w svc ms" "service (bsm_impl m) = Some (entries svc)"
    and "shared_roots (bsm_impl m) \<inter> set (entries svc # ms) = {}"
  shows "ok (basic_shared_mutex_move_ctor m svc w) (\<lambda>(t, m', svc', w'). svc' = svc \<and> bsm_exec t = bsm_exec m \<and>
    shared_rel (bsm_impl t) w' (s\<lparr>shfresh := shfresh s + 3\<rparr>) \<and>
    shared_rel (bsm_impl m') w'
      \<lparr>writer = False, readers = readers s, wqueue = [], rqueue = [], shfresh = shfresh s + 3\<rparr> \<and>
    same_shared (bsm_impl m) (bsm_impl m') \<and> registered w' svc (ms @ [sm_node (bsm_impl t)]) \<and>
    trace w' = trace w \<and> service (bsm_impl t) = Some (entries svc) \<and> sm_node (bsm_impl t) = brk w \<and>
    waiters (bsm_impl t) = Suc (brk w) \<and> shared_waiters (bsm_impl t) = brk w + 2 \<and>
    spares (shared_roots (bsm_impl m) \<union> set (entries svc # ms)) w w')"
proof -
  let ?i = "bsm_impl m"
  note P = shared_relD[OF assms(1)]
  have nin: "waiters ?i \<notin> set (entries svc # ms)" using assms(4) by auto
  show ?thesis
  proof (rule member_move_ctor[OF P(1,2) assms(2,3) nin])
    fix t b w1 w2
    assume c: "service_member_move_ctor ?i svc w = Some (t, svc, w1)" "holder_move_ctor (waiters ?i) w1 = Some (b, w2)"
      "sm_node t = brk w" "service t = Some (entries svc)" "idle (mtx t)" "enabled (mtx t) = enabled (mtx ?i)"
      and w2: "world_ok w2" "registered w2 svc (ms @ [brk w])" "pending w2 b (wqueue s)" "pending w2 (waiters ?i) []"
      "trace w2 = trace w" "brk w2 = brk w + 2"
      "b = Suc (brk w)" "spares (insert (waiters ?i) (set (entries svc # ms))) w w2"
    have live: "shared_waiters ?i \<in> dom (nodes w)" using pending_live[OF P(3)] by simp
    then have b: "b \<noteq> shared_waiters ?i" using world_ok_fresh[OF P(1), of "shared_waiters ?i"] w2(7)
      world_ok_fresh[OF P(1), of b] by auto
    have n: "shared_waiters ?i \<notin> insert (waiters ?i) (set (entries svc # ms))" using assms(4) P(4) by auto
    have p: "pending w2 (shared_waiters ?i) (rqueue s)" by (rule sparesD[OF w2(8) P(3) n])
    from holder_move_ctor_ok[OF w2(1) p] obtain d w3 where
      w3: "holder_move_ctor (shared_waiters ?i) w2 = Some (d, w3)" "d = brk w2" "world_ok w3" "pending w3 d (rqueue s)"
        "pending w3 (shared_waiters ?i) []" "trace w3 = trace w2" "brk w3 = Suc (brk w2)"
        "untouched (queue_nodes (shared_waiters ?i) (rqueue s)) w2 w3"
      by (auto elim!: okE)
    have "pending w3 b (wqueue s)" by (rule pending_other[OF p w2(3) b[symmetric] w3(8)])
    moreover have "pending w3 (waiters ?i) []" by (rule pending_other[OF p w2(4) P(4)[symmetric] w3(8)])
    moreover have "brk w \<noteq> shared_waiters ?i" using live world_ok_fresh[OF P(1), of "brk w"] by auto
    then have "registered w3 svc (ms @ [brk w])" using n by (intro registered_other[OF w2(2) p _ w3(8)]) auto
    moreover have "spares (shared_roots ?i \<union> set (entries svc # ms)) w w3"
      by (rule spares_mono[OF spares_trans[OF w2(8) spares_queue[OF p w3(8)]]]) auto
    ultimately show ?thesis
      using c w2(5-7) w3(1-7) assms(1)
      by (auto simp: basic_shared_mutex_move_ctor_def shared_mutex_impl_move_ctor_def mutex_impl_move_ctor_def
          shared_rel_def same_shared_def service_member.defs mutex_impl.defs shared_mutex_impl.defs)
  qed
qed

end
