(* ===== verification/Shared_Mutex_Props.thy ===== *)
theory Shared_Mutex_Props
  imports Shared_Mutex_Impl
begin

section \<open>Properties of the shared mutex\<close>

text \<open>
  All interleavings of calls on one shared mutex, what holds in every reachable state, and
  what becomes of a blocking \<open>lock_shared\<close>.
\<close>

subsection \<open>Histories\<close>

text \<open>
  A state is the object, the world, the number of exclusive holders and the number of shared
  holders.  A caller gives back only what it was granted, and with the matching call.  A blocking
  \<open>lock_shared\<close> that has to wait joins the exclusive requests and becomes an exclusive holder; what it calls in the
  end is \<open>unlock_shared\<close>, which gives nothing back.  Reader counts stay below \<open>2^64\<close>.  A request is cancelled
  under the internal mutex of the object \<open>i\<close> in which it was made, which a move may have left behind.  Moving
  leaves the new object, which is held as the old one was, and the old one, which still counts its readers.
\<close>

inductive shared_action ::
  "basic_shared_mutex \<times> world \<times> nat \<times> nat \<Rightarrow> basic_shared_mutex \<times> world \<times> nat \<times> nat \<Rightarrow> bool" where
  try_lock: "basic_shared_mutex_try_lock m w = Some (b, m', w') \<Longrightarrow>
    shared_action (m, w, n, k) (m', w', n + of_bool b, k)"
| lock: "basic_shared_mutex_lock m success w = Some (r, m', w') \<Longrightarrow>
    shared_action (m, w, n, k) (m', w', n + of_bool (r = Returned success), k)"
| async_lock: "basic_shared_mutex_async_lock m h w = Some (u, m', w') \<Longrightarrow>
    shared_action (m, w, n, k) (m', w', n + grants w w', k)"
| unlock_to_readers: "pending w (shared_waiters (bsm_impl m)) q \<Longrightarrow> q \<noteq> [] \<Longrightarrow> length q < 2 ^ 64 \<Longrightarrow>
    basic_shared_mutex_unlock m w = Some (u, m', w') \<Longrightarrow>
    shared_action (m, w, Suc n, k) (m', w', n, k + grants w w')"
| unlock: "pending w (shared_waiters (bsm_impl m)) [] \<Longrightarrow> basic_shared_mutex_unlock m w = Some (u, m', w') \<Longrightarrow>
    shared_action (m, w, Suc n, k) (m', w', n + grants w w', k)"
| try_lock_shared: "k + 1 < 2 ^ 64 \<Longrightarrow> basic_shared_mutex_try_lock_shared m w = Some (b, m', w') \<Longrightarrow>
    shared_action (m, w, n, k) (m', w', n, k + of_bool b)"
| lock_shared: "k + 1 < 2 ^ 64 \<Longrightarrow> basic_shared_mutex_lock_shared m success w = Some (Returned ec, m', w') \<Longrightarrow>
    shared_action (m, w, n, k) (m', w', n, k + of_bool (ec = success))"
| lock_shared_blocks: "k + 1 < 2 ^ 64 \<Longrightarrow> basic_shared_mutex_lock_shared m success w = Some (Blocked a, m', w') \<Longrightarrow>
    shared_action (m, w, n, k) (m', w', n, k)"
| async_lock_shared: "k + 1 < 2 ^ 64 \<Longrightarrow> basic_shared_mutex_async_lock_shared m h w = Some (u, m', w') \<Longrightarrow>
    shared_action (m, w, n, k) (m', w', n, k + grants w w')"
| unlock_shared: "basic_shared_mutex_unlock_shared m w = Some (u, m', w') \<Longrightarrow>
    shared_action (m, w, n, Suc k) (m', w', n + grants w w', k)"
| unlock_shared_uncounted: "basic_shared_mutex_unlock_shared m w = Some (u, m', w') \<Longrightarrow>
    shared_action (m, w, Suc n, 0) (m', w', Suc n, 0)"
| cancel: "pending w (waiters (bsm_impl m)) q \<Longrightarrow> (a, x) \<in> set q \<Longrightarrow> op_slot x = Some s \<Longrightarrow> slots w s = Some a \<Longrightarrow>
    shared_async_lock_cancel i a type w = Some (u, i', w') \<Longrightarrow>
    shared_action (m, w, n, k) (m, w', n + grants w w', k)"
| cancel_shared: "pending w (shared_waiters (bsm_impl m)) q \<Longrightarrow> (a, x) \<in> set q \<Longrightarrow> op_slot x = Some s \<Longrightarrow>
    slots w s = Some a \<Longrightarrow> async_lock_shared_cancel i a type w = Some (u, i', w') \<Longrightarrow>
    shared_action (m, w, n, k) (m, w', n, k + grants w w')"

inductive shared_step ::
  "basic_shared_mutex \<times> world \<times> nat \<times> nat \<Rightarrow> basic_shared_mutex \<times> world \<times> nat \<times> nat \<Rightarrow> bool" where
  call: "shared_action c c' \<Longrightarrow> shared_step c c'"
| other: "world_ok w' \<Longrightarrow> \<forall>q. pending w (waiters (bsm_impl m)) q \<longrightarrow> pending w' (waiters (bsm_impl m)) q \<Longrightarrow>
    \<forall>q. pending w (shared_waiters (bsm_impl m)) q \<longrightarrow> pending w' (shared_waiters (bsm_impl m)) q \<Longrightarrow>
    shared_step (m, w, n, k) (m, w', n, k)"

inductive shared_reachable :: "basic_shared_mutex \<times> world \<times> nat \<times> nat \<Rightarrow> bool" where
  init: "world_ok w \<Longrightarrow> registered w svc ms \<Longrightarrow>
    basic_shared_mutex_ctor ex A ctx hint svc w = Some (m, svc', w') \<Longrightarrow> shared_reachable (m, w', 0, 0)"
| step: "shared_reachable c \<Longrightarrow> shared_step c c' \<Longrightarrow> shared_reachable c'"
| move: "shared_reachable (m, w, n, k) \<Longrightarrow> registered w svc ms \<Longrightarrow> service (bsm_impl m) = Some (entries svc) \<Longrightarrow>
    shared_roots (bsm_impl m) \<inter> set (entries svc # ms) = {} \<Longrightarrow>
    basic_shared_mutex_move_ctor m svc w = Some (t, m', svc', w') \<Longrightarrow>
    c = (t, w', n, k) \<or> c = (m', w', 0, k) \<Longrightarrow> shared_reachable c"

fun shared_inv :: "basic_shared_mutex \<times> world \<times> nat \<times> nat \<Rightarrow> bool" where
  "shared_inv (m, w, n, k) \<longleftrightarrow> (\<exists>s. shared_rel (bsm_impl m) w s \<and> n = of_bool (writer s) \<and> k = readers s)"

lemma shared_invI:
  "shared_rel (bsm_impl m) w s \<Longrightarrow> n = of_bool (writer s) \<Longrightarrow> k = readers s \<Longrightarrow> shared_inv (m, w, n, k)"
  by auto

lemma of_bool_Suc: "Suc n = of_bool b \<longleftrightarrow> b \<and> n = 0"
  by (cases b) auto

lemma granted_all: "length (filter granted_event (concat (map (\<lambda>(a, x). signals success a x) q))) = length q"
  by (induction q) (auto simp: case_prod_unfold)

text \<open>Every call preserves the invariant.\<close>

lemma shared_try_lock_inv:
  assumes "basic_shared_mutex_try_lock m w = Some (b, m', w')"
    and "shared_inv (m, w, n, k)"
  shows "shared_inv (m', w', n + of_bool b, k)"
proof -
  from assms obtain s where s: "shared_rel (bsm_impl m) w s" "n = of_bool (writer s)" "k = readers s" by auto
  from shared_try_lock_refines[OF s(1)] assms(1)
  have "shared_rel (bsm_impl m') w' (snd (shspec_try_lock s))" "b = fst (shspec_try_lock s)"
    by (auto simp: basic_shared_mutex_try_lock_def with_impl_def elim!: okE)
  then show ?thesis by (elim shared_invI) (use s in \<open>auto simp: shspec_try_lock_def\<close>)
qed

lemma shared_lock_inv:
  assumes "basic_shared_mutex_lock m success w = Some (r, m', w')"
    and "shared_inv (m, w, n, k)"
  shows "shared_inv (m', w', n + of_bool (r = Returned success), k)"
proof -
  from assms obtain s where s: "shared_rel (bsm_impl m) w s" "n = of_bool (writer s)" "k = readers s" by auto
  let ?L = "shspec_lock (enabled (mtx (bsm_impl m))) success s"
  from shared_lock_refines[OF s(1), of success] assms(1)
  have "shared_rel (bsm_impl m') w' (snd ?L)" "r = fst ?L"
    by (auto simp: basic_shared_mutex_lock_def with_impl_def elim!: okE)
  then show ?thesis by (elim shared_invI) (use s in \<open>auto simp: shspec_lock_def shspec_block_def\<close>)
qed

lemma shared_async_lock_inv:
  assumes "basic_shared_mutex_async_lock m h w = Some (u, m', w')"
    and "shared_inv (m, w, n, k)"
  shows "shared_inv (m', w', n + grants w w', k)"
proof -
  from assms obtain s where s: "shared_rel (bsm_impl m) w s" "n = of_bool (writer s)" "k = readers s" by auto
  let ?L = "shspec_async_lock (bsm_exec m) h s"
  from shared_async_lock_refines[OF s(1), of h] assms(1)
  have "shared_rel (bsm_impl m') w' (fst ?L)" "trace w' = trace w @ snd ?L" by (auto elim!: okE)
  then show ?thesis by (elim shared_invI) (use s in \<open>auto simp: shspec_async_lock_def\<close>)
qed

lemma shared_unlock_to_readers_inv:
  assumes "pending w (shared_waiters (bsm_impl m)) q" "q \<noteq> []" "length q < 2 ^ 64"
    "basic_shared_mutex_unlock m w = Some (u, m', w')"
    and "shared_inv (m, w, Suc n, k)"
  shows "shared_inv (m', w', n, k + grants w w')"
proof -
  from assms obtain s where s: "shared_rel (bsm_impl m) w s" "writer s" "n = 0" "k = readers s"
    by (auto simp: of_bool_Suc)
  have q: "rqueue s = q" using s(1) assms(1) by (auto simp: shared_rel_def intro: pending_unique)
  from shared_unlock_refines[OF s(1,2)] assms(3,4) q
  have "shared_rel (bsm_impl m') w' (fst (shspec_unlock s))" "trace w' = trace w @ snd (shspec_unlock s)"
    by (auto simp: basic_shared_mutex_unlock_def with_impl_def elim!: okE)
  then show ?thesis
    by (elim shared_invI) (use s q assms(2) in \<open>simp_all add: shspec_unlock_def granted_all\<close>)
qed

lemma shared_unlock_inv:
  assumes "pending w (shared_waiters (bsm_impl m)) []" "basic_shared_mutex_unlock m w = Some (u, m', w')"
    and "shared_inv (m, w, Suc n, k)"
  shows "shared_inv (m', w', n + grants w w', k)"
proof -
  from assms obtain s where s: "shared_rel (bsm_impl m) w s" "writer s" "n = 0" "k = readers s"
    by (auto simp: of_bool_Suc)
  have q: "rqueue s = []" using s(1) assms(1) by (auto simp: shared_rel_def intro: pending_unique)
  from shared_unlock_refines[OF s(1,2)] assms(2) q
  have "shared_rel (bsm_impl m') w' (fst (shspec_unlock s))" "trace w' = trace w @ snd (shspec_unlock s)"
    by (auto simp: basic_shared_mutex_unlock_def with_impl_def elim!: okE)
  then show ?thesis
    by (elim shared_invI) (use s q in \<open>auto simp: shspec_unlock_def split: list.splits\<close>)
qed

lemma shared_try_lock_shared_inv:
  assumes "k + 1 < 2 ^ 64" "basic_shared_mutex_try_lock_shared m w = Some (b, m', w')"
    and "shared_inv (m, w, n, k)"
  shows "shared_inv (m', w', n, k + of_bool b)"
proof -
  from assms obtain s where s: "shared_rel (bsm_impl m) w s" "n = of_bool (writer s)" "k = readers s" by auto
  from shared_try_lock_shared_refines[OF s(1)] assms(1,2) s(3)
  have "shared_rel (bsm_impl m') w' (snd (shspec_try_lock_shared s))" "b = fst (shspec_try_lock_shared s)"
    by (auto simp: basic_shared_mutex_try_lock_shared_def with_impl_def elim!: okE)
  then show ?thesis by (elim shared_invI) (use s in \<open>auto simp: shspec_try_lock_shared_def\<close>)
qed

lemma shared_lock_shared_inv:
  assumes "k + 1 < 2 ^ 64" "basic_shared_mutex_lock_shared m success w = Some (Returned ec, m', w')"
    and "shared_inv (m, w, n, k)"
  shows "shared_inv (m', w', n, k + of_bool (ec = success))"
proof -
  from assms obtain s where s: "shared_rel (bsm_impl m) w s" "n = of_bool (writer s)" "k = readers s" by auto
  let ?L = "shspec_lock_shared (enabled (mtx (bsm_impl m))) success s"
  from shared_lock_shared_refines[OF s(1), of success] assms(1,2) s(3)
  have "shared_rel (bsm_impl m') w' (snd ?L)" "Returned ec = fst ?L"
    by (auto simp: basic_shared_mutex_lock_shared_def with_impl_def elim!: okE)
  then show ?thesis
    by (elim shared_invI) (use s in \<open>auto simp: shspec_lock_shared_def shspec_block_def split: if_splits\<close>)
qed

lemma shared_lock_shared_blocks_inv:
  assumes "k + 1 < 2 ^ 64" "basic_shared_mutex_lock_shared m success w = Some (Blocked a, m', w')"
    and "shared_inv (m, w, n, k)"
  shows "shared_inv (m', w', n, k)"
proof -
  from assms obtain s where s: "shared_rel (bsm_impl m) w s" "n = of_bool (writer s)" "k = readers s" by auto
  let ?L = "shspec_lock_shared (enabled (mtx (bsm_impl m))) success s"
  from shared_lock_shared_refines[OF s(1), of success] assms(1,2) s(3)
  have "shared_rel (bsm_impl m') w' (snd ?L)" "Blocked a = fst ?L"
    by (auto simp: basic_shared_mutex_lock_shared_def with_impl_def elim!: okE)
  then show ?thesis
    by (elim shared_invI) (use s in \<open>auto simp: shspec_lock_shared_def shspec_block_def split: if_splits\<close>)
qed

lemma shared_async_lock_shared_inv:
  assumes "k + 1 < 2 ^ 64" "basic_shared_mutex_async_lock_shared m h w = Some (u, m', w')"
    and "shared_inv (m, w, n, k)"
  shows "shared_inv (m', w', n, k + grants w w')"
proof -
  from assms obtain s where s: "shared_rel (bsm_impl m) w s" "n = of_bool (writer s)" "k = readers s" by auto
  let ?L = "shspec_async_lock_shared (bsm_exec m) h s"
  from shared_async_lock_shared_refines[OF s(1), of h] assms(1,2) s(3)
  have "shared_rel (bsm_impl m') w' (fst ?L)" "trace w' = trace w @ snd ?L" by (auto elim!: okE)
  then show ?thesis by (elim shared_invI) (use s in \<open>auto simp: shspec_async_lock_shared_def\<close>)
qed

lemma shared_unlock_shared_inv:
  assumes "basic_shared_mutex_unlock_shared m w = Some (u, m', w')"
    and "shared_inv (m, w, n, Suc k)"
  shows "shared_inv (m', w', n + grants w w', k)"
proof -
  from assms obtain s where s: "shared_rel (bsm_impl m) w s" "n = of_bool (writer s)" "Suc k = readers s" by auto
  then have n: "n = 0" "readers s > 0" by (auto simp: shared_rel_def)
  from shared_unlock_shared_refines[OF s(1) n(2)] assms(1)
  have "shared_rel (bsm_impl m') w' (fst (shspec_unlock_shared s))"
    "trace w' = trace w @ snd (shspec_unlock_shared s)"
    by (auto simp: basic_shared_mutex_unlock_shared_def with_impl_def elim!: okE)
  then show ?thesis
    by (elim shared_invI) (use s n in \<open>auto simp: shspec_unlock_shared_def split: list.splits\<close>)
qed

lemma shared_unlock_shared_uncounted_inv:
  assumes "basic_shared_mutex_unlock_shared m w = Some (u, m', w')"
    and "shared_inv (m, w, Suc n, 0)"
  shows "shared_inv (m', w', Suc n, 0)"
proof -
  from assms(2) obtain s where s: "shared_rel (bsm_impl m) w s" "writer s" "n = 0" "readers s = 0"
    by (auto simp: of_bool_Suc)
  with shared_unlock_shared_uncounted[OF s(1,2)] assms(1) show ?thesis
    by (cases "wqueue s") (fastforce simp: basic_shared_mutex_unlock_shared_def with_impl_def elim!: okE
      intro: shared_invI split: list.splits)+
qed

lemma shared_cancel_elsewhere:
  "shared_async_lock_cancel i a type w = Some (u, i', w') \<Longrightarrow> idle (mtx m) \<Longrightarrow>
   shared_async_lock_cancel m a type w = Some ((), m, w')"
  unfolding shared_async_lock_cancel_def by (auto intro: scoped_elsewhere split: if_splits)

lemma shared_cancel_inv:
  assumes "pending w (waiters (bsm_impl m)) q" "(a, x) \<in> set q" "op_slot x = Some sl" "slots w sl = Some a"
    "shared_async_lock_cancel i a type w = Some (u, i', w')"
    and "shared_inv (m, w, n, k)"
  shows "shared_inv (m, w', n + grants w w', k)"
proof -
  from assms obtain s where s: "shared_rel (bsm_impl m) w s" "n = of_bool (writer s)" "k = readers s" by auto
  then have "q = wqueue s" using assms(1) by (auto simp: shared_rel_def intro: pending_unique)
  with assms(2) obtain ys zs where q: "wqueue s = ys @ (a, x) # zs" by (metis split_list)
  have c: "shared_async_lock_cancel (bsm_impl m) a type w = Some ((), bsm_impl m, w')"
    by (rule shared_cancel_elsewhere[OF assms(5)]) (use s(1) in \<open>simp add: shared_rel_def\<close>)
  show ?thesis
  proof (cases "type = 0")
    case True
    with c s show ?thesis by (auto simp: shared_async_lock_cancel_def)
  next
    case False
    from shared_cancel_writer[OF s(1) q False] c
    have "shared_rel (bsm_impl m) w' (s\<lparr>wqueue := ys @ zs\<rparr>)" "trace w' = trace w @ signals operation_aborted a x"
      by (auto elim!: okE)
    with s show ?thesis by (intro shared_invI[of _ _ "s\<lparr>wqueue := ys @ zs\<rparr>"]) auto
  qed
qed

lemma shared_cancel_shared_inv:
  assumes "pending w (shared_waiters (bsm_impl m)) q" "(a, x) \<in> set q" "op_slot x = Some sl" "slots w sl = Some a"
    "async_lock_shared_cancel i a type w = Some (u, i', w')"
    and "shared_inv (m, w, n, k)"
  shows "shared_inv (m, w', n, k + grants w w')"
proof -
  from assms obtain s where s: "shared_rel (bsm_impl m) w s" "n = of_bool (writer s)" "k = readers s" by auto
  then have "q = rqueue s" using assms(1) by (auto simp: shared_rel_def intro: pending_unique)
  with assms(2) obtain ys zs where q: "rqueue s = ys @ (a, x) # zs" by (metis split_list)
  have c: "shared_async_lock_cancel (bsm_impl m) a type w = Some ((), bsm_impl m, w')"
    by (rule shared_cancel_elsewhere[OF assms(5)[unfolded shared_cancel_eq]]) (use s(1) in \<open>simp add: shared_rel_def\<close>)
  show ?thesis
  proof (cases "type = 0")
    case True
    with c s show ?thesis by (auto simp: shared_async_lock_cancel_def)
  next
    case False
    from shared_cancel_reader[OF s(1) q False] c
    have "shared_rel (bsm_impl m) w' (s\<lparr>rqueue := ys @ zs\<rparr>)" "trace w' = trace w @ signals operation_aborted a x"
      by (auto simp: shared_cancel_eq elim!: okE)
    with s show ?thesis by (intro shared_invI[of _ _ "s\<lparr>rqueue := ys @ zs\<rparr>"]) auto
  qed
qed

lemma shared_other_inv:
  assumes "world_ok w'"
    "\<forall>q. pending w (waiters (bsm_impl m)) q \<longrightarrow> pending w' (waiters (bsm_impl m)) q"
    "\<forall>q. pending w (shared_waiters (bsm_impl m)) q \<longrightarrow> pending w' (shared_waiters (bsm_impl m)) q"
    and "shared_inv (m, w, n, k)"
  shows "shared_inv (m, w', n, k)"
proof -
  from assms obtain s where s: "shared_rel (bsm_impl m) w s" "n = of_bool (writer s)" "k = readers s" by auto
  with assms show ?thesis by (intro shared_invI[of _ _ "s\<lparr>shfresh := brk w'\<rparr>"]) (auto simp: shared_rel_def)
qed

lemmas shared_calls_inv =
  shared_try_lock_inv shared_lock_inv shared_async_lock_inv
  shared_unlock_to_readers_inv shared_unlock_inv shared_try_lock_shared_inv
  shared_lock_shared_inv shared_lock_shared_blocks_inv shared_async_lock_shared_inv shared_unlock_shared_inv
  shared_unlock_shared_uncounted_inv
  shared_cancel_inv shared_cancel_shared_inv

lemma shared_action_inv:
  assumes "shared_action c c'" "shared_inv c"
  shows "shared_inv c'"
  using assms by (induction rule: shared_action.induct) (blast intro: shared_calls_inv)+

lemma shared_step_inv:
  assumes "shared_step c c'" "shared_inv c"
  shows "shared_inv c'"
  using assms by (induction rule: shared_step.induct) (blast intro: shared_action_inv shared_other_inv)+

lemma shared_reachable_inv: "shared_reachable c \<Longrightarrow> shared_inv c"
proof (induction rule: shared_reachable.induct)
  case (init w svc ms ex A ctx hint m svc' w')
  from shared_ctor_ok[OF init(1,2), of ex A ctx hint] init(3) show ?case by (fastforce elim!: okE)
next
  case (move m w n k svc ms t m' svc' w' c)
  then obtain s where s: "shared_rel (bsm_impl m) w s" "n = of_bool (writer s)" "k = readers s" by auto
  from shared_move_ctor_ok[OF s(1) move(2-4)] move(5,6) s(2,3) show ?case by (fastforce elim!: okE)
qed (blast intro: shared_step_inv)

text \<open>Every call stays within the lists of the object and keeps its identity.\<close>

lemma shared_action_local:
  assumes "shared_action (m, w, n, k) (m', w', n', k')" "shared_inv (m, w, n, k)"
  shows "same_shared (bsm_impl m) (bsm_impl m') \<and> keeps (shared_roots (bsm_impl m)) w w'"
proof -
  from assms(2) obtain s where s: "shared_rel (bsm_impl m) w s" "n = of_bool (writer s)" "k = readers s" by auto
  note W = shared_relD(1)[OF s(1)]
  note defs = basic_shared_mutex_try_lock_def basic_shared_mutex_lock_def basic_shared_mutex_unlock_def
    basic_shared_mutex_try_lock_shared_def basic_shared_mutex_lock_shared_def basic_shared_mutex_unlock_shared_def
    with_impl_def
  show ?thesis using assms(1)
  proof (cases rule: shared_action.cases)
    case (try_lock b)
    with shared_try_lock_refines[OF s(1)] W show ?thesis by (auto simp: defs elim!: okE)
  next
    case (lock r)
    with shared_lock_refines[OF s(1), of success] show ?thesis by (auto simp: defs elim!: okE)
  next
    case (async_lock h u)
    with shared_async_lock_refines[OF s(1), of h] show ?thesis by (auto elim!: okE)
  next
    case (unlock_to_readers q u)
    with shared_unlock_refines[OF s(1)] s pending_unique[OF _ shared_relD(3)[OF s(1)]]
    show ?thesis by (fastforce simp: defs of_bool_Suc elim!: okE)
  next
    case (unlock u)
    with shared_unlock_refines[OF s(1)] s pending_unique[OF _ shared_relD(3)[OF s(1)]]
    show ?thesis by (fastforce simp: defs of_bool_Suc elim!: okE)
  next
    case (try_lock_shared b)
    with shared_try_lock_shared_refines[OF s(1)] W s(3) show ?thesis by (auto simp: defs elim!: okE)
  next
    case (lock_shared ec)
    with shared_lock_shared_refines[OF s(1), of success] s(3) show ?thesis by (auto simp: defs elim!: okE)
  next
    case (async_lock_shared h u)
    with shared_async_lock_shared_refines[OF s(1), of h] s(3) show ?thesis by (auto elim!: okE)
  next
    case (unlock_shared u)
    with shared_unlock_shared_refines[OF s(1)] s(3) show ?thesis by (auto simp: defs elim!: okE)
  next
    case (lock_shared_blocks a)
    with shared_lock_shared_refines[OF s(1), of success] s(3) show ?thesis by (auto simp: defs elim!: okE)
  next
    case (unlock_shared_uncounted u)
    with shared_unlock_shared_uncounted[OF s(1)] s(2) show ?thesis by (auto simp: defs of_bool_Suc elim!: okE)
  next
    case (cancel q a x sl i type u i')
    have "q = wqueue s" using cancel(4) shared_relD(2)[OF s(1)] by (rule pending_unique)
    with cancel(5) obtain ys zs where q: "wqueue s = ys @ (a, x) # zs" by (metis split_list)
    from shared_cancel_elsewhere[OF cancel(8) shared_relD(5)[OF s(1)]] cancel(1) shared_cancel_writer[OF s(1) q, of type] W show ?thesis
      by (cases "type = 0") (auto simp: shared_async_lock_cancel_def same_shared_def elim!: okE)
  next
    case (cancel_shared q a x sl i type u i')
    have "q = rqueue s" using cancel_shared(4) shared_relD(3)[OF s(1)] by (rule pending_unique)
    with cancel_shared(5) obtain ys zs where q: "rqueue s = ys @ (a, x) # zs" by (metis split_list)
    from shared_cancel_elsewhere[OF cancel_shared(8)[unfolded shared_cancel_eq] shared_relD(5)[OF s(1)]] cancel_shared(1)
      shared_cancel_reader[OF s(1) q, of type] W show ?thesis
      by (cases "type = 0") (auto simp: shared_cancel_eq shared_async_lock_cancel_def same_shared_def elim!: okE)
  qed
qed

subsection \<open>Sequences of calls\<close>

datatype shared_call =
    Call_try_lock
  | Call_lock error_code
  | Call_async_lock handler
  | Call_unlock
  | Call_try_lock_shared
  | Call_lock_shared error_code
  | Call_async_lock_shared handler
  | Call_unlock_shared

fun shared_exec :: "shared_call \<Rightarrow> basic_shared_mutex \<Rightarrow> world \<Rightarrow> (call_result \<times> basic_shared_mutex \<times> world) option" where
  "shared_exec Call_try_lock m w = do { (b, m, w) \<leftarrow> basic_shared_mutex_try_lock m w; Some (Bool_result b, m, w) }"
| "shared_exec (Call_lock ec) m w = do { (r, m, w) \<leftarrow> basic_shared_mutex_lock m ec w; Some (Code_result r, m, w) }"
| "shared_exec (Call_async_lock h) m w = do { (u, m, w) \<leftarrow> basic_shared_mutex_async_lock m h w; Some (No_result, m, w) }"
| "shared_exec Call_unlock m w = do { (u, m, w) \<leftarrow> basic_shared_mutex_unlock m w; Some (No_result, m, w) }"
| "shared_exec Call_try_lock_shared m w = do {
     (b, m, w) \<leftarrow> basic_shared_mutex_try_lock_shared m w; Some (Bool_result b, m, w) }"
| "shared_exec (Call_lock_shared ec) m w = do {
     (r, m, w) \<leftarrow> basic_shared_mutex_lock_shared m ec w; Some (Code_result r, m, w) }"
| "shared_exec (Call_async_lock_shared h) m w = do {
     (u, m, w) \<leftarrow> basic_shared_mutex_async_lock_shared m h w; Some (No_result, m, w) }"
| "shared_exec Call_unlock_shared m w = do { (u, m, w) \<leftarrow> basic_shared_mutex_unlock_shared m w; Some (No_result, m, w) }"

fun shspec_exec :: "bool \<Rightarrow> executor \<Rightarrow> shared_call \<Rightarrow> shared_spec \<Rightarrow> call_result \<times> shared_spec \<times> event list" where
  "shspec_exec multi ex Call_try_lock s = (let (b, s) = shspec_try_lock s in (Bool_result b, s, []))"
| "shspec_exec multi ex (Call_lock ec) s = (let (r, s) = shspec_lock multi ec s in (Code_result r, s, []))"
| "shspec_exec multi ex (Call_async_lock h) s = (No_result, shspec_async_lock ex h s)"
| "shspec_exec multi ex Call_unlock s = (No_result, shspec_unlock s)"
| "shspec_exec multi ex Call_try_lock_shared s = (let (b, s) = shspec_try_lock_shared s in (Bool_result b, s, []))"
| "shspec_exec multi ex (Call_lock_shared ec) s = (let (r, s) = shspec_lock_shared multi ec s in (Code_result r, s, []))"
| "shspec_exec multi ex (Call_async_lock_shared h) s = (No_result, shspec_async_lock_shared ex h s)"
| "shspec_exec multi ex Call_unlock_shared s = (No_result, shspec_unlock_shared s)"

text \<open>Only what is held is released, in the way it is held, and the reader count stays below \<open>2^64\<close>.\<close>

fun shared_legal :: "shared_call \<Rightarrow> shared_spec \<Rightarrow> bool" where
  "shared_legal Call_unlock s \<longleftrightarrow> writer s \<and> length (rqueue s) < 2 ^ 64"
| "shared_legal Call_unlock_shared s \<longleftrightarrow> readers s > 0"
| "shared_legal Call_try_lock_shared s \<longleftrightarrow> readers s + 1 < 2 ^ 64"
| "shared_legal (Call_lock_shared ec) s \<longleftrightarrow> readers s + 1 < 2 ^ 64"
| "shared_legal (Call_async_lock_shared h) s \<longleftrightarrow> readers s + 1 < 2 ^ 64"
| "shared_legal _ s \<longleftrightarrow> True"

abbreviation "shared_run \<equiv> run_calls shared_exec"

abbreviation "shspec_run multi ex \<equiv> run_spec (shspec_exec multi ex)"

interpretation shared_calls: refined_calls shared_exec shspec_exec shared_legal
    "\<lambda>m. shared_rel (bsm_impl m)" "\<lambda>m. enabled (mtx (bsm_impl m))" bsm_exec
proof (unfold_locales, goal_cases)
  case (1 m w s c)
  note d = basic_shared_mutex_try_lock_def basic_shared_mutex_lock_def basic_shared_mutex_unlock_def
    basic_shared_mutex_try_lock_shared_def basic_shared_mutex_lock_shared_def basic_shared_mutex_unlock_shared_def
    with_impl_def same_sharedD
  show ?case
  proof (cases c)
    case Call_try_lock
    with shared_try_lock_refines[OF 1(1)] show ?thesis by (auto simp: d elim!: okE split: prod.splits)
  next
    case (Call_lock ec)
    with shared_lock_refines[OF 1(1), of ec] show ?thesis by (auto simp: d elim!: okE split: prod.splits)
  next
    case (Call_async_lock h)
    with shared_async_lock_refines[OF 1(1), of h] show ?thesis by (auto simp: d elim!: okE split: prod.splits)
  next
    case Call_unlock
    with shared_unlock_refines[OF 1(1)] 1(2) show ?thesis by (auto simp: d elim!: okE split: prod.splits)
  next
    case Call_try_lock_shared
    with shared_try_lock_shared_refines[OF 1(1)] 1(2) show ?thesis by (auto simp: d elim!: okE split: prod.splits)
  next
    case (Call_lock_shared ec)
    with shared_lock_shared_refines[OF 1(1), of ec] 1(2) show ?thesis by (auto simp: d elim!: okE split: prod.splits)
  next
    case (Call_async_lock_shared h)
    with shared_async_lock_shared_refines[OF 1(1), of h] 1(2) show ?thesis by (auto simp: d elim!: okE split: prod.splits)
  next
    case Call_unlock_shared
    with shared_unlock_shared_refines[OF 1(1)] 1(2) show ?thesis by (auto simp: d elim!: okE split: prod.splits)
  qed
qed

subsection \<open>The shared mutex among other primitives\<close>

text \<open>A shared mutex with the numbers of its exclusive and of its shared holders.\<close>

type_synonym shared_held = "basic_shared_mutex \<times> nat \<times> nat"

fun shared_history :: "shared_held \<Rightarrow> world \<Rightarrow> bool" where
  "shared_history (m, n, k) w = shared_reachable (m, w, n, k)"

fun shared_acts :: "shared_held \<times> world \<Rightarrow> shared_held \<times> world \<Rightarrow> bool" where
  "shared_acts ((m, n, k), w) ((m', n', k'), w') = shared_action (m, w, n, k) (m', w', n', k')"

fun shared_mutex_roots :: "shared_held \<Rightarrow> addr list" where
  "shared_mutex_roots (m, n, k) = [waiters (bsm_impl m), shared_waiters (bsm_impl m)]"

fun shared_base :: "shared_held \<Rightarrow> service_member" where
  "shared_base (m, n, k) = service_member.truncate (bsm_impl m)"

fun shared_new :: "op_list_service \<times> world \<Rightarrow> shared_held \<times> op_list_service \<times> world \<Rightarrow> bool" where
  "shared_new (svc, w) ((m, n, k), svc', w') \<longleftrightarrow> n = 0 \<and> k = 0 \<and>
     (\<exists>ex A ctx hint. basic_shared_mutex_ctor ex A ctx hint svc w = Some (m, svc', w'))"

fun shared_delete :: "shared_held \<Rightarrow> op_list_service \<Rightarrow> world \<Rightarrow> (op_list_service \<times> world) option" where
  "shared_delete (m, n, k) svc w = shared_mutex_impl_dtor (bsm_impl m) svc w"

fun shared_move :: "shared_held \<Rightarrow> op_list_service \<Rightarrow> world \<Rightarrow> (shared_held \<times> shared_held \<times> op_list_service \<times> world) option" where
  "shared_move (m, n, k) svc w = do {
     (t, m, svc, w) \<leftarrow> basic_shared_mutex_move_ctor m svc w;
     Some ((t, n, k), (m, 0, k), svc, w) }"

lemma same_shared_base:
  assumes "same_shared m m'"
  shows "service_member.truncate m' = service_member.truncate m"
  using assms[unfolded same_shared_def, THEN arg_cong, of service_member.truncate]
  by (simp add: service_member.defs)

lemma shared_reachable_rel:
  assumes "shared_reachable (m, w, n, k)"
  obtains s where "shared_rel (bsm_impl m) w s"
  using shared_reachable_inv[OF assms] by auto

interpretation shared_shared: shared_primitive shared_history shared_acts shared_mutex_roots shared_base shared_new
  shared_delete shared_move
proof (unfold_locales, goal_cases)
  case (1 p w r)
  then show ?case by (cases p) (auto elim!: shared_reachable_rel intro: shared_relD(2,3))
next
  case (2 p w p' w')
  obtain m n k m' n' k' where p: "p = (m, n, k)" "p' = (m', n', k')" by (metis prod_cases3)
  with 2 have a: "shared_reachable (m, w, n, k)" "shared_action (m, w, n, k) (m', w', n', k')" by simp_all
  with shared_action_local[OF a(2) shared_reachable_inv[OF a(1)]] p show ?case
    by (auto simp: same_sharedD same_shared_base intro: shared_reachable.step shared_step.call)
next
  case (3 p w w')
  then show ?case by (cases p) (auto intro: shared_reachable.step shared_step.other)
next
  case (4 w svc ms p svc' w')
  obtain m n k where p: "p = (m, n, k)" by (metis prod_cases3)
  with 4 obtain ex A ctx hint where c: "basic_shared_mutex_ctor ex A ctx hint svc w = Some (m, svc', w')"
    "n = 0" "k = 0" by auto
  have "shared_reachable (m, w', 0, 0)" by (rule shared_reachable.init[OF 4(1,2) c(1)])
  with shared_ctor_ok[OF 4(1,2), of ex A ctx hint] c p show ?case
    by (auto simp: service_member.defs shared_rel_def)
next
  case (5 p w svc ms ns)
  obtain m n k where p: "p = (m, n, k)" by (metis prod_cases3)
  with 5(1) obtain s where s: "shared_rel (bsm_impl m) w s" by (auto elim: shared_reachable_rel)
  have "registered w svc (ms @ sm_node (bsm_impl m) # ns)" "service (bsm_impl m) = Some (entries svc)"
    "shared_roots (bsm_impl m) \<inter> set (entries svc # ms @ sm_node (bsm_impl m) # ns) = {}"
    using 5 p by (auto simp: service_member.defs)
  from shared_dtor_ok[OF s this] p show ?case by (auto simp: service_member.defs insert_commute elim!: ok_conseq)
next
  case (6 p w svc ms)
  obtain m n k where p: "p = (m, n, k)" by (metis prod_cases3)
  with 6(1) obtain s where s: "shared_rel (bsm_impl m) w s" by (auto elim: shared_reachable_rel)
  have r: "shared_reachable (m, w, n, k)" "service (bsm_impl m) = Some (entries svc)"
    "shared_roots (bsm_impl m) \<inter> set (entries svc # ms) = {}"
    using 6 p by (auto simp: service_member.defs)
  note reach = shared_reachable.move[OF r(1) 6(2) r(2,3)]
  from shared_move_ctor_ok[OF s 6(2) r(2,3)] obtain t m' w' where
    "basic_shared_mutex_move_ctor m svc w = Some (t, m', svc, w')" "shared_rel (bsm_impl t) w' (s\<lparr>shfresh := shfresh s + 3\<rparr>)"
    "shared_rel (bsm_impl m') w'
      \<lparr>writer = False, readers = readers s, wqueue = [], rqueue = [], shfresh = shfresh s + 3\<rparr>"
    "same_shared (bsm_impl m) (bsm_impl m')" "registered w' svc (ms @ [sm_node (bsm_impl t)])" "trace w' = trace w"
    "service (bsm_impl t) = Some (entries svc)" "sm_node (bsm_impl t) = brk w" "waiters (bsm_impl t) = Suc (brk w)"
    "shared_waiters (bsm_impl t) = brk w + 2" "spares (shared_roots (bsm_impl m) \<union> set (entries svc # ms)) w w'"
    by (auto elim!: okE)
  moreover have "brk w \<notin> dom (nodes w)" "Suc (brk w) \<notin> dom (nodes w)" "brk w + 2 \<notin> dom (nodes w)"
    using world_ok_fresh[OF shared_relD(1)[OF s]] by simp_all
  ultimately show ?case using p s reach same_shared_base[of "bsm_impl m" "bsm_impl m'"] same_sharedD[of "bsm_impl m" "bsm_impl m'"]
    by (auto simp: service_member.defs insert_commute shared_rel_def intro: carriedI)
next
  case (7 p w)
  then show ?case by (cases p) (auto simp: service_member.defs shared_rel_def elim!: shared_reachable_rel)
qed

subsection \<open>A shared mutex to start from\<close>

text \<open>
  An unused shared mutex; then held exclusively with an exclusive and a shared request
  waiting; then held by one reader with an exclusive request waiting.
\<close>

definition some_shared :: "bool \<Rightarrow> 64 word \<Rightarrow> basic_shared_mutex" where
  "some_shared l k = \<lparr>bsm_exec = 7, bsm_impl = \<lparr>sm_node = 1, service = Some 0, mtx = cem_ctor True,
     locked = l, waiters = 2, locked_shared = k, shared_waiters = 3\<rparr>\<rparr>"

definition shared_world :: world where
  "shared_world = \<lparr>nodes = [0 \<mapsto> \<lparr>next_node = 1, prev_node = 1\<rparr>, 1 \<mapsto> \<lparr>next_node = 0, prev_node = 0\<rparr>,
       2 \<mapsto> \<lparr>next_node = 2, prev_node = 2\<rparr>, 3 \<mapsto> \<lparr>next_node = 3, prev_node = 3\<rparr>],
     ops = Map.empty, slots = Map.empty, trace = [], brk = 4\<rparr>"

abbreviation some_async :: "nat \<Rightarrow> wait_op" where
  "some_async k \<equiv> Basic_op \<lparr>work_guard = 7, op_handler = some_handler k\<rparr>"

definition writer_waits :: world where
  "writer_waits = \<lparr>nodes = [0 \<mapsto> \<lparr>next_node = 1, prev_node = 1\<rparr>, 1 \<mapsto> \<lparr>next_node = 0, prev_node = 0\<rparr>,
       2 \<mapsto> \<lparr>next_node = 4, prev_node = 4\<rparr>, 3 \<mapsto> \<lparr>next_node = 3, prev_node = 3\<rparr>,
       4 \<mapsto> \<lparr>next_node = 2, prev_node = 2\<rparr>],
     ops = [4 \<mapsto> some_async 1], slots = [1 \<mapsto> 4], trace = [], brk = 5\<rparr>"

definition both_wait :: world where
  "both_wait = \<lparr>nodes = [0 \<mapsto> \<lparr>next_node = 1, prev_node = 1\<rparr>, 1 \<mapsto> \<lparr>next_node = 0, prev_node = 0\<rparr>,
       2 \<mapsto> \<lparr>next_node = 4, prev_node = 4\<rparr>, 3 \<mapsto> \<lparr>next_node = 5, prev_node = 5\<rparr>,
       4 \<mapsto> \<lparr>next_node = 2, prev_node = 2\<rparr>, 5 \<mapsto> \<lparr>next_node = 3, prev_node = 3\<rparr>],
     ops = [4 \<mapsto> some_async 1, 5 \<mapsto> some_async 2], slots = [1 \<mapsto> 4, 2 \<mapsto> 5], trace = [], brk = 6\<rparr>"

lemmas shared_eval [sam_eval] = mutex_impl.defs shared_mutex_impl.defs some_shared_def shared_world_def with_impl_def
  mutex_impl_ctor_def shared_mutex_impl_ctor_def basic_shared_mutex_ctor_def add_waiter_def add_shared_waiter_def
  basic_shared_mutex_try_lock_def shared_mutex_impl_try_lock_def basic_shared_mutex_async_lock_def
  basic_shared_mutex_async_lock_shared_def basic_shared_mutex_try_lock_shared_def shared_mutex_impl_try_lock_shared_def

lemma some_shared_reachable: "shared_reachable (some_shared False 0, shared_world, 0, 0)"
proof -
  have "basic_shared_mutex_ctor 7 some_hints some_ctx (-1) start_service start_world =
      Some (some_shared False 0, start_service, shared_world)"
    by (simp add: sam_eval fun_upd_twist numeral_eq_Suc)
  from shared_reachable.init[OF start_ok this] show ?thesis .
qed

lemma shared_held_reachable: "shared_reachable (some_shared True 0, shared_world, 1, 0)"
proof -
  have "basic_shared_mutex_try_lock (some_shared False 0) shared_world = Some (True, some_shared True 0, shared_world)"
    by (simp add: sam_eval)
  from shared_reachable.step[OF some_shared_reachable shared_step.call[OF shared_action.try_lock[OF this]]] show ?thesis by fastforce
qed

lemma both_wait_reachable: "shared_reachable (some_shared True 0, both_wait, 1, 0)"
proof -
  have 1: "basic_shared_mutex_async_lock (some_shared True 0) (some_handler 1) shared_world =
      Some ((), some_shared True 0, writer_waits)"
    by (simp add: sam_eval writer_waits_def fun_upd_twist)
  have 2: "basic_shared_mutex_async_lock_shared (some_shared True 0) (some_handler 2) writer_waits =
      Some ((), some_shared True 0, both_wait)"
    by (simp add: sam_eval writer_waits_def both_wait_def fun_upd_twist)
  have g: "grants shared_world writer_waits = 0" "grants writer_waits both_wait = 0"
    by (simp_all add: grants_def shared_world_def writer_waits_def both_wait_def)
  from shared_reachable.step[OF shared_held_reachable shared_step.call[OF shared_action.async_lock[OF 1]]] g(1)
  have "shared_reachable (some_shared True 0, writer_waits, 1, 0)" by fastforce
  from shared_reachable.step[OF this shared_step.call[OF shared_action.async_lock_shared[OF _ 2]]] g(2) show ?thesis by fastforce
qed

lemma reader_held_reachable: "shared_reachable (some_shared False 1, writer_waits, 0, 1)"
proof -
  have 1: "basic_shared_mutex_try_lock_shared (some_shared False 0) shared_world =
      Some (True, some_shared False 1, shared_world)"
    by (simp add: sam_eval)
  have 2: "basic_shared_mutex_async_lock (some_shared False 1) (some_handler 1) shared_world =
      Some ((), some_shared False 1, writer_waits)"
    by (simp add: sam_eval writer_waits_def fun_upd_twist)
  have g: "grants shared_world writer_waits = 0" by (simp add: grants_def shared_world_def writer_waits_def)
  from shared_reachable.step[OF some_shared_reachable shared_step.call[OF shared_action.try_lock_shared[OF _ 1]]]
  have "shared_reachable (some_shared False 1, shared_world, 0, 1)" by fastforce
  from shared_reachable.step[OF this shared_step.call[OF shared_action.async_lock[OF 2]]] g show ?thesis by fastforce
qed

lemmas some_pending = pending_def is_bilist_def link_def heap_access some_shared_def shared_world_def
  writer_waits_def both_wait_def

subsection \<open>Properties\<close>

text \<open>
  C6: Exclusion.  In every reachable state there is at most one exclusive holder, and while there
  is one nobody holds the mutex shared; \<open>locked_\<close> and \<open>locked_shared_\<close> count the holders.  A \<open>lock_shared\<close> that had to
  wait is an exclusive holder; the readers that an object still counts after it has been moved from are shared holders.
\<close>

theorem shared_mutex_exclusion:
  assumes "shared_reachable (m, w, n, k)"
  shows "n \<le> 1 \<and> (n = 0 \<or> k = 0) \<and> (locked (bsm_impl m) \<longleftrightarrow> n = 1) \<and> unat (locked_shared (bsm_impl m)) = k"
  using shared_reachable_inv[OF assms] by (auto simp: shared_rel_def)

theorem shared_mutex_exclusion_witness:
  "shared_reachable (some_shared False 1, writer_waits, 0, 1) \<and> \<not> locked (bsm_impl (some_shared False 1))"
  using shared_mutex_exclusion[OF reader_held_reachable] reader_held_reachable by simp

text \<open>
  C17: Nobody waits for a free shared mutex: exclusive requests wait only while somebody holds it, shared
  requests only while it is held exclusively.
\<close>

theorem shared_mutex_waiters_justified:
  assumes "shared_reachable (m, w, n, k)"
  shows "\<exists>wq rq. pending w (waiters (bsm_impl m)) wq \<and> pending w (shared_waiters (bsm_impl m)) rq \<and>
    (wq = [] \<or> n = 1 \<or> k > 0) \<and> (rq = [] \<or> n = 1)"
  using shared_reachable_inv[OF assms] by (auto simp: shared_rel_def)

theorem shared_mutex_waiters_justified_witness:
  "\<exists>wq rq. pending both_wait 2 wq \<and> pending both_wait 3 rq"
  using shared_mutex_waiters_justified[OF both_wait_reachable] by (auto simp: some_shared_def)

text \<open>
  When the exclusive holder unlocks and shared requests wait, all of them get the mutex at
  once, oldest first, and are counted; exclusive requests keep waiting.
\<close>

theorem shared_mutex_unlock_admits_readers:
  assumes "shared_reachable (m, w, 1, k)" "pending w (shared_waiters (bsm_impl m)) q" "q \<noteq> []"
    and "pending w (waiters (bsm_impl m)) wq" "length q < 2 ^ 64"
  shows "ok (basic_shared_mutex_unlock m w) (\<lambda>(u, m', w'). \<not> locked (bsm_impl m') \<and>
    unat (locked_shared (bsm_impl m')) = length q \<and> pending w' (shared_waiters (bsm_impl m)) [] \<and>
    pending w' (waiters (bsm_impl m)) wq \<and>
    trace w' = trace w @ concat (map (\<lambda>(a, x). signals success a x) q))"
proof -
  from shared_reachable_inv[OF assms(1)] obtain s where s: "shared_rel (bsm_impl m) w s" "writer s"
    by (auto simp: of_bool_Suc)
  have q: "rqueue s = q" "wqueue s = wq" using s assms(2,4) by (auto simp: shared_rel_def intro: pending_unique)
  show ?thesis
    using shared_unlock_readers[OF s] q assms(3,5) s
    by (auto simp: basic_shared_mutex_unlock_def with_impl_def shspec_unlock_def shared_rel_def
      elim!: okE dest!: same_shared_roots)
qed

theorem shared_mutex_unlock_admits_readers_witness:
  "ok (basic_shared_mutex_unlock (some_shared True 0) both_wait) (\<lambda>(u, m', w'). \<not> locked (bsm_impl m') \<and>
     unat (locked_shared (bsm_impl m')) = 1 \<and> pending w' 2 [(4, some_async 1)] \<and>
     trace w' = [Post 7 (some_handler 2) success])"
proof -
  have p: "pending both_wait (shared_waiters (bsm_impl (some_shared True 0))) [(5, some_async 2)]"
    "pending both_wait (waiters (bsm_impl (some_shared True 0))) [(4, some_async 1)]" by (simp_all add: some_pending)
  show ?thesis
    using shared_mutex_unlock_admits_readers[OF both_wait_reachable p(1) _ p(2)]
    by (auto simp: some_shared_def both_wait_def elim!: ok_conseq)
qed

text \<open>
  The last reader hands over.  When the only shared holder calls \<open>unlock_shared\<close> and exclusive requests
  wait, the oldest gets the mutex exclusively; an earlier reader's \<open>unlock_shared\<close> completes nothing.
\<close>

theorem shared_mutex_last_reader_hands_over:
  assumes "shared_reachable (m, w, n, Suc k)" "pending w (waiters (bsm_impl m)) ((a, x) # q)"
  shows "ok (basic_shared_mutex_unlock_shared m w) (\<lambda>(u, m', w'). unat (locked_shared (bsm_impl m')) = k \<and>
    (if k = 0 then locked (bsm_impl m') \<and> pending w' (waiters (bsm_impl m)) q \<and> trace w' = trace w @ signals success a x
     else \<not> locked (bsm_impl m') \<and> pending w' (waiters (bsm_impl m)) ((a, x) # q) \<and> trace w' = trace w))"
proof -
  from shared_reachable_inv[OF assms(1)] obtain s where s: "shared_rel (bsm_impl m) w s" "Suc k = readers s" by auto
  have q: "wqueue s = (a, x) # q" using s assms(2) by (auto simp: shared_rel_def intro: pending_unique)
  have r: "readers s > 0" using s(2) by linarith
  show ?thesis
    using shared_unlock_shared_refines[OF s(1) r] q s
    by (auto simp: basic_shared_mutex_unlock_shared_def with_impl_def shspec_unlock_shared_def shared_rel_def
        elim!: okE dest!: same_shared_roots)
qed

theorem shared_mutex_last_reader_hands_over_witness:
  "ok (basic_shared_mutex_unlock_shared (some_shared False 1) writer_waits) (\<lambda>(u, m', w'). locked (bsm_impl m') \<and>
     pending w' 2 [] \<and> trace w' = [Post 7 (some_handler 1) success])"
proof -
  have p: "pending writer_waits (waiters (bsm_impl (some_shared False 1))) [(4, some_async 1)]"
    by (simp add: some_pending)
  show ?thesis
    using shared_mutex_last_reader_hands_over[of _ _ 0 0, OF _ p] reader_held_reachable
    by (auto simp: some_shared_def writer_waits_def elim!: ok_conseq)
qed

text \<open>
  C32: A blocking \<open>lock_shared\<close> that has to wait leaves the mutex locked for good.  It waits among the
  exclusive requests, so the \<open>unlock\<close> that wakes it keeps \<open>locked_\<close> set and counts no reader; its own
  \<open>unlock_shared\<close> then releases nothing.  Nobody holds or awaits the mutex any more, yet every
  further \<open>try_lock\<close> and \<open>try_lock_shared\<close> fails.
\<close>

theorem shared_mutex_blocking_lock_shared_leaks:
  assumes "shared_reachable (m, w, 1, 0)" "enabled (mtx (bsm_impl m))"
    and "pending w (waiters (bsm_impl m)) []" "pending w (shared_waiters (bsm_impl m)) []"
  shows "ok (do {
      (r, m1, w1) \<leftarrow> basic_shared_mutex_lock_shared m success w;
      (u, m2, w2) \<leftarrow> basic_shared_mutex_unlock m1 w1;
      (u, m3, w3) \<leftarrow> basic_shared_mutex_unlock_shared m2 w2;
      (b, m4, w4) \<leftarrow> basic_shared_mutex_try_lock m3 w3;
      (c, m5, w5) \<leftarrow> basic_shared_mutex_try_lock_shared m4 w4;
      Some (r, w3, b, c, m5) })
    (\<lambda>(r, w3, b, c, m5). r = Blocked (brk w) \<and> trace w3 = trace w @ [Wake (brk w) success] \<and>
      \<not> b \<and> \<not> c \<and> locked (bsm_impl m5) \<and> locked_shared (bsm_impl m5) = 0 \<and>
      pending w3 (waiters (bsm_impl m)) [] \<and> pending w3 (shared_waiters (bsm_impl m)) [])"
proof -
  from shared_reachable_inv[OF assms(1)] obtain s where s: "shared_rel (bsm_impl m) w s" "writer s" "readers s = 0"
    by (auto simp: of_bool_Suc)
  have q: "wqueue s = []" "rqueue s = []" "brk w = shfresh s"
    using s assms(3,4) by (auto simp: shared_rel_def intro: pending_unique)
  let ?s = "s\<lparr>shfresh := Suc (shfresh s), wqueue := []\<rparr>"
  from shared_lock_shared_refines[OF s(1), of success] obtain i1 w1 where
    1: "shared_mutex_impl_lock_shared (bsm_impl m) success w = Some (Blocked (brk w), i1, w1)" "same_shared (bsm_impl m) i1"
      "trace w1 = trace w" "shared_rel i1 w1 (snd (shspec_block success s))"
    using s(2,3) assms(2) q(3) by (auto simp: shspec_lock_shared_def shspec_block_def elim!: okE)
  from shared_unlock_refines[OF 1(4)] obtain i2 w2 where
    2: "shared_mutex_impl_unlock i1 w1 = Some ((), i2, w2)" "same_shared i1 i2" "shared_rel i2 w2 ?s"
      "trace w2 = trace w @ [Wake (brk w) success]"
    using s(2) q 1(3) by (auto simp: shspec_unlock_def shspec_block_def elim!: okE)
  from shared_try_lock_refines[OF 2(3)] obtain i4 where
    4: "shared_mutex_impl_try_lock i2 w2 = Some (False, i4, w2)" "shared_rel i4 w2 ?s"
    using s(2) by (auto simp: shspec_try_lock_def elim!: okE)
  from shared_try_lock_shared_refines[OF 4(2)] obtain i5 where
    5: "shared_mutex_impl_try_lock_shared i4 w2 = Some (False, i5, w2)" "shared_rel i5 w2 ?s"
    using s(2,3) by (auto simp: shspec_try_lock_shared_def elim!: okE)
  have "locked i5" "locked_shared i5 = 0"
    using 5(2) s(2,3) locked_shared_zero[OF 5(2)] by (simp_all add: shared_rel_def)
  moreover have "pending w2 (waiters (bsm_impl m)) []" "pending w2 (shared_waiters (bsm_impl m)) []"
    using shared_relD(2,3)[OF 2(3)] q same_sharedD[OF 1(2)] same_sharedD[OF 2(2)] by simp_all
  ultimately show ?thesis
    using 1(1) 2(1,4) 4(1) 5(1) shared_unlock_shared_idle[OF 2(3)] s(3) q(1)
    by (simp add: basic_shared_mutex_lock_shared_def basic_shared_mutex_unlock_def basic_shared_mutex_unlock_shared_def
        basic_shared_mutex_try_lock_def basic_shared_mutex_try_lock_shared_def with_impl_def)
qed

theorem shared_mutex_blocking_lock_shared_leaks_witness:
  "ok (do {
      (r, m1, w1) \<leftarrow> basic_shared_mutex_lock_shared (some_shared True 0) success shared_world;
      (u, m2, w2) \<leftarrow> basic_shared_mutex_unlock m1 w1;
      (u, m3, w3) \<leftarrow> basic_shared_mutex_unlock_shared m2 w2;
      (b, m4, w4) \<leftarrow> basic_shared_mutex_try_lock m3 w3;
      (c, m5, w5) \<leftarrow> basic_shared_mutex_try_lock_shared m4 w4;
      Some (r, w3, b, c, m5) })
    (\<lambda>(r, w3, b, c, m5). r = Blocked 4 \<and> trace w3 = [Wake 4 success] \<and> \<not> b \<and> \<not> c \<and> locked (bsm_impl m5))"
proof -
  have p: "pending shared_world (waiters (bsm_impl (some_shared True 0))) []"
    "pending shared_world (shared_waiters (bsm_impl (some_shared True 0))) []"
    "enabled (mtx (bsm_impl (some_shared True 0)))" by (simp_all add: some_pending)
  have e: "brk shared_world = 4" "trace shared_world = []" by (simp_all add: shared_world_def)
  show ?thesis
    by (rule ok_conseq[OF shared_mutex_blocking_lock_shared_leaks[OF shared_held_reachable p(3,1,2)]]) (auto simp: e)
qed

text \<open>
  C7: Refinement.  Construct a shared mutex and make any sequence of the eight calls, exclusive and shared, in which only
  what is held is released: every call returns, with the result, the completions and the two queues that the abstract
  shared mutex (a writer or a number of readers, and a queue of requests of each kind) has for the same sequence.
\<close>

theorem shared_mutex_run_refines:
  assumes "world_ok w" "registered w svc ms"
    and "legal_run (shspec_exec (\<not> is_single_threaded A ctx hint) ex) shared_legal cs
      \<lparr>writer = False, readers = 0, wqueue = [], rqueue = [], shfresh = brk w + 3\<rparr>"
  shows "ok (do { (m, svc', w1) \<leftarrow> basic_shared_mutex_ctor ex A ctx hint svc w; shared_run cs m w1 })
    (\<lambda>(rs, m', w'). case shspec_run (\<not> is_single_threaded A ctx hint) ex cs
        \<lparr>writer = False, readers = 0, wqueue = [], rqueue = [], shfresh = brk w + 3\<rparr> of
      (rs', s', es) \<Rightarrow> rs = rs' \<and> trace w' = trace w @ es \<and> locked (bsm_impl m') = writer s' \<and>
        unat (locked_shared (bsm_impl m')) = readers s' \<and> pending w' (waiters (bsm_impl m')) (wqueue s') \<and>
        pending w' (shared_waiters (bsm_impl m')) (rqueue s'))"
proof -
  from shared_ctor_ok[OF assms(1,2), of ex A ctx hint] obtain m w1 where
    c: "basic_shared_mutex_ctor ex A ctx hint svc w = Some (m, svc, w1)" "bsm_exec m = ex"
      "shared_rel (bsm_impl m) w1 \<lparr>writer = False, readers = 0, wqueue = [], rqueue = [], shfresh = brk w + 3\<rparr>"
      "enabled (mtx (bsm_impl m)) = (\<not> is_single_threaded A ctx hint)" "trace w1 = trace w"
    by (auto elim!: okE)
  show ?thesis
    using shared_calls.run_refines[OF c(3), of cs] assms(3) c(1,2,4,5)
    by (auto simp: shared_rel_def elim!: ok_conseq split: prod.splits)
qed

abbreviation mixed_calls :: "shared_call list" where
  "mixed_calls \<equiv> [Call_lock_shared success, Call_try_lock, Call_async_lock (some_handler 1), Call_unlock_shared,
     Call_async_lock_shared (some_handler 2), Call_unlock, Call_try_lock_shared]"

theorem shared_mutex_run_refines_witness:
  "ok (do { (m, svc', w1) \<leftarrow> basic_shared_mutex_ctor 7 some_hints some_ctx (-1) start_service start_world;
            shared_run mixed_calls m w1 })
    (\<lambda>(rs, m', w'). rs = [Code_result (Returned success), Bool_result False, No_result, No_result, No_result, No_result,
         Bool_result True] \<and>
       trace w' = [Post 7 (some_handler 1) success, Post 7 (some_handler 2) success] \<and>
       unat (locked_shared (bsm_impl m')) = 2)"
proof -
  have e: "is_single_threaded some_hints some_ctx (-1) = False" "trace start_world = []"
    by (simp_all add: sam_eval)
  note d = shspec_lock_shared_def shspec_try_lock_def shspec_async_lock_def shspec_unlock_shared_def
    shspec_async_lock_shared_def shspec_unlock_def shspec_try_lock_shared_def some_handler_def get_associated_executor_def
  let ?s = "\<lparr>writer = False, readers = 0, wqueue = [], rqueue = [], shfresh = brk start_world + 3\<rparr>"
  have l: "legal_run (shspec_exec (\<not> is_single_threaded some_hints some_ctx (-1)) 7) shared_legal mixed_calls ?s"
    by (simp add: e d)
  show ?thesis
    by (rule ok_conseq[OF shared_mutex_run_refines[OF start_ok l]]) (auto simp: e d)
qed

end
