(* ===== verification/Lock_Guard.thy ===== *)
theory Lock_Guard
  imports Mutex_Props Shared_Mutex_Props
begin

section \<open>Lock guards\<close>

text \<open>
  Models \<open>lock_guard.hpp\<close> and \<open>shared_lock_guard.hpp\<close>.  A guard holds a pointer to the implementation it
  will unlock, here the address of that object's own node, or null.  \<open>net::async_compose\<close> belongs to asio:
  of the composed \<open>async_lock\<close> the two calls of \<open>async_lock_op\<close> are modelled, the initiation and
  the continuation with the result.
\<close>

subsection \<open>Guards\<close>

record lock_guard =
  lg_mtx :: "addr option"

record shared_lock_guard =
  slg_mtx :: "addr option"

definition lock_guard_ctor :: lock_guard where
  "lock_guard_ctor = \<lparr>lg_mtx = None\<rparr>"

definition lock_guard_adopt :: "basic_mutex \<Rightarrow> lock_guard" where
  "lock_guard_adopt mx = \<lparr>lg_mtx = Some (sm_node (bm_impl mx))\<rparr>"

definition lock_guard_adopt_shared_mutex :: "basic_shared_mutex \<Rightarrow> lock_guard" where
  "lock_guard_adopt_shared_mutex mx = \<lparr>lg_mtx = Some (sm_node (bsm_impl mx))\<rparr>"

text \<open>Both return the new or assigned guard first and the moved-from guard second.\<close>

definition lock_guard_move_ctor :: "lock_guard \<Rightarrow> lock_guard \<times> lock_guard" where
  "lock_guard_move_ctor lhs = (\<lparr>lg_mtx = lg_mtx lhs\<rparr>, lhs\<lparr>lg_mtx := None\<rparr>)"

definition lock_guard_move_assign :: "lock_guard \<Rightarrow> lock_guard \<Rightarrow> lock_guard \<times> lock_guard" where
  "lock_guard_move_assign this lhs = (this\<lparr>lg_mtx := lg_mtx lhs\<rparr>, lhs\<lparr>lg_mtx := lg_mtx this\<rparr>)"

text \<open>
  The destructor; the second argument is the object the pointer refers to.  \<open>unlock\<close> is virtual:
  through a shared mutex it is the shared mutex's.
\<close>

definition lock_guard_dtor :: "lock_guard \<Rightarrow> basic_mutex \<Rightarrow> world \<Rightarrow> (basic_mutex \<times> world) option" where
  "lock_guard_dtor this m w = (case lg_mtx this of
     None \<Rightarrow> Some (m, w)
   | Some a \<Rightarrow> if a = sm_node (bm_impl m) then basic_mutex_unlock m w else None)"

definition lock_guard_dtor_shared_mutex ::
  "lock_guard \<Rightarrow> basic_shared_mutex \<Rightarrow> world \<Rightarrow> (unit \<times> basic_shared_mutex \<times> world) option" where
  "lock_guard_dtor_shared_mutex this m w = (case lg_mtx this of
     None \<Rightarrow> Some ((), m, w)
   | Some a \<Rightarrow> if a = sm_node (bsm_impl m) then basic_shared_mutex_unlock m w else None)"

subsection \<open>Acquiring a guard\<close>

text \<open>What a call that returned does with its error code; a call that blocked goes on here when resumed.\<close>

definition lock_result :: "lock_guard \<Rightarrow> error_code + unit \<Rightarrow> error_code + lock_guard" where
  "lock_result g r = (case r of Inl ec \<Rightarrow> Inl ec | Inr u \<Rightarrow> Inr g)"

definition guard_lock ::
  "basic_mutex \<Rightarrow> world \<Rightarrow> ((error_code + lock_guard) call \<times> basic_mutex \<times> world) option" where
  "guard_lock mx w = do {
     (r, m, w) \<leftarrow> basic_mutex_lock_throw mx w;
     Some (map_call (lock_result (lock_guard_adopt mx)) r, m, w) }"

definition lock_ec_result :: "lock_guard \<Rightarrow> error_code \<Rightarrow> lock_guard \<times> error_code" where
  "lock_ec_result g ec = (if failed ec then (lock_guard_ctor, ec) else (g, ec))"

definition guard_lock_ec ::
  "basic_mutex \<Rightarrow> error_code \<Rightarrow> world \<Rightarrow> ((lock_guard \<times> error_code) call \<times> basic_mutex \<times> world) option" where
  "guard_lock_ec mx ec w = do {
     (r, m, w) \<leftarrow> basic_mutex_lock mx ec w;
     Some (map_call (lock_ec_result (lock_guard_adopt mx)) r, m, w) }"

definition guard_lock_shared_mutex ::
  "basic_shared_mutex \<Rightarrow> world \<Rightarrow> ((error_code + lock_guard) call \<times> basic_shared_mutex \<times> world) option" where
  "guard_lock_shared_mutex mx w = do {
     (r, m, w) \<leftarrow> basic_shared_mutex_lock_throw mx w;
     Some (map_call (lock_result (lock_guard_adopt_shared_mutex mx)) r, m, w) }"

definition guard_lock_shared_mutex_ec ::
  "basic_shared_mutex \<Rightarrow> error_code \<Rightarrow> world \<Rightarrow>
   ((lock_guard \<times> error_code) call \<times> basic_shared_mutex \<times> world) option" where
  "guard_lock_shared_mutex_ec mx ec w = do {
     (r, m, w) \<leftarrow> basic_shared_mutex_lock mx ec w;
     Some (map_call (lock_ec_result (lock_guard_adopt_shared_mutex mx)) r, m, w) }"

definition async_lock_op_init :: "basic_mutex \<Rightarrow> handler \<Rightarrow> world \<Rightarrow> (basic_mutex \<times> world) option" where
  "async_lock_op_init mx self w = basic_mutex_async_lock mx self w"

definition async_lock_op_complete :: "basic_mutex \<Rightarrow> error_code \<Rightarrow> error_code \<times> lock_guard" where
  "async_lock_op_complete mx ec = (if failed ec then (ec, lock_guard_ctor) else (ec, lock_guard_adopt mx))"

text \<open>The same template over a shared mutex.\<close>

definition async_lock_op_shared_mutex_init ::
  "basic_shared_mutex \<Rightarrow> handler \<Rightarrow> world \<Rightarrow> (unit \<times> basic_shared_mutex \<times> world) option" where
  "async_lock_op_shared_mutex_init mx self w = basic_shared_mutex_async_lock mx self w"

definition async_lock_op_shared_mutex_complete :: "basic_shared_mutex \<Rightarrow> error_code \<Rightarrow> error_code \<times> lock_guard" where
  "async_lock_op_shared_mutex_complete mx ec =
     (if failed ec then (ec, lock_guard_ctor) else (ec, lock_guard_adopt_shared_mutex mx))"

text \<open>
  \<open>async_lock(mtx, token)\<close>: \<open>async_compose\<close> is a parameter that gets the two call operators, the token and the
  executor of the mutex.
\<close>

definition guard_async_lock ::
  "((handler \<Rightarrow> world \<Rightarrow> (basic_mutex \<times> world) option) \<times> (error_code \<Rightarrow> error_code \<times> lock_guard) \<Rightarrow>
     'token \<Rightarrow> executor \<Rightarrow> 'r) \<Rightarrow> basic_mutex \<Rightarrow> 'token \<Rightarrow> 'r" where
  "guard_async_lock async_compose mx token =
     async_compose (async_lock_op_init mx, async_lock_op_complete mx) token (basic_mutex_get_executor mx)"

definition guard_async_lock_shared_mutex ::
  "((handler \<Rightarrow> world \<Rightarrow> (unit \<times> basic_shared_mutex \<times> world) option) \<times> (error_code \<Rightarrow> error_code \<times> lock_guard) \<Rightarrow>
     'token \<Rightarrow> executor \<Rightarrow> 'r) \<Rightarrow> basic_shared_mutex \<Rightarrow> 'token \<Rightarrow> 'r" where
  "guard_async_lock_shared_mutex async_compose mx token =
     async_compose (async_lock_op_shared_mutex_init mx, async_lock_op_shared_mutex_complete mx) token
       (basic_shared_mutex_get_executor mx)"

subsection \<open>Shared guards\<close>

definition shared_lock_guard_ctor :: shared_lock_guard where
  "shared_lock_guard_ctor = \<lparr>slg_mtx = None\<rparr>"

definition shared_lock_guard_adopt :: "basic_shared_mutex \<Rightarrow> shared_lock_guard" where
  "shared_lock_guard_adopt mx = \<lparr>slg_mtx = Some (sm_node (bsm_impl mx))\<rparr>"

definition shared_lock_guard_move_ctor :: "shared_lock_guard \<Rightarrow> shared_lock_guard \<times> shared_lock_guard" where
  "shared_lock_guard_move_ctor lhs = (\<lparr>slg_mtx = slg_mtx lhs\<rparr>, lhs\<lparr>slg_mtx := None\<rparr>)"

definition shared_lock_guard_move_assign ::
  "shared_lock_guard \<Rightarrow> shared_lock_guard \<Rightarrow> shared_lock_guard \<times> shared_lock_guard" where
  "shared_lock_guard_move_assign this lhs = (this\<lparr>slg_mtx := slg_mtx lhs\<rparr>, lhs\<lparr>slg_mtx := slg_mtx this\<rparr>)"

definition shared_lock_guard_dtor ::
  "shared_lock_guard \<Rightarrow> basic_shared_mutex \<Rightarrow> world \<Rightarrow> (unit \<times> basic_shared_mutex \<times> world) option" where
  "shared_lock_guard_dtor this m w = (case slg_mtx this of
     None \<Rightarrow> Some ((), m, w)
   | Some a \<Rightarrow> if a = sm_node (bsm_impl m) then basic_shared_mutex_unlock_shared m w else None)"

text \<open>\<open>lock_shared(mtx)\<close> and \<open>lock_shared(mtx, ec)\<close> call \<open>mtx.lock\<close>.\<close>

definition guard_lock_shared ::
  "basic_shared_mutex \<Rightarrow> world \<Rightarrow> ((error_code + shared_lock_guard) call \<times> basic_shared_mutex \<times> world) option" where
  "guard_lock_shared mx w = do {
     (r, m, w) \<leftarrow> basic_shared_mutex_lock_throw mx w;
     Some (map_call (map_sum id (\<lambda>u. shared_lock_guard_adopt mx)) r, m, w) }"

definition guard_lock_shared_ec ::
  "basic_shared_mutex \<Rightarrow> error_code \<Rightarrow> world \<Rightarrow>
   ((shared_lock_guard \<times> error_code) call \<times> basic_shared_mutex \<times> world) option" where
  "guard_lock_shared_ec mx ec w = do {
     (r, m, w) \<leftarrow> basic_shared_mutex_lock mx ec w;
     Some (map_call (\<lambda>ec. if failed ec then (shared_lock_guard_ctor, ec) else (shared_lock_guard_adopt mx, ec)) r, m, w) }"

definition async_lock_shared_op_init ::
  "basic_shared_mutex \<Rightarrow> handler \<Rightarrow> world \<Rightarrow> (unit \<times> basic_shared_mutex \<times> world) option" where
  "async_lock_shared_op_init mx self w = basic_shared_mutex_async_lock_shared mx self w"

definition async_lock_shared_op_complete :: "basic_shared_mutex \<Rightarrow> error_code \<Rightarrow> error_code \<times> shared_lock_guard" where
  "async_lock_shared_op_complete mx ec =
     (if failed ec then (ec, shared_lock_guard_ctor) else (ec, shared_lock_guard_adopt mx))"

definition guard_async_lock_shared ::
  "((handler \<Rightarrow> world \<Rightarrow> (unit \<times> basic_shared_mutex \<times> world) option) \<times>
     (error_code \<Rightarrow> error_code \<times> shared_lock_guard) \<Rightarrow> 'token \<Rightarrow> executor \<Rightarrow> 'r) \<Rightarrow>
   basic_shared_mutex \<Rightarrow> 'token \<Rightarrow> 'r" where
  "guard_async_lock_shared async_compose mx token =
     async_compose (async_lock_shared_op_init mx, async_lock_shared_op_complete mx) token
       (basic_shared_mutex_get_executor mx)"

subsection \<open>Facts\<close>

lemma guard_lock_free:
  assumes "mutex_rel (bm_impl m) w s" "\<not> owned s"
  shows "ok (guard_lock m w) (\<lambda>(r, m', w'). r = Returned (Inr (lock_guard_adopt m)) \<and> trace w' = trace w \<and>
    sm_node (bm_impl m') = sm_node (bm_impl m) \<and> waiters (bm_impl m') = waiters (bm_impl m) \<and>
    (\<exists>s'. mutex_rel (bm_impl m') w' s' \<and> owned s' \<and> queue s' = queue s))"
  using mutex_lock_refines[OF assms(1), of success] assms(2)
  by (auto simp: guard_lock_def basic_mutex_lock_throw_def basic_mutex_lock_def mspec_lock_def check_error_def
      lock_result_def same_object_def elim!: okE
      intro!: exI[of _ "s\<lparr>owned := True, fresh := fresh s + of_bool (enabled (mtx (bm_impl m)))\<rparr>"])

lemma adopted_dtor [simp]:
  "sm_node (bm_impl m') = sm_node (bm_impl m) \<Longrightarrow> lock_guard_dtor (lock_guard_adopt m) m' w = basic_mutex_unlock m' w"
  by (simp add: lock_guard_dtor_def lock_guard_adopt_def)

subsection \<open>Properties\<close>

text \<open>
  C22: A guard from \<open>lock(mtx)\<close> gives the mutex back.  On a free mutex \<open>lock\<close> returns a guard at once; while
  the guard lives \<open>try_lock\<close> fails, and its destructor leaves the mutex free again.
\<close>

theorem lock_guard_scope:
  assumes "mutex_reachable (m, w, 0)"
  shows "ok (do {
      (r, m1, w1) \<leftarrow> guard_lock m w;
      (b, m2, w2) \<leftarrow> basic_mutex_try_lock m1 w1;
      (m3, w3) \<leftarrow> lock_guard_dtor (lock_guard_adopt m) m2 w2;
      Some (r, b, m3, w3) })
    (\<lambda>(r, b, m3, w3). r = Returned (Inr (lock_guard_adopt m)) \<and> \<not> b \<and> \<not> locked (bm_impl m3) \<and>
      pending w3 (waiters (bm_impl m)) [] \<and> trace w3 = trace w)"
proof -
  from mutex_reachable_inv[OF assms] obtain s where r: "mutex_rel (bm_impl m) w s" "0 = (of_bool (owned s) :: nat)"
    by auto
  then have s: "mutex_rel (bm_impl m) w s" "\<not> owned s" "queue s = []" by (auto simp: mutex_rel_def)
  from guard_lock_free[OF s(1,2)] obtain m1 w1 s1 where
    1: "guard_lock m w = Some (Returned (Inr (lock_guard_adopt m)), m1, w1)" "trace w1 = trace w"
      "sm_node (bm_impl m1) = sm_node (bm_impl m)" "waiters (bm_impl m1) = waiters (bm_impl m)"
      "mutex_rel (bm_impl m1) w1 s1" "owned s1" "queue s1 = []" using s(3) by (auto elim!: okE)
  from mutex_try_lock_refines[OF 1(5)] obtain i2 where
    2: "mutex_impl_try_lock (bm_impl m1) w1 = Some (False, i2, w1)" "same_object (bm_impl m1) i2"
      "mutex_rel i2 w1 (s1\<lparr>owned := True\<rparr>)" using 1(6) by (auto simp: mspec_try_lock_def elim!: okE)
  from mutex_unlock_refines[OF 2(3)] obtain i3 w3 where
    "mutex_impl_unlock i2 w1 = Some ((), i3, w3)" "i3 = i2\<lparr>locked := False\<rparr>" "pending w3 (waiters i3) []" "trace w3 = trace w1"
    using 1(7) by (auto simp: mspec_unlock_def mutex_rel_def elim!: okE)
  with 1 2 show ?thesis
    by (simp add: basic_mutex_try_lock_def basic_mutex_unlock_def same_object_def)
qed

theorem lock_guard_scope_witness:
  "ok (do {
      (r, m1, w1) \<leftarrow> guard_lock some_mutex mutex_world;
      (b, m2, w2) \<leftarrow> basic_mutex_try_lock m1 w1;
      (m3, w3) \<leftarrow> lock_guard_dtor (lock_guard_adopt some_mutex) m2 w2;
      Some (r, b, m3, w3) })
    (\<lambda>(r, b, m3, w3). \<not> b \<and> \<not> locked (bm_impl m3))"
  by (rule ok_conseq[OF lock_guard_scope[OF some_mutex_ok(3)]]) auto

text \<open>
  C38: A stale error code leaks the lock.  If the \<open>error_code\<close> passed to \<open>lock(mtx, ec)\<close> already holds an error, a
  free mutex is locked, the error stays, and the guard returned is empty: its destructor does not unlock, and
  the mutex remains locked with nobody to release it.
\<close>

theorem lock_guard_stale_error_leaks:
  assumes "mutex_reachable (m, w, 0)" "failed ec"
  shows "ok (do {
      (r, m1, w1) \<leftarrow> guard_lock_ec m ec w;
      (m2, w2) \<leftarrow> lock_guard_dtor lock_guard_ctor m1 w1;
      (b, m3, w3) \<leftarrow> basic_mutex_try_lock m2 w2;
      Some (r, b, m3) })
    (\<lambda>(r, b, m3). r = Returned (lock_guard_ctor, ec) \<and> \<not> b \<and> locked (bm_impl m3))"
proof -
  from mutex_reachable_inv[OF assms(1)] obtain s where s: "mutex_rel (bm_impl m) w s" "\<not> owned s"
    by auto
  from mutex_lock_refines[OF s(1), of ec] obtain i1 w1 where
    1: "mutex_impl_lock (bm_impl m) ec w = Some (Returned ec, i1, w1)"
      "mutex_rel i1 w1 (snd (mspec_lock (enabled (mtx (bm_impl m))) ec s))"
    using s(2) by (auto simp: mspec_lock_def elim!: okE)
  from mutex_try_lock_refines[OF 1(2)] obtain i2 where "mutex_impl_try_lock i1 w1 = Some (False, i2, w1)" "locked i2"
    using s(2) by (auto simp: mspec_lock_def mspec_try_lock_def mutex_rel_def elim!: okE)
  with 1 assms(2) show ?thesis
    by (simp add: guard_lock_ec_def basic_mutex_lock_def basic_mutex_try_lock_def lock_ec_result_def lock_guard_dtor_def
        lock_guard_ctor_def)
qed

theorem lock_guard_stale_error_leaks_witness:
  "ok (do {
      (r, m1, w1) \<leftarrow> guard_lock_ec some_mutex in_progress mutex_world;
      (m2, w2) \<leftarrow> lock_guard_dtor lock_guard_ctor m1 w1;
      (b, m3, w3) \<leftarrow> basic_mutex_try_lock m2 w2;
      Some (r, b, m3) })
    (\<lambda>(r, b, m3). r = Returned (lock_guard_ctor, in_progress) \<and> \<not> b)"
  by (rule ok_conseq[OF lock_guard_stale_error_leaks[OF some_mutex_ok(3), of in_progress]]) auto

text \<open>
  C33: \<open>lock_shared(mtx)\<close> does not share and is never undone.  On a free shared mutex it takes the mutex exclusively, so that
  a second \<open>try_lock_shared\<close> fails, and the guard's destructor calls \<open>unlock_shared\<close>, which leaves \<open>locked_\<close>
  set: after the guard is gone nobody can lock the mutex any more.
\<close>

theorem shared_lock_guard_leaks:
  assumes "shared_reachable (m, w, 0, 0)"
  shows "ok (do {
      (r, m1, w1) \<leftarrow> guard_lock_shared m w;
      (b, m2, w2) \<leftarrow> basic_shared_mutex_try_lock_shared m1 w1;
      (u, m3, w3) \<leftarrow> shared_lock_guard_dtor (shared_lock_guard_adopt m) m2 w2;
      (c, m4, w4) \<leftarrow> basic_shared_mutex_try_lock m3 w3;
      Some (r, b, c, m4) })
    (\<lambda>(r, b, c, m4). r = Returned (Inr (shared_lock_guard_adopt m)) \<and> \<not> b \<and> \<not> c \<and> locked (bsm_impl m4))"
proof -
  from shared_reachable_inv[OF assms] obtain s where s: "shared_rel (bsm_impl m) w s" "\<not> writer s" "readers s = 0"
    by (auto split: if_splits)
  then have q: "wqueue s = []" by (auto simp: shared_rel_def)
  from shared_lock_refines[OF s(1), of success] obtain i1 w1 s1 where
    1: "shared_mutex_impl_lock (bsm_impl m) success w = Some (Returned success, i1, w1)" "same_shared (bsm_impl m) i1"
      "shared_rel i1 w1 s1" "writer s1" "readers s1 = 0" "wqueue s1 = []"
    using s(2,3) q by (auto simp: shspec_lock_def elim!: okE)
  from shared_try_lock_shared_refines[OF 1(3)] obtain i2 where
    2: "shared_mutex_impl_try_lock_shared i1 w1 = Some (False, i2, w1)" "same_shared i1 i2" "shared_rel i2 w1 s1"
    using 1(4,5) by (auto simp: shspec_try_lock_shared_def elim!: okE)
  have n: "sm_node i2 = sm_node (bsm_impl m)"
    using arg_cong[OF 1(2)[unfolded same_shared_def], of sm_node] arg_cong[OF 2(2)[unfolded same_shared_def], of sm_node]
    by simp
  from shared_try_lock_refines[OF 2(3)] obtain i4 where
    4: "shared_mutex_impl_try_lock i2 w1 = Some (False, i4, w1)" "locked i4"
    using 1(4) by (auto simp: shspec_try_lock_def shared_rel_def elim!: okE)
  from 1 2 4 n shared_unlock_shared_idle[OF 2(3) 1(5,6)] show ?thesis
    by (simp add: guard_lock_shared_def basic_shared_mutex_lock_throw_def basic_shared_mutex_lock_def with_impl_def
        basic_shared_mutex_try_lock_shared_def basic_shared_mutex_try_lock_def shared_lock_guard_dtor_def
        shared_lock_guard_adopt_def basic_shared_mutex_unlock_shared_def check_error_def)
qed

theorem shared_lock_guard_leaks_witness:
  "ok (do {
      (r, m1, w1) \<leftarrow> guard_lock_shared (some_shared False 0) shared_world;
      (b, m2, w2) \<leftarrow> basic_shared_mutex_try_lock_shared m1 w1;
      (u, m3, w3) \<leftarrow> shared_lock_guard_dtor (shared_lock_guard_adopt (some_shared False 0)) m2 w2;
      (c, m4, w4) \<leftarrow> basic_shared_mutex_try_lock m3 w3;
      Some (r, b, c, m4) })
    (\<lambda>(r, b, c, m4). \<not> b \<and> \<not> c)"
  by (rule ok_conseq[OF shared_lock_guard_leaks[OF some_shared_reachable]]) auto

end
