(* ===== verification/Barrier_Impl.thy ===== *)
theory Barrier_Impl
  imports Shared_World
begin

section \<open>The barrier\<close>

text \<open>
  Models \<open>detail/barrier_impl.hpp\<close>, \<open>detail/impl/barrier_impl.ipp\<close>, \<open>basic_barrier.hpp\<close> and
  \<open>impl/basic_barrier.hpp\<close>.  The counters are 64-bit \<open>ptrdiff_t\<close>.  \<open>async_arrive\<close> locks the internal
  mutex twice; its two critical sections are separate definitions, so that what other
  threads do in between can be expressed.
\<close>

subsection \<open>The implementation object\<close>

record barrier_impl = service_member +
  init_count :: int
  counter :: int
  bar_waiters :: addr

definition barrier_impl_ctor ::
  "asio_hints \<Rightarrow> execution_context \<Rightarrow> int \<Rightarrow> int \<Rightarrow> op_list_service \<Rightarrow> world \<Rightarrow>
   (barrier_impl \<times> op_list_service \<times> world) option" where
  "barrier_impl_ctor A ctx init hint svc w = do {
     (sm, svc, w) \<leftarrow> service_member_ctor A ctx hint svc w;
     let (r, w) = new_node w;
     Some (service_member.extend sm (barrier_impl.fields init init r), svc, w) }"

definition barrier_add_waiter :: "barrier_impl \<Rightarrow> addr \<Rightarrow> world \<Rightarrow> world option" where
  "barrier_add_waiter this waiter w = on_nodes (link_before waiter (bar_waiters this)) w"

definition barrier_decrement :: "barrier_impl \<Rightarrow> barrier_impl option" where
  "barrier_decrement this = do {
     c \<leftarrow> checked_ptrdiff (counter this - 1);
     Some (this\<lparr>counter := c\<rparr>) }"

definition barrier_impl_try_arrive :: "barrier_impl \<Rightarrow> world \<Rightarrow> (bool \<times> barrier_impl \<times> world) option" where
  "barrier_impl_try_arrive this w = scoped (\<lambda>this. do {
     c \<leftarrow> checked_ptrdiff (counter this - 1);
     let this = this\<lparr>counter := c\<rparr>;
     if counter this = 0 then do {
       w \<leftarrow> holder_complete_all (bar_waiters this) success w;
       Some (True, this\<lparr>counter := init_count this\<rparr>, w) }
     else do {
       c \<leftarrow> checked_ptrdiff (counter this + 1);
       Some (False, this\<lparr>counter := c\<rparr>, w) } }) this"

text \<open>
  The last arrival finds its own operation in the list: \<open>complete_all\<close> completes it too, which
  stores the error code in the caller's variable, and it is unlinked a second time.
\<close>

definition barrier_impl_arrive ::
  "barrier_impl \<Rightarrow> error_code \<Rightarrow> world \<Rightarrow> (error_code call \<times> barrier_impl \<times> world) option" where
  "barrier_impl_arrive this ec w =
     (if \<not> enabled (mtx this) then do {
        (b, this, w) \<leftarrow> barrier_impl_try_arrive this w;
        if b then Some (Returned ec, this, w)
        else Some (Returned in_progress, this, w) }
      else scoped (\<lambda>this. do {
        let (a, w) = new_op (arrive_op_t ec) w;
        w \<leftarrow> barrier_add_waiter this a w;
        this \<leftarrow> barrier_decrement this;
        if counter this = 0 then do {
          w \<leftarrow> holder_complete_all (bar_waiters this) success w;
          let this = this\<lparr>counter := init_count this\<rparr>;
          w \<leftarrow> on_nodes (unlink a) w;
          (ec, w) \<leftarrow> sync_return a w;
          Some (Returned ec, this, w) }
        else Some (Blocked a, this, w) }) this)"

definition barrier_impl_shutdown :: "barrier_impl \<Rightarrow> world \<Rightarrow> (barrier_impl \<times> world) option" where
  "barrier_impl_shutdown this w = do {
     (l, this, w) \<leftarrow> scoped (\<lambda>this. do {
        (l, w) \<leftarrow> holder_move_ctor (bar_waiters this) w;
        Some (l, this, w) }) this;
     w \<leftarrow> holder_shutdown l w;
     w \<leftarrow> holder_dtor l w;
     Some (this, w) }"

definition barrier_impl_move_ctor ::
  "barrier_impl \<Rightarrow> op_list_service \<Rightarrow> world \<Rightarrow> (barrier_impl \<times> barrier_impl \<times> op_list_service \<times> world) option" where
  "barrier_impl_move_ctor rhs svc w = do {
     (sm, svc, w) \<leftarrow> service_member_move_ctor rhs svc w;
     (r, w) \<leftarrow> holder_move_ctor (bar_waiters rhs) w;
     Some (service_member.extend sm (barrier_impl.fields (init_count rhs) (counter rhs) r), rhs, svc, w) }"

definition barrier_impl_move_assign ::
  "barrier_impl \<Rightarrow> barrier_impl \<Rightarrow> op_list_service \<Rightarrow> world \<Rightarrow>
   (barrier_impl \<times> barrier_impl \<times> op_list_service \<times> world) option" where
  "barrier_impl_move_assign this rhs svc w = do {
     (this, rhs, svc, w) \<leftarrow> service_member_move_assign this rhs svc w;
     let this = this\<lparr>init_count := init_count rhs\<rparr>;
     w \<leftarrow> on_nodes (node_move_assign (bar_waiters this) (bar_waiters rhs)) w;
     let this = this\<lparr>counter := counter rhs\<rparr>;
     Some (this, rhs, svc, w) }"

definition barrier_impl_dtor :: "barrier_impl \<Rightarrow> op_list_service \<Rightarrow> world \<Rightarrow> (op_list_service \<times> world) option" where
  "barrier_impl_dtor this svc w = do {
     w \<leftarrow> holder_dtor (bar_waiters this) w;
     service_member_dtor this svc w }"

subsection \<open>The public class\<close>

record basic_barrier =
  bb_exec :: executor
  bb_impl :: barrier_impl

definition basic_barrier_ctor ::
  "executor \<Rightarrow> asio_hints \<Rightarrow> execution_context \<Rightarrow> int \<Rightarrow> int \<Rightarrow> op_list_service \<Rightarrow> world \<Rightarrow>
   (basic_barrier \<times> op_list_service \<times> world) option" where
  "basic_barrier_ctor ex A ctx init hint svc w = do {
     (i, svc, w) \<leftarrow> barrier_impl_ctor A ctx init hint svc w;
     Some (\<lparr>bb_exec = ex, bb_impl = i\<rparr>, svc, w) }"

definition basic_barrier_move_ctor ::
  "basic_barrier \<Rightarrow> op_list_service \<Rightarrow> world \<Rightarrow>
   (basic_barrier \<times> basic_barrier \<times> op_list_service \<times> world) option" where
  "basic_barrier_move_ctor sem svc w = do {
     (i, si, svc, w) \<leftarrow> barrier_impl_move_ctor (bb_impl sem) svc w;
     Some (\<lparr>bb_exec = bb_exec sem, bb_impl = i\<rparr>, sem\<lparr>bb_impl := si\<rparr>, svc, w) }"

text \<open>The constructor from an execution context takes the context's own executor.\<close>

definition basic_barrier_ctor_ctx ::
  "asio_hints \<Rightarrow> execution_context \<Rightarrow> int \<Rightarrow> int \<Rightarrow> op_list_service \<Rightarrow> world \<Rightarrow>
   (basic_barrier \<times> op_list_service \<times> world) option" where
  "basic_barrier_ctor_ctx A ctx init hint svc w = do {
     (i, svc, w) \<leftarrow> barrier_impl_ctor A ctx init hint svc w;
     Some (\<lparr>bb_exec = ctx_executor ctx, bb_impl = i\<rparr>, svc, w) }"

definition basic_barrier_get_executor :: "basic_barrier \<Rightarrow> executor" where
  [simp]: "basic_barrier_get_executor self = bb_exec self"

text \<open>
  Move assignment, and the assignment from a primitive with another executor type.  Both return the target
  first and the source second.
\<close>

definition basic_barrier_move_assign ::
  "basic_barrier \<Rightarrow> basic_barrier \<Rightarrow> op_list_service \<Rightarrow> world \<Rightarrow> (basic_barrier \<times> basic_barrier \<times> op_list_service \<times> world) option" where
  "basic_barrier_move_assign this sem svc w = do {
     let this = this\<lparr>bb_exec := bb_exec sem\<rparr>;
     (i, si, svc, w) \<leftarrow> barrier_impl_move_assign (bb_impl this) (bb_impl sem) svc w;
     Some (this\<lparr>bb_impl := i\<rparr>, sem\<lparr>bb_impl := si\<rparr>, svc, w) }"

definition basic_barrier_move_assign_converting ::
  "basic_barrier \<Rightarrow> basic_barrier \<Rightarrow> op_list_service \<Rightarrow> world \<Rightarrow> (basic_barrier \<times> basic_barrier \<times> op_list_service \<times> world) option" where
  "basic_barrier_move_assign_converting this sem svc w = do {
     let this = this\<lparr>bb_exec := bb_exec sem\<rparr>;
     (i, si, svc, w) \<leftarrow> barrier_impl_move_assign (bb_impl this) (bb_impl sem) svc w;
     Some (this\<lparr>bb_impl := i\<rparr>, sem\<lparr>bb_impl := si\<rparr>, svc, w) }"

definition basic_barrier_try_arrive :: "basic_barrier \<Rightarrow> world \<Rightarrow> (bool \<times> basic_barrier \<times> world) option" where
  "basic_barrier_try_arrive self w = do {
     (b, i, w) \<leftarrow> barrier_impl_try_arrive (bb_impl self) w;
     Some (b, self\<lparr>bb_impl := i\<rparr>, w) }"

definition basic_barrier_arrive ::
  "basic_barrier \<Rightarrow> error_code \<Rightarrow> world \<Rightarrow> (error_code call \<times> basic_barrier \<times> world) option" where
  "basic_barrier_arrive self ec w = do {
     (r, i, w) \<leftarrow> barrier_impl_arrive (bb_impl self) ec w;
     Some (r, self\<lparr>bb_impl := i\<rparr>, w) }"

definition basic_barrier_arrive_throw ::
  "basic_barrier \<Rightarrow> world \<Rightarrow> ((error_code + unit) call \<times> basic_barrier \<times> world) option" where
  "basic_barrier_arrive_throw self w = do {
     (r, self, w) \<leftarrow> basic_barrier_arrive self success w;
     Some (map_call (check_error ''arrive'') r, self, w) }"

text \<open>First critical section of \<open>async_arrive\<close>, with the dispatch if it was the last arrival.\<close>

definition async_arrive_first ::
  "basic_barrier \<Rightarrow> handler \<Rightarrow> world \<Rightarrow> (bool \<times> basic_barrier \<times> world) option" where
  "async_arrive_first self h w = do {
     (b, self, w) \<leftarrow> basic_barrier_try_arrive self w;
     if b then do {
       let ie = get_associated_immediate_executor h (bb_exec self);
       Some (True, self, emit (Dispatch ie h success) w) }
     else Some (False, self, w) }"

text \<open>Second critical section.\<close>

definition async_arrive_second :: "basic_barrier \<Rightarrow> handler \<Rightarrow> world \<Rightarrow> (basic_barrier \<times> world) option" where
  "async_arrive_second self h w = do {
     let e = get_associated_executor h (bb_exec self);
     (u, i, w) \<leftarrow> scoped (\<lambda>impl. do {
        impl \<leftarrow> barrier_decrement impl;
        let (model, w) = basic_op_model_construct e h w;
        let w = slot_assign (basic_op_model_get_cancellation_slot (basic_op_model_ctor e h)) model w;
        w \<leftarrow> barrier_add_waiter impl model w;
        Some ((), impl, w) }) (bb_impl self);
     Some (self\<lparr>bb_impl := i\<rparr>, w) }"

definition basic_barrier_async_arrive :: "basic_barrier \<Rightarrow> handler \<Rightarrow> world \<Rightarrow> (basic_barrier \<times> world) option" where
  "basic_barrier_async_arrive self h w = do {
     (b, self, w) \<leftarrow> async_arrive_first self h w;
     if b then Some (self, w) else async_arrive_second self h w }"

text \<open>
  The initiating function hands the operation to asio's \<open>async_initiate\<close>, a parameter, which makes a handler from the
  completion token and calls the operation with it.
\<close>

definition basic_barrier_async_arrive_init ::
  "((handler \<Rightarrow> world \<Rightarrow> (basic_barrier \<times> world) option) \<Rightarrow> 'token \<Rightarrow> 'r) \<Rightarrow>
   basic_barrier \<Rightarrow> 'token \<Rightarrow> 'r" where
  "basic_barrier_async_arrive_init async_initiate self token = async_initiate (basic_barrier_async_arrive self) token"

definition async_arrive_cancel ::
  "barrier_impl \<Rightarrow> addr \<Rightarrow> slot option \<Rightarrow> nat \<Rightarrow> world \<Rightarrow> (unit \<times> barrier_impl \<times> world) option" where
  "async_arrive_cancel impl model sl type w =
     (if type \<noteq> 0 then scoped (\<lambda>impl.
        if sl = None then Some ((), impl, w)
        else do {
          w \<leftarrow> op_complete operation_aborted model w;
          Some ((), impl, w) }) impl
      else Some ((), impl, w))"

subsection \<open>Abstract view\<close>

text \<open>
  \<open>bar_rel m w q c\<close>: the operations \<open>q\<close> wait, \<open>c\<close> arrivals are still missing.
\<close>

definition bar_rel :: "barrier_impl \<Rightarrow> world \<Rightarrow> (addr \<times> wait_op) list \<Rightarrow> int \<Rightarrow> bool" where
  "bar_rel m w q c \<longleftrightarrow> world_ok w \<and> pending w (bar_waiters m) q \<and> idle (mtx m) \<and> counter m = c"

definition same_barrier :: "barrier_impl \<Rightarrow> barrier_impl \<Rightarrow> bool" where
  "same_barrier m m' \<longleftrightarrow> bar_waiters m' = bar_waiters m \<and> mtx m' = mtx m \<and> init_count m' = init_count m \<and>
     sm_node m' = sm_node m \<and> service m' = service m"

abbreviation bar_range :: "int \<Rightarrow> bool" where
  "bar_range c \<equiv> - (2 ^ 63) < c \<and> c < 2 ^ 63"

lemma bar_relD:
  assumes "bar_rel m w q c"
  shows "world_ok w" "pending w (bar_waiters m) q" "idle (mtx m)" "counter m = c"
  using assms by (simp_all add: bar_rel_def)

lemma bar_keeps:
  "bar_rel m w q c \<Longrightarrow> world_ok w' \<Longrightarrow> untouched (queue_nodes (bar_waiters m) q) w w' \<Longrightarrow> keeps {bar_waiters m} w w'"
  by (rule keeps_queue) (simp_all add: bar_rel_def)

text \<open>The last arrival releases everybody, oldest first, and starts the next round.\<close>

lemma try_arrive_last:
  assumes "bar_rel m w q 1"
  shows "ok (barrier_impl_try_arrive m w) (\<lambda>(b, m', w'). b \<and> same_barrier m m' \<and> bar_rel m' w' [] (init_count m) \<and>
    drained (signals success) success q w w' \<and> keeps {bar_waiters m} w w')"
proof -
  note P = bar_relD[OF assms]
  from holder_complete_all_ok[OF P(1,2), of success] obtain w' where
    w': "holder_complete_all (bar_waiters m) success w = Some w'" "world_ok w'" "pending w' (bar_waiters m) []"
      "drained (signals success) success q w w'" "untouched (queue_nodes (bar_waiters m) q) w w'" by (auto elim!: okE)
  with P bar_keeps[OF assms w'(2,5)] show ?thesis
    unfolding barrier_impl_try_arrive_def
    by (intro scoped_ok) (auto simp: checked_ptrdiff_def bar_rel_def same_barrier_def)
qed

lemma try_arrive_early:
  assumes "bar_rel m w q c" "c \<noteq> 1" "bar_range c"
  shows "barrier_impl_try_arrive m w = Some (False, m, w)"
  using bar_relD[OF assms(1)] assms(2,3) by (auto simp: barrier_impl_try_arrive_def scoped_def checked_ptrdiff_def)

lemma arrive_second_ok:
  assumes "bar_rel (bb_impl m) w q c" "bar_range c"
  shows "ok (async_arrive_second m h w) (\<lambda>(m', w'). bb_exec m' = bb_exec m \<and> same_barrier (bb_impl m) (bb_impl m') \<and>
    bar_rel (bb_impl m') w' (q @ [(brk w, Basic_op \<lparr>work_guard = get_associated_executor h (bb_exec m), op_handler = h\<rparr>)])
      (c - 1) \<and> trace w' = trace w \<and> keeps {bar_waiters (bb_impl m)} w w')"
proof -
  let ?x = "Basic_op \<lparr>work_guard = get_associated_executor h (bb_exec m), op_handler = h\<rparr>"
  note P = bar_relD[OF assms(1)]
  obtain a w1 where n: "new_op ?x w = (a, w1)" by force
  from join_async[OF P(1,2) n unsettled(1)] obtain w2 where
    w2: "on_nodes (link_before a (bar_waiters (bb_impl m))) (slot_assign (h_slot h) a w1) = Some w2" "world_ok w2"
      "pending w2 (bar_waiters (bb_impl m)) (q @ [(brk w, ?x)])" "trace w2 = trace w"
      "untouched (queue_nodes (bar_waiters (bb_impl m)) q) w w2" by auto
  have r: "checked_ptrdiff (c - 1) = Some (c - 1)" using assms(2) by (simp add: checked_ptrdiff_def)
  show ?thesis
    unfolding async_arrive_second_def Let_def ok_bind
    by (rule scoped_ok[OF P(3)])
      (use n w2 P r bar_keeps[OF assms(1) w2(2,5)] in \<open>auto simp: bar_rel_def same_barrier_def barrier_decrement_def basic_op_model_construct_def
         barrier_add_waiter_def\<close>)
qed


subsection \<open>The last blocking arrival\<close>

text \<open>
  \<open>complete_all\<close> leaves the node of the arriving operation, which is last, with both pointers at the root,
  so that the second \<open>unlink\<close> writes what is there already.
\<close>

lemma drain_last_node:
  assumes "world_ok w" "pending w r (q @ [(a, Arrive_op s)])"
  shows "ok (drain (op_complete ec) r w) (\<lambda>w'. get_next a (nodes w') = Some r \<and> get_prev a (nodes w') = Some r)"
  using assms
proof (induction q arbitrary: w)
  case Nil
  then have p: "pending w r ([] @ (a, Arrive_op s) # [])" by simp
  obtain h where h: "ops w a = Some (Arrive_op s)" "unlink a (nodes w) = Some h"
    "is_bilist h r []" "\<forall>y. y \<noteq> r \<longrightarrow> h y = nodes w y"
    by (rule queued_unlink[OF Nil(1) p]) simp
  have l: "get_next r (nodes w) = Some a" "a \<noteq> r" "get_next a (nodes w) = Some r" "get_prev a (nodes w) = Some r"
    using p by (auto simp: pending_def is_bilist_def link_def)
  obtain w1 where c: "op_complete ec a w = Some w1" "nodes w1 = h"
    using h(1,2) by (simp add: op_complete_def arrive_op_t_complete_def sync_finish_def on_nodes_def)
  have "h a = nodes w a" "get_next r h = Some r" using h(3,4) l(2) by (simp_all add: is_bilist_next)
  then have "drain (op_complete ec) r w1 = Some w1" "get_next a h = Some r" "get_prev a h = Some r"
    using c l(3,4) by (auto simp: drain.simps[of _ _ w1] get_next_def get_prev_def)
  with c l(1,2) show ?case by (subst drain.simps) simp
next
  case (Cons bx q)
  obtain b x where bx: "bx = (b, x)" by force
  from Cons.prems bx have p: "pending w r ([] @ (b, x) # q @ [(a, Arrive_op s)])" by simp
  from complete_pending[OF Cons.prems(1) p] obtain w1 where
    w1: "op_complete ec b w = Some w1" "world_ok w1" "pending w1 r (q @ [(a, Arrive_op s)])" by auto
  have "get_next r (nodes w) = Some b \<and> b \<noteq> r" using p pending_head[of w r b x] by simp
  with w1 Cons.IH[OF w1(2,3)] show ?case by (subst drain.simps) simp
qed

lemma unlink_again:
  assumes "is_bilist h r []" "get_next a h = Some r" "get_prev a h = Some r"
  shows "unlink a h = Some h"
  using assms by (auto simp: unlink_def heap_access is_bilist_def link_def fun_upd_idem)

lemma last_arrival_leaves:
  assumes "world_ok w" "joined r q (Arrive_op \<lparr>op_ec = ec, op_done = False\<rparr>) w w2"
  obtains w3 w4 where "holder_complete_all r success w2 = Some w3" "on_nodes (unlink (brk w)) w3 = Some w3"
    "sync_return (brk w) w3 = Some (success, w4)" "world_ok w4" "pending w4 r []"
    "trace w4 = trace w @ concat (map (\<lambda>(a, x). signals success a x) q) @ [Wake (brk w) success]"
    "pending w r q \<longrightarrow> keeps {r} w w4"
proof -
  let ?a = "brk w" and ?x = "Arrive_op \<lparr>op_ec = ec, op_done = False\<rparr>"
  have j: "world_ok w2" "pending w2 r (q @ [(?a, ?x)])" "trace w2 = trace w" using assms(2) by (auto simp: joined_def)
  from holder_complete_all_ok[OF j(1,2), of success] obtain w3 where
    w3: "holder_complete_all r success w2 = Some w3" "world_ok w3" "pending w3 r []"
      "drained (signals success) success (q @ [(?a, ?x)]) w2 w3" "untouched (queue_nodes r (q @ [(?a, ?x)])) w2 w3"
    by (auto elim!: okE)
  have n: "get_next ?a (nodes w3) = Some r" "get_prev ?a (nodes w3) = Some r"
    using drain_last_node[OF j(1,2), of success] w3(1) by (auto simp: holder_complete_all_def elim!: okE)
  have u: "on_nodes (unlink ?a) w3 = Some w3"
    using unlink_again[OF _ n] w3(3) by (simp add: on_nodes_def pending_def)
  have a: "?a \<notin> set (r # map fst q)" using pending_distinct[OF j(2)] by auto
  then have m: "map_of (q @ [(?a, ?x)]) ?a = Some ?x" using assoc_split(1)[of q ?a ?x "[]"] pending_distinct[OF j(2)] by simp
  have o: "ops w3 ?a = Some (Arrive_op \<lparr>op_ec = success, op_done = True\<rparr>)"
    using w3(4) m by (simp add: drained_def)
  let ?w4 = "w3\<lparr>nodes := (nodes w3)(?a := None), ops := (ops w3)(?a := None)\<rparr>"
  have r: "sync_return ?a w3 = Some (success, ?w4)"
    using o n(1) by (auto simp: sync_return_def destroy_def free_node_def get_next_def)
  have B: "is_bilist ((nodes w3)(?a := None)) r []"
    by (rule is_bilist_frameI[of "nodes w3"]) (use w3(3) a in \<open>auto simp: pending_def\<close>)
  have "world_ok ?w4" using w3(2) o by (fastforce simp: world_ok_def)
  moreover have "pending ?w4 r []" using B w3(3) by (simp add: pending_def)
  moreover have "keeps {r} w w4" if "pending w r q" "w4 = ?w4" for w4
  proof -
    have "keeps {r} w w2" using assms(2) by (intro keeps_queue[OF j(1) that(1)]) (simp add: joined_def)
    moreover have "keeps {r} w2 w3" by (rule keeps_queue[OF w3(2) j(2) w3(5)])
    moreover have "keeps {?a} w3 ?w4" by (rule sync_return_ok(4)[OF r w3(2) o]) simp
    ultimately have "keeps (insert ?a {r}) w ?w4" by (blast intro: keeps_trans keeps_mono)
    moreover have "?a \<notin> dom (nodes w)" using assms(1) by (auto simp: world_ok_def)
    ultimately show ?thesis using that(2) by (simp add: keeps_fresh)
  qed
  ultimately show thesis using that[OF w3(1) u r] w3(4) j(3) by (simp add: drained_def)
qed

lemma arrive_last:
  assumes "bar_rel m w q 1" "enabled (mtx m)"
  shows "ok (barrier_impl_arrive m ec w) (\<lambda>(r, m', w'). r = Returned success \<and> same_barrier m m' \<and>
    bar_rel m' w' [] (init_count m) \<and>
    trace w' = trace w @ concat (map (\<lambda>(a, x). signals success a x) q) @ [Wake (brk w) success] \<and> keeps {bar_waiters m} w w')"
proof -
  let ?x = "Arrive_op \<lparr>op_ec = ec, op_done = False\<rparr>"
  note P = bar_relD[OF assms(1)]
  obtain a w1 where n: "new_op ?x w = (a, w1)" by force
  from join_sync[OF P(1,2) n unsettled(5)] obtain w2 where w2: "on_nodes (link_before a (bar_waiters m)) w1 = Some w2"
    "joined (bar_waiters m) q ?x w w2" "a = brk w" .
  from last_arrival_leaves[OF P(1) w2(2)] obtain w3 w4 where
    w4: "holder_complete_all (bar_waiters m) success w2 = Some w3" "on_nodes (unlink (brk w)) w3 = Some w3"
      "sync_return (brk w) w3 = Some (success, w4)" "world_ok w4" "pending w4 (bar_waiters m) []"
      "trace w4 = trace w @ concat (map (\<lambda>(a, x). signals success a x) q) @ [Wake (brk w) success]"
      "pending w (bar_waiters m) q \<longrightarrow> keeps {bar_waiters m} w w4" .
  show ?thesis
    unfolding barrier_impl_arrive_def using assms(2)
    apply (simp add: n)
    apply (rule scoped_ok[OF P(3)])
    using w2 w4 P
    by (auto simp: bar_rel_def same_barrier_def barrier_add_waiter_def barrier_decrement_def checked_ptrdiff_def)
qed

lemma arrive_early:
  assumes "bar_rel m w q c" "enabled (mtx m)" "c \<noteq> 1" "bar_range c"
  shows "ok (barrier_impl_arrive m ec w) (\<lambda>(r, m', w'). r = Blocked (brk w) \<and> same_barrier m m' \<and>
    bar_rel m' w' (q @ [(brk w, Arrive_op \<lparr>op_ec = ec, op_done = False\<rparr>)]) (c - 1) \<and> trace w' = trace w \<and>
    keeps {bar_waiters m} w w')"
proof -
  let ?x = "Arrive_op \<lparr>op_ec = ec, op_done = False\<rparr>"
  note P = bar_relD[OF assms(1)]
  obtain a w1 where n: "new_op ?x w = (a, w1)" by force
  from join_sync[OF P(1,2) n unsettled(5)] obtain w2 where w2: "on_nodes (link_before a (bar_waiters m)) w1 = Some w2"
    "joined (bar_waiters m) q ?x w w2" "a = brk w" .
  have r: "checked_ptrdiff (c - 1) = Some (c - 1)" using assms(4) by (simp add: checked_ptrdiff_def)
  show ?thesis
    unfolding barrier_impl_arrive_def using assms(2)
    apply (simp add: n)
    apply (rule scoped_ok[OF P(3)])
    using w2 P r assms(3) bar_keeps[OF assms(1), of w2]
    by (auto simp: bar_rel_def same_barrier_def barrier_add_waiter_def barrier_decrement_def joined_def)
qed

lemma arrive_single_threaded:
  assumes "bar_rel m w q c" "\<not> enabled (mtx m)" "c \<noteq> 1" "bar_range c"
  shows "barrier_impl_arrive m ec w = Some (Returned in_progress, m, w)"
  using try_arrive_early[OF assms(1,3,4)] assms(2) by (simp add: barrier_impl_arrive_def)

end
