(* ===== verification/Barrier_Props.thy ===== *)
theory Barrier_Props
  imports Barrier_Impl
begin

section \<open>Properties of the barrier\<close>

text \<open>
  Histories of a barrier whose asynchronous arrivals are not interleaved with other calls, what
  holds in all of them, and what an interleaving of two arrivals does.  The histories with every interleaving are
  those of \<open>Barrier_Race\<close>.
\<close>

subsection \<open>Lifecycle and cancellation\<close>

lemma barrier_ctor_ok:
  assumes "world_ok w" "registered w svc ms"
  shows "ok (basic_barrier_ctor ex A ctx n hint svc w) (\<lambda>(m, svc', w'). bb_exec m = ex \<and> svc' = svc \<and>
    bar_rel (bb_impl m) w' [] n \<and> init_count (bb_impl m) = n \<and>
    enabled (mtx (bb_impl m)) = (\<not> is_single_threaded A ctx hint) \<and> sm_node (bb_impl m) = brk w \<and>
    service (bb_impl m) = Some (entries svc) \<and> registered w' svc (ms @ [brk w]) \<and> trace w' = trace w \<and>
    bar_waiters (bb_impl m) = Suc (brk w) \<and> spares (set (entries svc # ms)) w w' \<and>
    {brk w, Suc (brk w)} \<inter> dom (nodes w) = {})"
  by (rule member_ctor[OF assms, of A ctx hint])
    (simp add: basic_barrier_ctor_def barrier_impl_ctor_def bar_rel_def service_member.defs barrier_impl.defs)

lemma barrier_cancel_ok:
  assumes "bar_rel m w (ys @ (a, x) # zs) c" "type \<noteq> 0" "sl \<noteq> None"
  shows "ok (async_arrive_cancel m a sl type w) (\<lambda>(u, m', w'). m' = m \<and> bar_rel m w' (ys @ zs) c \<and>
    trace w' = trace w @ signals operation_aborted a x \<and> keeps {bar_waiters m} w w')"
proof -
  note P = bar_relD[OF assms(1)]
  from complete_pending[OF P(1,2)] obtain w' where "op_complete operation_aborted a w = Some w'" "world_ok w'"
    "pending w' (bar_waiters m) (ys @ zs)" "trace w' = trace w @ signals operation_aborted a x"
    "untouched (queue_nodes (bar_waiters m) (ys @ (a, x) # zs)) w w'" by metis
  with assms P bar_keeps[OF assms(1)] show ?thesis
    unfolding async_arrive_cancel_def by (auto simp: bar_rel_def intro!: scoped_ok[OF P(3)])
qed

lemma barrier_shutdown_ok:
  assumes "bar_rel m w q c"
  shows "ok (barrier_impl_shutdown m w) (\<lambda>(m', w'). m' = m \<and> bar_rel m w' [] c \<and>
    drained shutdown_signals shut_down q (w\<lparr>brk := brk w + 2\<rparr>) w')"
proof -
  note P = bar_relD[OF assms]
  from move_shutdown[OF P(1,2)] obtain l w1 w2 w3 where
    "holder_move_ctor (bar_waiters m) w = Some (l, w1)" "holder_shutdown l w1 = Some w2" "holder_dtor l w2 = Some w3"
    "world_ok w3" "pending w3 (bar_waiters m) []"
    "drained shutdown_signals shut_down q (w\<lparr>brk := brk w + 2\<rparr>) w3" .
  then show ?thesis
    unfolding barrier_impl_shutdown_def ok_bind
    by (intro scoped_ok[OF P(3)]) (use P in \<open>simp add: bar_rel_def\<close>)
qed

lemma barrier_dtor_ok:
  assumes "bar_rel m w q c" "registered w svc (ms @ sm_node m # ns)" "service m = Some (entries svc)"
    and "bar_waiters m \<notin> set (entries svc # ms @ sm_node m # ns)"
  shows "ok (barrier_impl_dtor m svc w) (\<lambda>(svc', w'). svc' = svc \<and> world_ok w' \<and> registered w' svc (ms @ ns) \<and>
    nodes w' (bar_waiters m) = None \<and> nodes w' (sm_node m) = None \<and>
    drained (signals operation_aborted) operation_aborted q w w' \<and>
    spares (insert (bar_waiters m) (set (entries svc # ms @ sm_node m # ns))) w w')"
  using member_dtor_ok[OF bar_relD(1-3)[OF assms(1)] assms(2-4)] by (simp add: barrier_impl_dtor_def)

text \<open>Moving a barrier moves its queue and copies the counter.\<close>

lemma barrier_move_ctor_ok:
  assumes "bar_rel (bb_impl m) w q d" "registered w svc ms" "service (bb_impl m) = Some (entries svc)"
    and "bar_waiters (bb_impl m) \<notin> set (entries svc # ms)"
  shows "ok (basic_barrier_move_ctor m svc w) (\<lambda>(t, m', svc', w'). svc' = svc \<and> m' = m \<and> bb_exec t = bb_exec m \<and>
    bar_rel (bb_impl t) w' q d \<and> bar_rel (bb_impl m) w' [] d \<and> init_count (bb_impl t) = init_count (bb_impl m) \<and>
    registered w' svc (ms @ [sm_node (bb_impl t)]) \<and>
    trace w' = trace w \<and> service (bb_impl t) = Some (entries svc) \<and> sm_node (bb_impl t) = brk w \<and>
    bar_waiters (bb_impl t) = Suc (brk w) \<and> spares (insert (bar_waiters (bb_impl m)) (set (entries svc # ms))) w w')"
  by (rule member_move_ctor[OF bar_relD(1,2)[OF assms(1)] assms(2-4)])
    (use assms(1) in \<open>simp add: basic_barrier_move_ctor_def barrier_impl_move_ctor_def bar_rel_def
       service_member.defs barrier_impl.defs\<close>)

subsection \<open>Uninterrupted asynchronous arrivals\<close>

abbreviation arrival :: "basic_barrier \<Rightarrow> handler \<Rightarrow> wait_op" where
  "arrival m h \<equiv> Basic_op \<lparr>work_guard = get_associated_executor h (bb_exec m), op_handler = h\<rparr>"

lemma first_last:
  assumes "bar_rel (bb_impl m) w q 1"
  shows "ok (async_arrive_first m h w) (\<lambda>(b, m', w'). b \<and> bb_exec m' = bb_exec m \<and>
    same_barrier (bb_impl m) (bb_impl m') \<and> bar_rel (bb_impl m') w' [] (init_count (bb_impl m)) \<and>
    trace w' = trace w @ concat (map (\<lambda>(a, x). signals success a x) q) @
      [Dispatch (get_associated_immediate_executor h (bb_exec m)) h success] \<and> keeps {bar_waiters (bb_impl m)} w w')"
  using try_arrive_last[OF assms]
  by (auto simp: async_arrive_first_def basic_barrier_try_arrive_def bar_rel_def drained_def keeps_emit elim!: okE)

lemma first_early:
  assumes "bar_rel (bb_impl m) w q c" "c \<noteq> 1" "bar_range c"
  shows "async_arrive_first m h w = Some (False, m, w)"
  using try_arrive_early[OF assms] by (simp add: async_arrive_first_def basic_barrier_try_arrive_def)

lemma async_arrive_last:
  assumes "bar_rel (bb_impl m) w q 1"
  shows "ok (basic_barrier_async_arrive m h w) (\<lambda>(m', w'). bb_exec m' = bb_exec m \<and>
    same_barrier (bb_impl m) (bb_impl m') \<and> bar_rel (bb_impl m') w' [] (init_count (bb_impl m)) \<and>
    trace w' = trace w @ concat (map (\<lambda>(a, x). signals success a x) q) @
      [Dispatch (get_associated_immediate_executor h (bb_exec m)) h success] \<and> keeps {bar_waiters (bb_impl m)} w w')"
  using first_last[OF assms, of h] by (auto simp: basic_barrier_async_arrive_def elim!: okE)

lemma async_arrive_early:
  assumes "bar_rel (bb_impl m) w q c" "c \<noteq> 1" "bar_range c"
  shows "ok (basic_barrier_async_arrive m h w) (\<lambda>(m', w'). bb_exec m' = bb_exec m \<and>
    same_barrier (bb_impl m) (bb_impl m') \<and> bar_rel (bb_impl m') w' (q @ [(brk w, arrival m h)]) (c - 1) \<and>
    trace w' = trace w \<and> keeps {bar_waiters (bb_impl m)} w w')"
  using first_early[OF assms] arrive_second_ok[OF assms(1,3), of h] by (simp add: basic_barrier_async_arrive_def)

subsection \<open>Histories\<close>

text \<open>
  The third component counts the arrivals of the current round that were cancelled.  An arrival is cancelled under the
  internal mutex of the object \<open>i\<close> that it arrived at, which a move may have left behind.  Moving leaves the new
  object, with the waiting arrivals, and the old one with the same counter; there the arrivals that moved
  away count as cancelled.
\<close>

inductive barrier_action :: "basic_barrier \<times> world \<times> nat \<Rightarrow> basic_barrier \<times> world \<times> nat \<Rightarrow> bool" where
  try_arrive: "basic_barrier_try_arrive m w = Some (b, m', w') \<Longrightarrow>
    barrier_action (m, w, c) (m', w', if b then 0 else c)"
| arrive: "basic_barrier_arrive m success w = Some (r, m', w') \<Longrightarrow>
    barrier_action (m, w, c) (m', w', if r = Returned success then 0 else c)"
| async_arrive: "basic_barrier_async_arrive m h w = Some (m', w') \<Longrightarrow>
    barrier_action (m, w, c) (m', w', if grants w w' > 0 then 0 else c)"
| cancel: "pending w (bar_waiters (bb_impl m)) q \<Longrightarrow> (a, x) \<in> set q \<Longrightarrow> op_slot x = Some s \<Longrightarrow> slots w s = Some a \<Longrightarrow>
    type \<noteq> 0 \<Longrightarrow> async_arrive_cancel i a (Some s) type w = Some (u, i', w') \<Longrightarrow>
    barrier_action (m, w, c) (m, w', Suc c)"

inductive barrier_step :: "basic_barrier \<times> world \<times> nat \<Rightarrow> basic_barrier \<times> world \<times> nat \<Rightarrow> bool" where
  call: "barrier_action c c' \<Longrightarrow> barrier_step c c'"
| other: "world_ok w' \<Longrightarrow> \<forall>q. pending w (bar_waiters (bb_impl m)) q \<longrightarrow> pending w' (bar_waiters (bb_impl m)) q \<Longrightarrow>
    barrier_step (m, w, c) (m, w', c)"

inductive barrier_reachable :: "basic_barrier \<times> world \<times> nat \<Rightarrow> bool" where
  init: "world_ok w \<Longrightarrow> registered w svc ms \<Longrightarrow> 1 \<le> n \<Longrightarrow> n < 2 ^ 63 \<Longrightarrow>
    basic_barrier_ctor ex A ctx n hint svc w = Some (m, svc', w') \<Longrightarrow> barrier_reachable (m, w', 0)"
| step: "barrier_reachable c \<Longrightarrow> barrier_step c c' \<Longrightarrow> barrier_reachable c'"
| move: "barrier_reachable (m, w, c) \<Longrightarrow> registered w svc ms \<Longrightarrow> service (bb_impl m) = Some (entries svc) \<Longrightarrow>
    bar_waiters (bb_impl m) \<notin> set (entries svc # ms) \<Longrightarrow> basic_barrier_move_ctor m svc w = Some (t, m', svc', w') \<Longrightarrow>
    s = (t, w', c) \<or> s = (m', w', nat (init_count (bb_impl m) - counter (bb_impl m))) \<Longrightarrow> barrier_reachable s"

definition missing :: "barrier_impl \<Rightarrow> (addr \<times> wait_op) list \<Rightarrow> nat \<Rightarrow> int" where
  "missing m q c = init_count m - int (length q) - int c"

fun barrier_inv :: "basic_barrier \<times> world \<times> nat \<Rightarrow> bool" where
  "barrier_inv (m, w, c) \<longleftrightarrow> init_count (bb_impl m) < 2 ^ 63 \<and>
     (\<exists>q. bar_rel (bb_impl m) w q (missing (bb_impl m) q c) \<and> 1 \<le> missing (bb_impl m) q c)"

lemma barrier_invI:
  "init_count (bb_impl m) < 2 ^ 63 \<Longrightarrow> bar_rel (bb_impl m) w q (missing (bb_impl m) q c) \<Longrightarrow>
   1 \<le> missing (bb_impl m) q c \<Longrightarrow> barrier_inv (m, w, c)"
  by auto

lemma barrier_invE:
  assumes "barrier_inv (m, w, c)"
  obtains q d where "bar_rel (bb_impl m) w q d" "d = missing (bb_impl m) q c" "1 \<le> d" "d < 2 ^ 63" "bar_range d"
    "1 \<le> init_count (bb_impl m)" "init_count (bb_impl m) < 2 ^ 63"
  using assms by (auto simp: missing_def)

declare barrier_inv.simps [simp del]

lemma released_inv:
  assumes "bar_rel i w' [] (init_count i0)" "same_barrier i0 i" "1 \<le> init_count i0" "init_count i0 < 2 ^ 63"
    and "bb_impl m' = i"
  shows "barrier_inv (m', w', 0)"
  using assms by (intro barrier_invI[of _ _ "[]"]) (simp_all add: missing_def same_barrier_def)

lemma joined_inv:
  assumes "bar_rel i w' (q @ [ax]) (missing i0 q c - 1)" "same_barrier i0 i"
    and "missing i0 q c \<noteq> 1" "1 \<le> missing i0 q c" "init_count i0 < 2 ^ 63" "bb_impl m' = i"
  shows "barrier_inv (m', w', c)"
proof -
  have "missing i (q @ [ax]) c = missing i0 q c - 1" using assms(2) by (simp add: missing_def same_barrier_def)
  then show ?thesis
    using assms by (intro barrier_invI[of _ _ "q @ [ax]"]) (auto simp: same_barrier_def)
qed

text \<open>Every call preserves the invariant.\<close>

lemma barrier_try_arrive_inv:
  assumes "basic_barrier_try_arrive m w = Some (b, m', w')"
    and "barrier_inv (m, w, c)"
  shows "barrier_inv (m', w', if b then 0 else c)"
proof -
  from assms(2) obtain q d where I: "bar_rel (bb_impl m) w q d" "d = missing (bb_impl m) q c" "1 \<le> d" "bar_range d"
    "1 \<le> init_count (bb_impl m)" "init_count (bb_impl m) < 2 ^ 63" by (rule barrier_invE)
  show ?thesis
  proof (cases "d = 1")
    case True
    with try_arrive_last[of "bb_impl m" w q] I assms(1) obtain i where
      "bar_rel i w' [] (init_count (bb_impl m))" "same_barrier (bb_impl m) i" "bb_impl m' = i" b
      by (auto simp: basic_barrier_try_arrive_def elim!: okE)
    with released_inv[of i w' "bb_impl m" m'] I show ?thesis by simp
  next
    case False
    with try_arrive_early[OF I(1) False I(4)] assms show ?thesis by (auto simp: basic_barrier_try_arrive_def)
  qed
qed

lemma barrier_arrive_inv:
  assumes "basic_barrier_arrive m success w = Some (r, m', w')"
    and "barrier_inv (m, w, c)"
  shows "barrier_inv (m', w', if r = Returned success then 0 else c)"
proof -
  from assms(2) obtain q d where I: "bar_rel (bb_impl m) w q d" "d = missing (bb_impl m) q c" "1 \<le> d" "bar_range d"
    "1 \<le> init_count (bb_impl m)" "init_count (bb_impl m) < 2 ^ 63" by (rule barrier_invE)
  from assms(1) obtain i where i: "barrier_impl_arrive (bb_impl m) success w = Some (r, i, w')" "m' = m\<lparr>bb_impl := i\<rparr>"
    by (auto simp: basic_barrier_arrive_def split: bind_splits)
  show ?thesis
  proof (cases "enabled (mtx (bb_impl m))")
    case True
    show ?thesis
    proof (cases "d = 1")
      case True
      with arrive_last[of "bb_impl m" w q success] \<open>enabled _\<close> I i
      have "bar_rel i w' [] (init_count (bb_impl m))" "same_barrier (bb_impl m) i" "r = Returned success"
        by (auto elim!: okE)
      with released_inv[of i w' "bb_impl m" m'] I i show ?thesis by simp
    next
      case False
      from arrive_early[OF I(1) True False I(4), of success] i obtain ax where
        "bar_rel i w' (q @ [ax]) (d - 1)" "same_barrier (bb_impl m) i" "r = Blocked (brk w)" by (auto elim!: okE)
      with joined_inv[of i w' q ax "bb_impl m" c m'] I i False show ?thesis by simp
    qed
  next
    case False
    note st = False
    show ?thesis
    proof (cases "d = 1")
      case True
      with try_arrive_last[of "bb_impl m" w q] st I i
      have "bar_rel i w' [] (init_count (bb_impl m))" "same_barrier (bb_impl m) i" "r = Returned success"
        by (auto simp: barrier_impl_arrive_def elim!: okE)
      with released_inv[of i w' "bb_impl m" m'] I i show ?thesis by simp
    next
      case False
      with arrive_single_threaded[OF I(1) st False I(4)] i assms(2) show ?thesis by auto
    qed
  qed
qed

lemma barrier_async_arrive_inv:
  assumes "basic_barrier_async_arrive m h w = Some (m', w')"
    and "barrier_inv (m, w, c)"
  shows "barrier_inv (m', w', if grants w w' > 0 then 0 else c)"
proof -
  from assms(2) obtain q d where I: "bar_rel (bb_impl m) w q d" "d = missing (bb_impl m) q c" "1 \<le> d" "bar_range d"
    "1 \<le> init_count (bb_impl m)" "init_count (bb_impl m) < 2 ^ 63" by (rule barrier_invE)
  show ?thesis
  proof (cases "d = 1")
    case True
    with async_arrive_last[of m w q h] I assms(1)
    have "bar_rel (bb_impl m') w' [] (init_count (bb_impl m))" "same_barrier (bb_impl m) (bb_impl m')" "grants w w' > 0"
      by (auto elim!: okE)
    with released_inv[of "bb_impl m'" w' "bb_impl m" m'] I show ?thesis by simp
  next
    case False
    from async_arrive_early[OF I(1) False I(4), of h] assms(1) obtain ax where
      "bar_rel (bb_impl m') w' (q @ [ax]) (d - 1)" "same_barrier (bb_impl m) (bb_impl m')" "trace w' = trace w @ []"
      by (auto elim!: okE)
    with joined_inv[of "bb_impl m'" w' q ax "bb_impl m" c m'] I False show ?thesis by simp
  qed
qed

lemma barrier_cancel_elsewhere:
  "async_arrive_cancel i a (Some sl) type w = Some (u, i', w') \<Longrightarrow> idle (mtx m) \<Longrightarrow>
   async_arrive_cancel m a (Some sl) type w = Some ((), m, w')"
  unfolding async_arrive_cancel_def by (auto intro: scoped_elsewhere split: if_splits)

lemma barrier_cancel_inv:
  assumes "pending w (bar_waiters (bb_impl m)) q" "(a, x) \<in> set q" "op_slot x = Some s" "slots w s = Some a"
    "type \<noteq> 0" "async_arrive_cancel i a (Some s) type w = Some (u, i', w')"
    and "barrier_inv (m, w, c)"
  shows "barrier_inv (m, w', Suc c)"
proof -
  from assms(7) obtain p d where I: "bar_rel (bb_impl m) w p d" "d = missing (bb_impl m) p c" "1 \<le> d" "bar_range d"
    "1 \<le> init_count (bb_impl m)" "init_count (bb_impl m) < 2 ^ 63" by (rule barrier_invE)
  have "p = q" using I(1) assms(1) by (auto simp: bar_rel_def intro: pending_unique)
  with assms(2) obtain ys zs where q: "p = ys @ (a, x) # zs" by (metis split_list)
  from barrier_cancel_ok[OF I(1)[unfolded q] assms(5), of "Some s"]
    barrier_cancel_elsewhere[OF assms(6) bar_relD(3)[OF I(1)]]
  have "bar_rel (bb_impl m) w' (ys @ zs) d" by (auto elim!: okE)
  moreover have "missing (bb_impl m) (ys @ zs) (Suc c) = d" using I(2) by (simp add: q missing_def)
  ultimately show ?thesis using I by (intro barrier_invI[of _ _ "ys @ zs"]) simp_all
qed

lemma barrier_other_inv:
  assumes "world_ok w'"
    "\<forall>q. pending w (bar_waiters (bb_impl m)) q \<longrightarrow> pending w' (bar_waiters (bb_impl m)) q"
    and "barrier_inv (m, w, c)"
  shows "barrier_inv (m, w', c)"
proof -
  from assms show ?thesis by (auto simp: bar_rel_def barrier_inv.simps)
qed

lemmas barrier_calls_inv =
  barrier_try_arrive_inv barrier_arrive_inv barrier_async_arrive_inv
  barrier_cancel_inv

lemma barrier_action_inv:
  assumes "barrier_action c c'" "barrier_inv c"
  shows "barrier_inv c'"
  using assms by (induction rule: barrier_action.induct) (blast intro: barrier_calls_inv)+

lemma barrier_step_inv:
  assumes "barrier_step c c'" "barrier_inv c"
  shows "barrier_inv c'"
  using assms by (induction rule: barrier_step.induct) (blast intro: barrier_action_inv barrier_other_inv)+

lemma barrier_reachable_inv: "barrier_reachable s \<Longrightarrow> barrier_inv s"
proof (induction rule: barrier_reachable.induct)
  case (init w svc ms n ex A ctx hint m svc' w')
  from barrier_ctor_ok[OF init(1,2), of ex A ctx n hint] init(3-5) show ?case
    by (auto simp: missing_def elim!: okE intro!: barrier_invI[of _ _ "[]"])
next
  case (move m w c svc ms t m' svc' w' s)
  from move(7) obtain q d where I: "bar_rel (bb_impl m) w q d" "d = missing (bb_impl m) q c" "1 \<le> d"
    "init_count (bb_impl m) < 2 ^ 63" by (rule barrier_invE)
  from barrier_move_ctor_ok[OF I(1) move(2-4)] move(5) have
    t: "bar_rel (bb_impl t) w' q d" "bar_rel (bb_impl m) w' [] d" "init_count (bb_impl t) = init_count (bb_impl m)" "m' = m"
    by (auto elim!: okE)
  have "barrier_inv (t, w', c)"
    by (rule barrier_invI[of _ _ q]) (use t I in \<open>simp_all add: missing_def\<close>)
  moreover have "missing (bb_impl m) [] (nat (init_count (bb_impl m) - counter (bb_impl m))) = d"
    using I(1,2) by (simp add: missing_def bar_rel_def)
  with t(2) I have "barrier_inv (m, w', nat (init_count (bb_impl m) - counter (bb_impl m)))"
    by (intro barrier_invI[of _ _ "[]"]) simp_all
  ultimately show ?case using move(6) t(4) by blast
qed (blast intro: barrier_step_inv)


text \<open>A blocking arrival stays within the list of the object and keeps its identity.\<close>

lemma barrier_arrive_local:
  assumes "barrier_impl_arrive m ec w = Some (r, m', w')" "bar_rel m w q c" "bar_range c"
  shows "same_barrier m m' \<and> keeps {bar_waiters m} w w'"
proof (cases "c = 1")
  case True
  with assms try_arrive_last[of m w q] arrive_last[of m w q ec] show ?thesis
    by (cases "enabled (mtx m)") (auto simp: barrier_impl_arrive_def elim!: okE)
next
  case False
  with assms arrive_early[OF assms(2) _ False assms(3), of ec] arrive_single_threaded[OF assms(2) _ False assms(3), of ec]
    bar_relD(1)[OF assms(2)]
  show ?thesis by (cases "enabled (mtx m)") (auto simp: same_barrier_def elim!: okE)
qed

subsection \<open>Two arrivals at once\<close>

text \<open>Further arrivals at a barrier whose counter is not positive.\<close>

fun async_arrive_all :: "handler list \<Rightarrow> basic_barrier \<Rightarrow> world \<Rightarrow> (basic_barrier \<times> world) option" where
  "async_arrive_all [] m w = Some (m, w)"
| "async_arrive_all (h # hs) m w = do { (m, w) \<leftarrow> basic_barrier_async_arrive m h w; async_arrive_all hs m w }"

lemma dead_barrier:
  assumes "bar_rel (bb_impl m) w q c" "c \<le> 0" "- (2 ^ 63) < c - int (length hs)"
  shows "ok (async_arrive_all hs m w) (\<lambda>(m', w'). trace w' = trace w \<and> bar_waiters (bb_impl m') = bar_waiters (bb_impl m) \<and>
    (\<exists>p. bar_rel (bb_impl m') w' (q @ p) (c - int (length hs)) \<and> length p = length hs))"
  using assms
proof (induction hs arbitrary: m w q c)
  case Nil
  then show ?case by (auto intro!: exI[of _ "[]"])
next
  case (Cons h hs)
  have "c \<noteq> 1" "bar_range c" using Cons.prems by auto
  from async_arrive_early[OF Cons.prems(1) this, of h] obtain m1 w1 where
    1: "basic_barrier_async_arrive m h w = Some (m1, w1)" "same_barrier (bb_impl m) (bb_impl m1)"
      "bar_rel (bb_impl m1) w1 (q @ [(brk w, arrival m h)]) (c - 1)" "trace w1 = trace w" by (auto elim!: okE)
  have "c - 1 \<le> 0" "- (2 ^ 63) < c - 1 - int (length hs)" using Cons.prems by auto
  from Cons.IH[OF 1(3) this] obtain m2 w2 p where
    "async_arrive_all hs m1 w1 = Some (m2, w2)" "trace w2 = trace w1" "bar_waiters (bb_impl m2) = bar_waiters (bb_impl m1)"
    "bar_rel (bb_impl m2) w2 (q @ (brk w, arrival m h) # p) (c - 1 - int (length hs))" "length p = length hs"
    by (auto elim!: okE)
  with 1 show ?case
    by (auto simp: same_barrier_def diff_diff_eq add.commute intro!: exI[of _ "(brk w, arrival m h) # p"])
qed

lemma racing_arrivals:
  assumes "bar_rel (bb_impl m) w q 2"
  shows "ok (do {
      (b1, m1, w1) \<leftarrow> async_arrive_first m h1 w;
      (b2, m2, w2) \<leftarrow> async_arrive_first m1 h2 w1;
      (m3, w3) \<leftarrow> async_arrive_second m2 h1 w2;
      async_arrive_second m3 h2 w3 })
    (\<lambda>(m', w'). trace w' = trace w \<and> bar_waiters (bb_impl m') = bar_waiters (bb_impl m) \<and>
      (\<exists>a1 x1 a2 x2. bar_rel (bb_impl m') w' (q @ [(a1, x1), (a2, x2)]) 0))"
proof -
  have f: "async_arrive_first m h w = Some (False, m, w)" for h by (rule first_early[OF assms]) simp_all
  from arrive_second_ok[OF assms, of h1] obtain m3 w3 a1 x1 where
    3: "async_arrive_second m h1 w = Some (m3, w3)" "same_barrier (bb_impl m) (bb_impl m3)"
      "bar_rel (bb_impl m3) w3 (q @ [(a1, x1)]) 1" "trace w3 = trace w" by (auto elim!: okE)
  from arrive_second_ok[OF 3(3), of h2] obtain m4 w4 a2 x2 where
    "async_arrive_second m3 h2 w3 = Some (m4, w4)" "same_barrier (bb_impl m3) (bb_impl m4)"
      "bar_rel (bb_impl m4) w4 (q @ [(a1, x1), (a2, x2)]) 0" "trace w4 = trace w3" by (auto elim!: okE)
  with f 3 show ?thesis by (auto simp: same_barrier_def)
qed

subsection \<open>A barrier to start from\<close>

text \<open>A barrier for two: unused, and with one asynchronous arrival.\<close>

definition some_barrier :: "int \<Rightarrow> basic_barrier" where
  "some_barrier c = \<lparr>bb_exec = 7, bb_impl = \<lparr>sm_node = 1, service = Some 0, mtx = cem_ctor True,
     init_count = 2, counter = c, bar_waiters = 2\<rparr>\<rparr>"

definition barrier_world :: world where
  "barrier_world = \<lparr>nodes = [0 \<mapsto> \<lparr>next_node = 1, prev_node = 1\<rparr>, 1 \<mapsto> \<lparr>next_node = 0, prev_node = 0\<rparr>,
       2 \<mapsto> \<lparr>next_node = 2, prev_node = 2\<rparr>],
     ops = Map.empty, slots = Map.empty, trace = [], brk = 3\<rparr>"

definition one_arrived :: world where
  "one_arrived = \<lparr>nodes = [0 \<mapsto> \<lparr>next_node = 1, prev_node = 1\<rparr>, 1 \<mapsto> \<lparr>next_node = 0, prev_node = 0\<rparr>,
       2 \<mapsto> \<lparr>next_node = 3, prev_node = 3\<rparr>, 3 \<mapsto> \<lparr>next_node = 2, prev_node = 2\<rparr>],
     ops = [3 \<mapsto> Basic_op \<lparr>work_guard = 7, op_handler = some_handler 1\<rparr>], slots = [1 \<mapsto> 3], trace = [], brk = 4\<rparr>"

lemmas barrier_eval [sam_eval] = barrier_impl.defs some_barrier_def barrier_world_def barrier_impl_ctor_def
  basic_barrier_ctor_def barrier_add_waiter_def barrier_decrement_def checked_ptrdiff_def basic_barrier_try_arrive_def
  barrier_impl_try_arrive_def async_arrive_first_def async_arrive_second_def basic_barrier_async_arrive_def

lemma some_barrier_reachable: "barrier_reachable (some_barrier 2, barrier_world, 0)"
proof -
  have "basic_barrier_ctor 7 some_hints some_ctx 2 (-1) start_service start_world =
      Some (some_barrier 2, start_service, barrier_world)"
    by (simp add: sam_eval fun_upd_twist numeral_eq_Suc)
  from barrier_reachable.init[OF start_ok _ _ this] show ?thesis by simp
qed

lemma one_arrived_reachable: "barrier_reachable (some_barrier 1, one_arrived, 0)"
proof -
  have "basic_barrier_async_arrive (some_barrier 2) (some_handler 1) barrier_world = Some (some_barrier 1, one_arrived)"
    by (simp add: sam_eval one_arrived_def fun_upd_twist)
  from barrier_reachable.step[OF some_barrier_reachable barrier_step.call[OF barrier_action.async_arrive[OF this]]] show ?thesis by simp
qed

lemma barrier_pendings:
  "pending barrier_world (bar_waiters (bb_impl (some_barrier 2))) []"
  "pending one_arrived (bar_waiters (bb_impl (some_barrier 1))) [(3, Basic_op \<lparr>work_guard = 7, op_handler = some_handler 1\<rparr>)]"
  by (simp_all add: pending_def is_bilist_def link_def heap_access some_barrier_def barrier_world_def one_arrived_def)

subsection \<open>Properties\<close>

lemma barrier_reachableD:
  assumes "barrier_reachable (m, w, c)" "pending w (bar_waiters (bb_impl m)) q"
  shows "bar_rel (bb_impl m) w q (missing (bb_impl m) q c)" "1 \<le> missing (bb_impl m) q c"
    "missing (bb_impl m) q c < 2 ^ 63"
proof -
  from barrier_reachable_inv[OF assms(1)] obtain p where
    p: "bar_rel (bb_impl m) w p (missing (bb_impl m) p c)" "1 \<le> missing (bb_impl m) p c" "init_count (bb_impl m) < 2 ^ 63"
    by (auto simp: barrier_inv.simps)
  have "p = q" using p(1) assms(2) by (auto simp: bar_rel_def intro: pending_unique)
  with p show "bar_rel (bb_impl m) w q (missing (bb_impl m) q c)" "1 \<le> missing (bb_impl m) q c"
    "missing (bb_impl m) q c < 2 ^ 63" by (auto simp: missing_def)
qed

text \<open>
  C14: An asynchronous arrival that no other call interrupts between its two critical sections, at a barrier where no
  arrivals have overlapped before.  If it is the last one of the round, counting those that wait and those that were
  cancelled, it releases every waiting operation, oldest first, and then itself, and the barrier starts over; otherwise it
  joins the queue and releases nobody.  Nothing is said of arrivals that overlap.
\<close>

theorem barrier_async_arrive_trips:
  assumes "barrier_reachable (m, w, c)" "pending w (bar_waiters (bb_impl m)) q"
  shows "ok (basic_barrier_async_arrive m h w) (\<lambda>(m', w').
    if int (length q) + int c + 1 = init_count (bb_impl m)
    then trace w' = trace w @ concat (map (\<lambda>(a, x). signals success a x) q) @
           [Dispatch (get_associated_immediate_executor h (bb_exec m)) h success] \<and>
         pending w' (bar_waiters (bb_impl m)) [] \<and> counter (bb_impl m') = init_count (bb_impl m)
    else trace w' = trace w \<and> pending w' (bar_waiters (bb_impl m)) (q @ [(brk w, arrival m h)]) \<and>
         counter (bb_impl m') = counter (bb_impl m) - 1)"
proof (cases "missing (bb_impl m) q c = 1")
  case True
  with async_arrive_last[of m w q h] barrier_reachableD[OF assms] show ?thesis
    by (auto simp: missing_def bar_rel_def same_barrier_def elim!: ok_conseq)
next
  case False
  note R = barrier_reachableD[OF assms]
  have "bar_range (missing (bb_impl m) q c)" using R(2,3) by simp
  from async_arrive_early[OF R(1) False this, of h] False R(1) show ?thesis
    by (auto simp: missing_def bar_rel_def same_barrier_def elim!: ok_conseq)
qed

theorem barrier_async_arrive_trips_witness:
  "ok (basic_barrier_async_arrive (some_barrier 1) (some_handler 2) one_arrived) (\<lambda>(m', w').
     trace w' = [Post 7 (some_handler 1) success, Dispatch 7 (some_handler 2) success] \<and> counter (bb_impl m') = 2)"
  using barrier_async_arrive_trips[OF one_arrived_reachable barrier_pendings(2), of "some_handler 2"]
  by (auto simp: some_barrier_def one_arrived_def some_handler_def get_associated_immediate_executor_def elim!: ok_conseq)

text \<open>
  A blocking arrival on a multi-threaded barrier either blocks, when others are still missing, or is the last one:
  then it releases every waiting operation, returns without an error whatever its \<open>error_code\<close> held
  before, leaves no operation behind, and the barrier starts over.
\<close>

theorem barrier_arrive_trips:
  assumes "barrier_reachable (m, w, c)" "pending w (bar_waiters (bb_impl m)) q" "enabled (mtx (bb_impl m))"
  shows "ok (basic_barrier_arrive m ec w) (\<lambda>(r, m', w').
    if int (length q) + int c + 1 = init_count (bb_impl m)
    then r = Returned success \<and> pending w' (bar_waiters (bb_impl m)) [] \<and> counter (bb_impl m') = init_count (bb_impl m) \<and>
         trace w' = trace w @ concat (map (\<lambda>(a, x). signals success a x) q) @ [Wake (brk w) success]
    else r = Blocked (brk w) \<and> trace w' = trace w \<and> counter (bb_impl m') = counter (bb_impl m) - 1 \<and>
         pending w' (bar_waiters (bb_impl m)) (q @ [(brk w, Arrive_op \<lparr>op_ec = ec, op_done = False\<rparr>)]))"
proof (cases "missing (bb_impl m) q c = 1")
  case True
  with arrive_last[of "bb_impl m" w q ec] barrier_reachableD[OF assms(1,2)] assms(3) show ?thesis
    by (auto simp: basic_barrier_arrive_def missing_def bar_rel_def same_barrier_def elim!: ok_conseq)
next
  case False
  note R = barrier_reachableD[OF assms(1,2)]
  have "bar_range (missing (bb_impl m) q c)" using R(2,3) by simp
  from arrive_early[OF R(1) assms(3) False this, of ec] False R(1) show ?thesis
    by (auto simp: basic_barrier_arrive_def missing_def bar_rel_def same_barrier_def elim!: ok_conseq)
qed

theorem barrier_arrive_trips_witness:
  "ok (basic_barrier_arrive (some_barrier 1) in_progress one_arrived) (\<lambda>(r, m', w').
     r = Returned success \<and> trace w' = [Post 7 (some_handler 1) success, Wake 4 success])"
proof -
  have e: "enabled (mtx (bb_impl (some_barrier 1)))" by (simp add: some_barrier_def)
  show ?thesis
    using barrier_arrive_trips[OF one_arrived_reachable barrier_pendings(2) e, of in_progress]
    by (auto simp: some_barrier_def one_arrived_def elim!: ok_conseq)
qed

text \<open>
  C36: A cancelled arrival is not taken back.  Cancelling an asynchronous arrival completes it with
  \<open>operation_aborted\<close> but leaves \<open>counter_\<close> as it is, so the round ends with one arrival less.
\<close>

theorem barrier_cancel_keeps_counter:
  assumes "barrier_reachable (m, w, c)" "pending w (bar_waiters (bb_impl m)) (ys @ (a, x) # zs)"
    and "slots w sl = Some a" "type \<noteq> 0"
  shows "ok (async_arrive_cancel (bb_impl m) a (Some sl) type w) (\<lambda>(u, i, w'). i = bb_impl m \<and>
    pending w' (bar_waiters i) (ys @ zs) \<and> trace w' = trace w @ signals operation_aborted a x \<and>
    counter i = init_count i - int (length (ys @ zs)) - int c - 1)"
  using barrier_cancel_ok[OF barrier_reachableD(1)[OF assms(1,2)] assms(4), of "Some sl"]
    barrier_reachableD(1)[OF assms(1,2)]
  by (auto simp: bar_rel_def missing_def elim!: ok_conseq)

theorem barrier_cancel_keeps_counter_witness:
  "ok (async_arrive_cancel (bb_impl (some_barrier 1)) 3 (Some 1) 1 one_arrived) (\<lambda>(u, i, w').
     pending w' 2 [] \<and> trace w' = [Post 7 (some_handler 1) operation_aborted] \<and> counter i = 1)"
proof -
  have e: "slots one_arrived 1 = Some 3" "trace one_arrived = []" by (simp_all add: one_arrived_def)
  have f: "bar_waiters (bb_impl (some_barrier 1)) = 2" "counter (bb_impl (some_barrier 1)) = 1"
    by (simp_all add: some_barrier_def)
  show ?thesis
    using barrier_cancel_keeps_counter[OF one_arrived_reachable, of "[]", simplified, OF barrier_pendings(2) e(1), of 1] e
    by (auto simp: f elim!: ok_conseq)
qed

text \<open>
  C35: Two simultaneous arrivals can block a barrier for good.  When two arrivals are missing and two threads
  run \<open>async_arrive\<close> so that both leave \<open>try_arrive\<close> before either of them counts itself, the counter
  reaches zero without anybody being released, and no later asynchronous arrival releases anybody either.
\<close>

theorem barrier_race_blocks_forever:
  assumes "barrier_reachable (m, w, c)" "pending w (bar_waiters (bb_impl m)) q"
    and "int (length q) + int c + 2 = init_count (bb_impl m)" "length hs < 2 ^ 63"
  shows "ok (do {
      (b1, m1, w1) \<leftarrow> async_arrive_first m h1 w;
      (b2, m2, w2) \<leftarrow> async_arrive_first m1 h2 w1;
      (m3, w3) \<leftarrow> async_arrive_second m2 h1 w2;
      (m4, w4) \<leftarrow> async_arrive_second m3 h2 w3;
      async_arrive_all hs m4 w4 })
    (\<lambda>(m', w'). trace w' = trace w \<and> counter (bb_impl m') = - int (length hs) \<and>
      (\<exists>p. pending w' (bar_waiters (bb_impl m)) (q @ p) \<and> length p = length hs + 2))"
proof -
  have "missing (bb_impl m) q c = 2" using assms(3) unfolding missing_def by linarith
  then have "bar_rel (bb_impl m) w q 2" using barrier_reachableD(1)[OF assms(1,2)] by simp
  from racing_arrivals[OF this, of h1 h2] obtain m4 w4 a1 x1 a2 x2 where
    4: "do { (b1, m1, w1) \<leftarrow> async_arrive_first m h1 w; (b2, m2, w2) \<leftarrow> async_arrive_first m1 h2 w1;
           (m3, w3) \<leftarrow> async_arrive_second m2 h1 w2; async_arrive_second m3 h2 w3 } = Some (m4, w4)"
      "trace w4 = trace w" "bar_waiters (bb_impl m4) = bar_waiters (bb_impl m)"
      "bar_rel (bb_impl m4) w4 (q @ [(a1, x1), (a2, x2)]) 0" by (auto elim!: okE)
  have "- (2 ^ 63) < 0 - int (length hs)" using assms(4) by simp
  from dead_barrier[OF 4(4) _ this] obtain m' w' p where
    5: "async_arrive_all hs m4 w4 = Some (m', w')" "trace w' = trace w4" "bar_waiters (bb_impl m') = bar_waiters (bb_impl m4)"
      "bar_rel (bb_impl m') w' ((q @ [(a1, x1), (a2, x2)]) @ p) (- int (length hs))" "length p = length hs"
    by (auto elim!: okE)
  have "do { (b1, m1, w1) \<leftarrow> async_arrive_first m h1 w; (b2, m2, w2) \<leftarrow> async_arrive_first m1 h2 w1;
           (m3, w3) \<leftarrow> async_arrive_second m2 h1 w2; (m4, w4) \<leftarrow> async_arrive_second m3 h2 w3;
           async_arrive_all hs m4 w4 } = Some (m', w')"
    using 4(1) 5(1) by (auto split: bind_splits)
  moreover have "pending w' (bar_waiters (bb_impl m)) (q @ (a1, x1) # (a2, x2) # p)" "counter (bb_impl m') = - int (length hs)"
    using 5(3,4) 4(3) by (simp_all add: bar_rel_def)
  ultimately show ?thesis
    using 4(2) 5(2,5) by (auto simp: intro!: exI[of _ "(a1, x1) # (a2, x2) # p"])
qed

theorem barrier_race_blocks_forever_witness:
  "ok (do {
      (b1, m1, w1) \<leftarrow> async_arrive_first (some_barrier 2) (some_handler 1) barrier_world;
      (b2, m2, w2) \<leftarrow> async_arrive_first m1 (some_handler 2) w1;
      (m3, w3) \<leftarrow> async_arrive_second m2 (some_handler 1) w2;
      (m4, w4) \<leftarrow> async_arrive_second m3 (some_handler 2) w3;
      async_arrive_all [some_handler 3] m4 w4 })
    (\<lambda>(m', w'). trace w' = [] \<and> counter (bb_impl m') = - 1)"
proof -
  have e: "int (length ([] :: (addr \<times> wait_op) list)) + int 0 + 2 = init_count (bb_impl (some_barrier 2))"
    "trace barrier_world = []" by (simp_all add: some_barrier_def barrier_world_def)
  show ?thesis
    by (rule ok_conseq[OF barrier_race_blocks_forever[OF some_barrier_reachable barrier_pendings(1) e(1),
          of "[some_handler 3]" "some_handler 1" "some_handler 2"]]) (auto simp: e(2))
qed

end
