(* ===== verification/Condition_Variable_Impl.thy ===== *)
theory Condition_Variable_Impl
  imports Shared_World
begin

section \<open>The condition variable\<close>

text \<open>
  Models \<open>detail/condition_variable_impl.hpp\<close>, \<open>detail/impl/condition_variable_impl.ipp\<close>,
  \<open>basic_condition_variable.hpp\<close> and \<open>impl/basic_condition_variable.hpp\<close>.  The predicates a caller
  passes to \<open>async_wait\<close> are its own code: \<open>ev\<close> says what each of them returns during one
  notification.
\<close>

subsection \<open>The implementation object\<close>

record condition_variable_impl = service_member +
  cv_waiters :: addr

definition condition_variable_impl_ctor ::
  "asio_hints \<Rightarrow> execution_context \<Rightarrow> int \<Rightarrow> op_list_service \<Rightarrow> world \<Rightarrow>
   (condition_variable_impl \<times> op_list_service \<times> world) option" where
  "condition_variable_impl_ctor A ctx hint svc w = do {
     (sm, svc, w) \<leftarrow> service_member_ctor A ctx hint svc w;
     let (r, w) = new_node w;
     Some (service_member.extend sm (condition_variable_impl.fields r), svc, w) }"

definition cv_add_waiter :: "condition_variable_impl \<Rightarrow> addr \<Rightarrow> world \<Rightarrow> world option" where
  "cv_add_waiter this waiter w = on_nodes (link_before waiter (cv_waiters this)) w"

text \<open>\<open>predicate_op_model::done\<close>, called through a node of the list; other operations have no such member.\<close>

fun call_predicate :: "(nat \<Rightarrow> bool) \<Rightarrow> predicate \<Rightarrow> bool" where
  "call_predicate ev true_predicate = True"
| "call_predicate ev (user_predicate n) = ev n"

definition predicate_done :: "(nat \<Rightarrow> bool) \<Rightarrow> addr \<Rightarrow> world \<Rightarrow> bool option" where
  "predicate_done ev op w = (case ops w op of
     Some (Predicate_op m) \<Rightarrow> Some (call_predicate ev (op_predicate m))
   | _ \<Rightarrow> None)"

definition condition_variable_impl_notify_one ::
  "(nat \<Rightarrow> bool) \<Rightarrow> condition_variable_impl \<Rightarrow> world \<Rightarrow> (unit \<times> condition_variable_impl \<times> world) option" where
  "condition_variable_impl_notify_one ev this w = scoped (\<lambda>this. do {
     nx \<leftarrow> get_next (cv_waiters this) (nodes w);
     if nx = cv_waiters this then Some ((), this, w)
     else do {
       d \<leftarrow> predicate_done ev nx w;
       if d then do { w \<leftarrow> op_complete success nx w; Some ((), this, w) }
       else Some ((), this, w) } }) this"

text \<open>The loop of \<open>notify_all\<close>: the successor is read before the operation may go away.\<close>

partial_function (option) notify_loop :: "(nat \<Rightarrow> bool) \<Rightarrow> addr \<Rightarrow> addr \<Rightarrow> world \<Rightarrow> world option" where
  "notify_loop ev root c w =
     (if c = root then Some w
      else do {
        nx \<leftarrow> get_next c (nodes w);
        d \<leftarrow> predicate_done ev c w;
        w \<leftarrow> (if d then op_complete success c w else Some w);
        notify_loop ev root nx w })"

definition condition_variable_impl_notify_all ::
  "(nat \<Rightarrow> bool) \<Rightarrow> condition_variable_impl \<Rightarrow> world \<Rightarrow> (unit \<times> condition_variable_impl \<times> world) option" where
  "condition_variable_impl_notify_all ev this w = scoped (\<lambda>this. do {
     c \<leftarrow> get_next (cv_waiters this) (nodes w);
     w \<leftarrow> notify_loop ev (cv_waiters this) c w;
     Some ((), this, w) }) this"

definition condition_variable_impl_shutdown ::
  "condition_variable_impl \<Rightarrow> world \<Rightarrow> (condition_variable_impl \<times> world) option" where
  "condition_variable_impl_shutdown this w = do {
     (l, this, w) \<leftarrow> scoped (\<lambda>this. do {
        (l, w) \<leftarrow> holder_move_ctor (cv_waiters this) w;
        Some (l, this, w) }) this;
     w \<leftarrow> predicate_holder_shutdown l w;
     w \<leftarrow> predicate_holder_dtor l w;
     Some (this, w) }"

definition condition_variable_impl_move_ctor ::
  "condition_variable_impl \<Rightarrow> op_list_service \<Rightarrow> world \<Rightarrow>
   (condition_variable_impl \<times> condition_variable_impl \<times> op_list_service \<times> world) option" where
  "condition_variable_impl_move_ctor lhs svc w = do {
     (sm, svc, w) \<leftarrow> service_member_move_ctor lhs svc w;
     (r, w) \<leftarrow> holder_move_ctor (cv_waiters lhs) w;
     Some (service_member.extend sm (condition_variable_impl.fields r), lhs, svc, w) }"

definition condition_variable_impl_move_assign ::
  "condition_variable_impl \<Rightarrow> condition_variable_impl \<Rightarrow> op_list_service \<Rightarrow> world \<Rightarrow>
   (condition_variable_impl \<times> condition_variable_impl \<times> op_list_service \<times> world) option" where
  "condition_variable_impl_move_assign this lhs svc w = do {
     (this, lhs, svc, w) \<leftarrow> service_member_move_assign this lhs svc w;
     w \<leftarrow> holder_swap (cv_waiters lhs) (cv_waiters this) w;
     Some (this, lhs, svc, w) }"

definition condition_variable_impl_dtor ::
  "condition_variable_impl \<Rightarrow> op_list_service \<Rightarrow> world \<Rightarrow> (op_list_service \<times> world) option" where
  "condition_variable_impl_dtor this svc w = do {
     w \<leftarrow> predicate_holder_dtor (cv_waiters this) w;
     service_member_dtor this svc w }"

subsection \<open>The public class\<close>

record basic_condition_variable =
  cv_exec :: executor
  cv_impl :: condition_variable_impl

definition basic_condition_variable_ctor ::
  "executor \<Rightarrow> asio_hints \<Rightarrow> execution_context \<Rightarrow> int \<Rightarrow> op_list_service \<Rightarrow> world \<Rightarrow>
   (basic_condition_variable \<times> op_list_service \<times> world) option" where
  "basic_condition_variable_ctor ex A ctx hint svc w = do {
     (i, svc, w) \<leftarrow> condition_variable_impl_ctor A ctx hint svc w;
     Some (\<lparr>cv_exec = ex, cv_impl = i\<rparr>, svc, w) }"

text \<open>The constructor from an execution context takes the context's own executor.\<close>

definition basic_condition_variable_ctor_ctx ::
  "asio_hints \<Rightarrow> execution_context \<Rightarrow> int \<Rightarrow> op_list_service \<Rightarrow> world \<Rightarrow>
   (basic_condition_variable \<times> op_list_service \<times> world) option" where
  "basic_condition_variable_ctor_ctx A ctx hint svc w = do {
     (i, svc, w) \<leftarrow> condition_variable_impl_ctor A ctx hint svc w;
     Some (\<lparr>cv_exec = ctx_executor ctx, cv_impl = i\<rparr>, svc, w) }"

definition basic_condition_variable_get_executor :: "basic_condition_variable \<Rightarrow> executor" where
  [simp]: "basic_condition_variable_get_executor self = cv_exec self"

definition basic_condition_variable_move_ctor ::
  "basic_condition_variable \<Rightarrow> op_list_service \<Rightarrow> world \<Rightarrow>
   (basic_condition_variable \<times> basic_condition_variable \<times> op_list_service \<times> world) option" where
  "basic_condition_variable_move_ctor sem svc w = do {
     (i, si, svc, w) \<leftarrow> condition_variable_impl_move_ctor (cv_impl sem) svc w;
     Some (\<lparr>cv_exec = cv_exec sem, cv_impl = i\<rparr>, sem\<lparr>cv_impl := si\<rparr>, svc, w) }"

text \<open>
  Move assignment, and the assignment from a primitive with another executor type.  Both return the target
  first and the source second.
\<close>

definition basic_condition_variable_move_assign ::
  "basic_condition_variable \<Rightarrow> basic_condition_variable \<Rightarrow> op_list_service \<Rightarrow> world \<Rightarrow> (basic_condition_variable \<times> basic_condition_variable \<times> op_list_service \<times> world) option" where
  "basic_condition_variable_move_assign this sem svc w = do {
     let this = this\<lparr>cv_exec := cv_exec sem\<rparr>;
     (i, si, svc, w) \<leftarrow> condition_variable_impl_move_assign (cv_impl this) (cv_impl sem) svc w;
     Some (this\<lparr>cv_impl := i\<rparr>, sem\<lparr>cv_impl := si\<rparr>, svc, w) }"

definition basic_condition_variable_move_assign_converting ::
  "basic_condition_variable \<Rightarrow> basic_condition_variable \<Rightarrow> op_list_service \<Rightarrow> world \<Rightarrow> (basic_condition_variable \<times> basic_condition_variable \<times> op_list_service \<times> world) option" where
  "basic_condition_variable_move_assign_converting this sem svc w = do {
     let this = this\<lparr>cv_exec := cv_exec sem\<rparr>;
     (i, si, svc, w) \<leftarrow> condition_variable_impl_move_assign (cv_impl this) (cv_impl sem) svc w;
     Some (this\<lparr>cv_impl := i\<rparr>, sem\<lparr>cv_impl := si\<rparr>, svc, w) }"

definition basic_condition_variable_notify_one ::
  "(nat \<Rightarrow> bool) \<Rightarrow> basic_condition_variable \<Rightarrow> world \<Rightarrow> (basic_condition_variable \<times> world) option" where
  "basic_condition_variable_notify_one ev self w = do {
     (u, i, w) \<leftarrow> condition_variable_impl_notify_one ev (cv_impl self) w;
     Some (self\<lparr>cv_impl := i\<rparr>, w) }"

definition basic_condition_variable_notify_all ::
  "(nat \<Rightarrow> bool) \<Rightarrow> basic_condition_variable \<Rightarrow> world \<Rightarrow> (basic_condition_variable \<times> world) option" where
  "basic_condition_variable_notify_all ev self w = do {
     (u, i, w) \<leftarrow> condition_variable_impl_notify_all ev (cv_impl self) w;
     Some (self\<lparr>cv_impl := i\<rparr>, w) }"

definition async_predicate_wait ::
  "basic_condition_variable \<Rightarrow> predicate \<Rightarrow> handler \<Rightarrow> world \<Rightarrow> (basic_condition_variable \<times> world) option" where
  "async_predicate_wait self p h w = do {
     let e = get_associated_executor h (cv_exec self);
     (u, i, w) \<leftarrow> scoped (\<lambda>impl. do {
        let (model, w) = predicate_op_model_construct e h p w;
        let w = slot_assign (predicate_op_model_get_cancellation_slot (predicate_op_model_ctor e h p)) model w;
        w \<leftarrow> cv_add_waiter impl model w;
        Some ((), impl, w) }) (cv_impl self);
     Some (self\<lparr>cv_impl := i\<rparr>, w) }"

definition async_wait ::
  "basic_condition_variable \<Rightarrow> handler \<Rightarrow> world \<Rightarrow> (basic_condition_variable \<times> world) option" where
  "async_wait self h w = do {
     let e = get_associated_executor h (cv_exec self);
     (u, i, w) \<leftarrow> scoped (\<lambda>impl. do {
        let (model, w) = predicate_op_model_construct e h true_predicate w;
        let w = slot_assign (predicate_op_model_get_cancellation_slot (predicate_op_model_ctor e h true_predicate)) model w;
        w \<leftarrow> cv_add_waiter impl model w;
        Some ((), impl, w) }) (cv_impl self);
     Some (self\<lparr>cv_impl := i\<rparr>, w) }"

text \<open>
  The initiating function hands the operation to asio's \<open>async_initiate\<close>, a parameter, which makes a handler from the
  completion token and calls the operation with it.
\<close>

definition basic_condition_variable_async_wait_init ::
  "((handler \<Rightarrow> world \<Rightarrow> (basic_condition_variable \<times> world) option) \<Rightarrow> 'token \<Rightarrow> 'r) \<Rightarrow>
   basic_condition_variable \<Rightarrow> 'token \<Rightarrow> 'r" where
  "basic_condition_variable_async_wait_init async_initiate self token = async_initiate (async_wait self) token"

definition basic_condition_variable_async_predicate_wait_init ::
  "((handler \<Rightarrow> world \<Rightarrow> (basic_condition_variable \<times> world) option) \<Rightarrow> 'token \<Rightarrow> 'r) \<Rightarrow>
   basic_condition_variable \<Rightarrow> predicate \<Rightarrow> 'token \<Rightarrow> 'r" where
  "basic_condition_variable_async_predicate_wait_init async_initiate self p token = async_initiate (async_predicate_wait self p) token"

definition async_wait_cancel ::
  "condition_variable_impl \<Rightarrow> addr \<Rightarrow> slot option \<Rightarrow> nat \<Rightarrow> world \<Rightarrow> (unit \<times> condition_variable_impl \<times> world) option" where
  "async_wait_cancel impl model sl type w =
     (if type \<noteq> 0 then scoped (\<lambda>impl.
        if sl = None then Some ((), impl, w)
        else do {
          w \<leftarrow> op_complete operation_aborted model w;
          Some ((), impl, w) }) impl
      else Some ((), impl, w))"

subsection \<open>Abstract view\<close>

text \<open>
  The waiting operations all carry a predicate; \<open>satisfied ev\<close> says whether it holds now.
\<close>

fun satisfied :: "(nat \<Rightarrow> bool) \<Rightarrow> addr \<times> wait_op \<Rightarrow> bool" where
  "satisfied ev (a, Predicate_op m) = call_predicate ev (op_predicate m)"
| "satisfied ev (a, _) = False"

definition is_predicate_op :: "wait_op \<Rightarrow> bool" where
  "is_predicate_op x \<longleftrightarrow> (\<exists>m. x = Predicate_op m)"

definition cv_rel :: "condition_variable_impl \<Rightarrow> world \<Rightarrow> (addr \<times> wait_op) list \<Rightarrow> bool" where
  "cv_rel m w q \<longleftrightarrow> world_ok w \<and> pending w (cv_waiters m) q \<and> idle (mtx m) \<and> (\<forall>(a, x) \<in> set q. is_predicate_op x)"

lemma cv_relD:
  assumes "cv_rel m w q"
  shows "world_ok w" "pending w (cv_waiters m) q" "idle (mtx m)" "\<forall>(a, x) \<in> set q. is_predicate_op x"
  using assms by (simp_all add: cv_rel_def)

lemma cv_keeps:
  "cv_rel m w q \<Longrightarrow> world_ok w' \<Longrightarrow> untouched (queue_nodes (cv_waiters m) q) w w' \<Longrightarrow> keeps {cv_waiters m} w w'"
  by (rule keeps_queue) (simp_all add: cv_rel_def)

lemma predicate_done_pending:
  assumes "pending w r (ys @ (a, x) # zs)" "is_predicate_op x"
  shows "predicate_done ev a w = Some (satisfied ev (a, x))"
  using assms by (auto simp: pending_def predicate_done_def is_predicate_op_def)

text \<open>
  The loop has passed over the operations \<open>ks\<close>, whose predicates did not hold, and goes on with \<open>q\<close>.
\<close>

lemma notify_loop_ok:
  assumes "world_ok w" "pending w r (ks @ q)" "\<forall>(a, x) \<in> set q. is_predicate_op x"
  shows "ok (notify_loop ev r (hd (map fst q @ [r])) w) (\<lambda>w'. world_ok w' \<and>
    pending w' r (ks @ filter (\<lambda>p. \<not> satisfied ev p) q) \<and>
    trace w' = trace w @ concat (map (\<lambda>(a, x). signals success a x) (filter (satisfied ev) q)) \<and> brk w' = brk w \<and>
    untouched (queue_nodes r (ks @ q)) w w')"
  using assms
proof (induction q arbitrary: ks w)
  case Nil
  then show ?case by (subst notify_loop.simps) simp
next
  case (Cons ax q)
  obtain a x where ax: "ax = (a, x)" by force
  have p: "pending w r (ks @ (a, x) # q)" using Cons.prems(2) ax by simp
  have ar: "a \<noteq> r" using pending_distinct[OF p] by auto
  have nx: "get_next a (nodes w) = Some (hd (map fst q @ [r]))"
    using is_bilist_next_elem[of "nodes w" r "map fst ks" a "map fst q"] p by (simp add: pending_def)
  have d: "predicate_done ev a w = Some (satisfied ev ax)"
    using predicate_done_pending[OF p] Cons.prems(3) ax by auto
  show ?case
  proof (cases "satisfied ev ax")
    case True
    from complete_pending[OF Cons.prems(1) p] obtain w1 where
      w1: "op_complete success a w = Some w1" "world_ok w1" "pending w1 r (ks @ q)"
        "trace w1 = trace w @ signals success a x" "brk w1 = brk w"
        "untouched (queue_nodes r (ks @ (a, x) # q)) w w1" by metis
    from Cons.IH[OF w1(2,3)] Cons.prems(3) obtain w2 where
      w2: "notify_loop ev r (hd (map fst q @ [r])) w1 = Some w2" "world_ok w2"
        "pending w2 r (ks @ filter (\<lambda>p. \<not> satisfied ev p) q)"
        "trace w2 = trace w1 @ concat (map (\<lambda>(a, x). signals success a x) (filter (satisfied ev) q))" "brk w2 = brk w1"
        "untouched (queue_nodes r (ks @ q)) w1 w2" by (auto elim!: okE)
    have "untouched (queue_nodes r (ks @ ax # q)) w w2"
      by (rule untouched_trans[OF w1(6)[folded ax] w2(6)]) (auto simp: ax)
    then show ?thesis
      using ar nx d True w1 w2 ax by (subst notify_loop.simps) simp
  next
    case False
    have p': "pending w r ((ks @ [ax]) @ q)" using Cons.prems(2) by simp
    from Cons.IH[OF Cons.prems(1) p'] Cons.prems(3) show ?thesis
      using ar nx d False ax by (subst notify_loop.simps) simp
  qed
qed

lemma notify_all_ok:
  assumes "cv_rel m w q"
  shows "ok (condition_variable_impl_notify_all ev m w) (\<lambda>(u, m', w'). m' = m \<and>
    cv_rel m w' (filter (\<lambda>p. \<not> satisfied ev p) q) \<and>
    trace w' = trace w @ concat (map (\<lambda>(a, x). signals success a x) (filter (satisfied ev) q)) \<and>
    untouched (queue_nodes (cv_waiters m) q) w w')"
proof -
  note P = cv_relD[OF assms]
  from notify_loop_ok[of w "cv_waiters m" "[]" q ev] P obtain w' where
    "notify_loop ev (cv_waiters m) (hd (map fst q @ [cv_waiters m])) w = Some w'" "world_ok w'"
    "pending w' (cv_waiters m) (filter (\<lambda>p. \<not> satisfied ev p) q)"
    "trace w' = trace w @ concat (map (\<lambda>(a, x). signals success a x) (filter (satisfied ev) q))"
    "untouched (queue_nodes (cv_waiters m) q) w w'" by (auto elim!: okE)
  with P pending_next[OF P(2)] show ?thesis
    unfolding condition_variable_impl_notify_all_def
    by (intro scoped_ok) (auto simp: cv_rel_def)
qed

lemma notify_one_ok:
  assumes "cv_rel m w q"
  shows "ok (condition_variable_impl_notify_one ev m w) (\<lambda>(u, m', w'). m' = m \<and>
    (case q of [] \<Rightarrow> w' = w
     | (a, x) # p \<Rightarrow> if satisfied ev (a, x) then cv_rel m w' p \<and> trace w' = trace w @ signals success a x else w' = w) \<and>
    untouched (queue_nodes (cv_waiters m) q) w w')"
proof (cases q)
  case Nil
  with cv_relD[OF assms] pending_empty[of w "cv_waiters m"] show ?thesis
    unfolding condition_variable_impl_notify_one_def by (intro scoped_ok) auto
next
  case (Cons ax p)
  obtain a x where ax: "ax = (a, x)" by force
  note P = cv_relD[OF assms, unfolded Cons ax]
  have p: "pending w (cv_waiters m) ([] @ (a, x) # p)" using P(2) by simp
  from complete_pending[OF P(1) p] obtain w' where "op_complete success a w = Some w'" "world_ok w'"
    "pending w' (cv_waiters m) p" "trace w' = trace w @ signals success a x"
    "untouched (queue_nodes (cv_waiters m) ((a, x) # p)) w w'" by auto
  with P Cons ax pending_head[OF P(2)] predicate_done_pending[OF p, of ev] show ?thesis
    unfolding condition_variable_impl_notify_one_def
    by (intro scoped_ok) (auto simp: cv_rel_def insert_commute)
qed

abbreviation waiting :: "basic_condition_variable \<Rightarrow> predicate \<Rightarrow> handler \<Rightarrow> wait_op" where
  "waiting m p h \<equiv> Predicate_op \<lparr>work_guard = get_associated_executor h (cv_exec m), op_handler = h, op_predicate = p\<rparr>"

lemma async_predicate_wait_ok:
  assumes "cv_rel (cv_impl m) w q"
  shows "ok (async_predicate_wait m p h w) (\<lambda>(m', w'). m' = m \<and> cv_rel (cv_impl m) w' (q @ [(brk w, waiting m p h)]) \<and>
    trace w' = trace w \<and> slots w' = slots (slot_assign (h_slot h) (brk w) w) \<and>
    untouched (queue_nodes (cv_waiters (cv_impl m)) q) w w')"
proof -
  note P = cv_relD[OF assms]
  obtain a w1 where n: "new_op (waiting m p h) w = (a, w1)" by force
  from join_async[OF P(1,2) n unsettled(2)] obtain w2 where
    w2: "on_nodes (link_before a (cv_waiters (cv_impl m))) (slot_assign (h_slot h) a w1) = Some w2" "world_ok w2"
      "pending w2 (cv_waiters (cv_impl m)) (q @ [(brk w, waiting m p h)])" "trace w2 = trace w"
      "slots w2 = slots (slot_assign (h_slot h) (brk w) w)"
      "untouched (queue_nodes (cv_waiters (cv_impl m)) q) w w2" by auto
  show ?thesis
    unfolding async_predicate_wait_def Let_def ok_bind
    by (rule scoped_ok[OF P(3)])
      (use n w2 P in \<open>auto simp: cv_rel_def is_predicate_op_def predicate_op_model_construct_def cv_add_waiter_def\<close>)
qed

lemma async_wait_eq: "async_wait m = async_predicate_wait m true_predicate"
  by (simp add: fun_eq_iff async_wait_def async_predicate_wait_def)

lemma cv_cancel_ok:
  assumes "cv_rel m w (ys @ (a, x) # zs)" "type \<noteq> 0" "sl \<noteq> None"
  shows "ok (async_wait_cancel m a sl type w) (\<lambda>(u, m', w'). m' = m \<and> cv_rel m w' (ys @ zs) \<and>
    trace w' = trace w @ signals operation_aborted a x \<and> keeps {cv_waiters m} w w')"
proof -
  note P = cv_relD[OF assms(1)]
  from complete_pending[OF P(1,2)] obtain w' where "op_complete operation_aborted a w = Some w'" "world_ok w'"
    "pending w' (cv_waiters m) (ys @ zs)" "trace w' = trace w @ signals operation_aborted a x"
    "untouched (queue_nodes (cv_waiters m) (ys @ (a, x) # zs)) w w'" by metis
  with assms P cv_keeps[OF assms(1)] show ?thesis
    unfolding async_wait_cancel_def by (auto simp: cv_rel_def intro!: scoped_ok[OF P(3)])
qed

lemma cv_ctor_ok:
  assumes "world_ok w" "registered w svc ms"
  shows "ok (basic_condition_variable_ctor ex A ctx hint svc w) (\<lambda>(m, svc', w'). cv_exec m = ex \<and> svc' = svc \<and>
    cv_rel (cv_impl m) w' [] \<and> enabled (mtx (cv_impl m)) = (\<not> is_single_threaded A ctx hint) \<and>
    sm_node (cv_impl m) = brk w \<and> service (cv_impl m) = Some (entries svc) \<and> registered w' svc (ms @ [brk w]) \<and>
    trace w' = trace w \<and> cv_waiters (cv_impl m) = Suc (brk w) \<and> spares (set (entries svc # ms)) w w' \<and>
    {brk w, Suc (brk w)} \<inter> dom (nodes w) = {})"
  by (rule member_ctor[OF assms, of A ctx hint])
    (simp add: basic_condition_variable_ctor_def condition_variable_impl_ctor_def cv_rel_def service_member.defs
      condition_variable_impl.defs)

lemma cv_shutdown_ok:
  assumes "cv_rel m w q"
  shows "ok (condition_variable_impl_shutdown m w) (\<lambda>(m', w'). m' = m \<and> cv_rel m w' [] \<and>
    drained shutdown_signals shut_down q (w\<lparr>brk := brk w + 2\<rparr>) w' \<and> keeps {cv_waiters m} w w')"
proof -
  note P = cv_relD[OF assms]
  from move_shutdown[OF P(1,2)] obtain l w1 w2 w3 where
    "holder_move_ctor (cv_waiters m) w = Some (l, w1)" "holder_shutdown l w1 = Some w2" "holder_dtor l w2 = Some w3"
    "world_ok w3" "pending w3 (cv_waiters m) []"
    "drained shutdown_signals shut_down q (w\<lparr>brk := brk w + 2\<rparr>) w3" "untouched (queue_nodes (cv_waiters m) q) w w3" .
  moreover from this have "keeps {cv_waiters m} w w3" by (intro cv_keeps[OF assms])
  ultimately show ?thesis
    unfolding condition_variable_impl_shutdown_def ok_bind predicate_holder_dtor_eq predicate_holder_shutdown_eq
    by (intro scoped_ok[OF P(3)]) (use P in \<open>simp add: cv_rel_def\<close>)
qed

lemma cv_dtor_ok:
  assumes "cv_rel m w q" "registered w svc (ms @ sm_node m # ns)" "service m = Some (entries svc)"
    and "cv_waiters m \<notin> set (entries svc # ms @ sm_node m # ns)"
  shows "ok (condition_variable_impl_dtor m svc w) (\<lambda>(svc', w'). svc' = svc \<and> world_ok w' \<and> registered w' svc (ms @ ns) \<and>
    nodes w' (cv_waiters m) = None \<and> nodes w' (sm_node m) = None \<and>
    drained (signals operation_aborted) operation_aborted q w w' \<and>
    spares (insert (cv_waiters m) (set (entries svc # ms @ sm_node m # ns))) w w')"
  using member_dtor_ok[OF cv_relD(1-3)[OF assms(1)] assms(2-4)]
  by (simp add: condition_variable_impl_dtor_def predicate_holder_dtor_eq)

lemma cv_move_ctor_ok:
  assumes "cv_rel (cv_impl m) w q" "registered w svc ms" "service (cv_impl m) = Some (entries svc)"
    and "cv_waiters (cv_impl m) \<notin> set (entries svc # ms)"
  shows "ok (basic_condition_variable_move_ctor m svc w) (\<lambda>(t, m', svc', w'). svc' = svc \<and> m' = m \<and> cv_exec t = cv_exec m \<and>
    cv_rel (cv_impl t) w' q \<and> cv_rel (cv_impl m) w' [] \<and> registered w' svc (ms @ [sm_node (cv_impl t)]) \<and>
    trace w' = trace w \<and> service (cv_impl t) = Some (entries svc) \<and> sm_node (cv_impl t) = brk w \<and>
    cv_waiters (cv_impl t) = Suc (brk w) \<and> spares (insert (cv_waiters (cv_impl m)) (set (entries svc # ms))) w w')"
  by (rule member_move_ctor[OF cv_relD(1,2)[OF assms(1)] assms(2-4)])
    (use assms(1) in \<open>simp add: basic_condition_variable_move_ctor_def condition_variable_impl_move_ctor_def cv_rel_def
       service_member.defs condition_variable_impl.defs\<close>)

end
