(* ===== verification/Condition_Variable_Props.thy ===== *)
theory Condition_Variable_Props
  imports Condition_Variable_Impl
begin

section \<open>Properties of the condition variable\<close>

text \<open>
  Histories of one condition variable and what a notification does in each of their states.
\<close>

subsection \<open>Histories\<close>

text \<open>
  A wait is cancelled under the internal mutex of the object \<open>i\<close> in which it was started, which a move may have left
  behind.
\<close>

inductive cv_action :: "basic_condition_variable \<times> world \<Rightarrow> basic_condition_variable \<times> world \<Rightarrow> bool" where
  wait_predicate: "async_predicate_wait m p h w = Some (m', w') \<Longrightarrow> cv_action (m, w) (m', w')"
| wait: "async_wait m h w = Some (m', w') \<Longrightarrow> cv_action (m, w) (m', w')"
| notify_one: "basic_condition_variable_notify_one ev m w = Some (m', w') \<Longrightarrow> cv_action (m, w) (m', w')"
| notify_all: "basic_condition_variable_notify_all ev m w = Some (m', w') \<Longrightarrow> cv_action (m, w) (m', w')"
| cancel: "pending w (cv_waiters (cv_impl m)) q \<Longrightarrow> (a, x) \<in> set q \<Longrightarrow> op_slot x = Some s \<Longrightarrow> slots w s = Some a \<Longrightarrow>
    async_wait_cancel i a (Some s) type w = Some (u, i', w') \<Longrightarrow> cv_action (m, w) (m, w')"
| shutdown: "condition_variable_impl_shutdown (cv_impl m) w = Some (i, w') \<Longrightarrow> cv_action (m, w) (m\<lparr>cv_impl := i\<rparr>, w')"

inductive cv_step :: "basic_condition_variable \<times> world \<Rightarrow> basic_condition_variable \<times> world \<Rightarrow> bool" where
  call: "cv_action c c' \<Longrightarrow> cv_step c c'"
| other: "world_ok w' \<Longrightarrow> \<forall>q. pending w (cv_waiters (cv_impl m)) q \<longrightarrow> pending w' (cv_waiters (cv_impl m)) q \<Longrightarrow>
    cv_step (m, w) (m, w')"

inductive cv_reachable :: "basic_condition_variable \<times> world \<Rightarrow> bool" where
  init: "world_ok w \<Longrightarrow> registered w svc ms \<Longrightarrow>
    basic_condition_variable_ctor ex A ctx hint svc w = Some (m, svc', w') \<Longrightarrow> cv_reachable (m, w')"
| step: "cv_reachable c \<Longrightarrow> cv_step c c' \<Longrightarrow> cv_reachable c'"
| move: "cv_reachable (m, w) \<Longrightarrow> registered w svc ms \<Longrightarrow> service (cv_impl m) = Some (entries svc) \<Longrightarrow>
    cv_waiters (cv_impl m) \<notin> set (entries svc # ms) \<Longrightarrow>
    basic_condition_variable_move_ctor m svc w = Some (t, m', svc', w') \<Longrightarrow>
    c = (t, w') \<or> c = (m', w') \<Longrightarrow> cv_reachable c"

lemma cv_cancel_elsewhere:
  "async_wait_cancel i a (Some sl) type w = Some (u, i', w') \<Longrightarrow> idle (mtx m) \<Longrightarrow>
   async_wait_cancel m a (Some sl) type w = Some ((), m, w')"
  unfolding async_wait_cancel_def by (auto intro: scoped_elsewhere split: if_splits)

lemma cv_action_inv:
  assumes "cv_action (m, w) (m', w')" "cv_rel (cv_impl m) w q"
  shows "\<exists>q'. cv_rel (cv_impl m') w' q'"
  using assms(1)
proof (cases rule: cv_action.cases)
  case (wait_predicate p h)
  with async_predicate_wait_ok[OF assms(2), of p h] show ?thesis by (auto elim!: okE)
next
  case (wait h)
  with async_predicate_wait_ok[OF assms(2), of true_predicate h] show ?thesis by (auto simp: async_wait_eq elim!: okE)
next
  case (notify_one ev)
  with notify_one_ok[OF assms(2), of ev] assms(2) show ?thesis
    by (cases q) (auto simp: basic_condition_variable_notify_one_def elim!: okE split: if_splits)
next
  case (notify_all ev)
  with notify_all_ok[OF assms(2), of ev] show ?thesis
    by (auto simp: basic_condition_variable_notify_all_def elim!: okE)
next
  case (cancel p a x s i type u i')
  have "p = q" using cancel(2) assms(2) by (auto simp: cv_rel_def intro: pending_unique)
  with cancel(3) obtain ys zs where q: "q = ys @ (a, x) # zs" by (metis split_list)
  show ?thesis
    using cv_cancel_ok[OF assms(2)[unfolded q], of type "Some s"] cancel(1) assms(2)
      cv_cancel_elsewhere[OF cancel(6) cv_relD(3)[OF assms(2)]]
    by (cases "type = 0") (auto simp: async_wait_cancel_def elim!: okE)
next
  case (shutdown i)
  with cv_shutdown_ok[OF assms(2)] show ?thesis by (auto elim!: okE)
qed

lemma cv_step_inv:
  assumes "cv_step (m, w) (m', w')" "cv_rel (cv_impl m) w q"
  shows "\<exists>q'. cv_rel (cv_impl m') w' q'"
  using assms(1)
proof (cases rule: cv_step.cases)
  case call
  then show ?thesis by (rule cv_action_inv[OF _ assms(2)])
next
  case other
  with assms(2) show ?thesis by (auto simp: cv_rel_def)
qed

lemma cv_reachable_inv: "cv_reachable c \<Longrightarrow> \<exists>q. cv_rel (cv_impl (fst c)) (snd c) q"
proof (induction rule: cv_reachable.induct)
  case (init w svc ms ex A ctx hint m svc' w')
  from cv_ctor_ok[OF init(1,2), of ex A ctx hint] init(3) show ?case by (auto elim!: okE)
next
  case (step c c')
  then show ?case by (metis cv_step_inv prod.collapse)
next
  case (move m w svc ms t m' svc' w' c)
  then obtain q where "cv_rel (cv_impl m) w q" by auto
  from cv_move_ctor_ok[OF this move(2-4)] move(5,6) show ?case by (auto elim!: okE)
qed

lemma cv_reachableD:
  assumes "cv_reachable (m, w)" "pending w (cv_waiters (cv_impl m)) q"
  shows "cv_rel (cv_impl m) w q"
proof -
  from cv_reachable_inv[OF assms(1)] obtain p where "cv_rel (cv_impl m) w p" by auto
  moreover from this have "p = q" using assms(2) by (auto simp: cv_rel_def intro: pending_unique)
  ultimately show ?thesis by simp
qed
text \<open>Every call stays within the lists of the object and keeps its identity.\<close>

lemma cv_action_local:
  assumes "cv_action (m, w) (m', w')" "cv_rel (cv_impl m) w q"
  shows "m' = m \<and> keeps {cv_waiters (cv_impl m)} w w'"
proof -
  note W = cv_relD[OF assms(2)] and k = cv_keeps[OF assms(2) cv_relD(1)]
  show ?thesis using assms(1)
  proof (cases rule: cv_action.cases)
    case (wait_predicate p h)
    with async_predicate_wait_ok[OF assms(2), of p h] k show ?thesis by (auto elim!: okE)
  next
    case (wait h)
    with async_predicate_wait_ok[OF assms(2), of true_predicate h] k show ?thesis by (auto simp: async_wait_eq elim!: okE)
  next
    case (notify_one ev)
    with notify_one_ok[OF assms(2), of ev] k W show ?thesis
      by (cases q) (auto simp: basic_condition_variable_notify_one_def elim!: okE split: if_splits)
  next
    case (notify_all ev)
    with notify_all_ok[OF assms(2), of ev] k show ?thesis
      by (auto simp: basic_condition_variable_notify_all_def elim!: okE)
  next
    case (cancel p a x s i type u i')
    have "p = q" using cancel(2) W(2) by (rule pending_unique)
    with cancel(3) obtain ys zs where q: "q = ys @ (a, x) # zs" by (metis split_list)
    show ?thesis
      using cv_cancel_ok[OF assms(2)[unfolded q], of type "Some s"] cancel(1) W
        cv_cancel_elsewhere[OF cancel(6) W(3)]
      by (cases "type = 0") (auto simp: async_wait_cancel_def elim!: okE)
  next
    case (shutdown i)
    with cv_shutdown_ok[OF assms(2)] show ?thesis by (auto elim!: okE)
  qed
qed

subsection \<open>The condition variable among other primitives\<close>

definition cv_history :: "basic_condition_variable \<Rightarrow> world \<Rightarrow> bool" where
  [simp]: "cv_history m w = cv_reachable (m, w)"

definition cv_roots :: "basic_condition_variable \<Rightarrow> addr list" where
  [simp]: "cv_roots m = [cv_waiters (cv_impl m)]"

definition cv_base :: "basic_condition_variable \<Rightarrow> service_member" where
  [simp]: "cv_base m = service_member.truncate (cv_impl m)"

fun cv_new :: "op_list_service \<times> world \<Rightarrow> basic_condition_variable \<times> op_list_service \<times> world \<Rightarrow> bool" where
  "cv_new (svc, w) (m, svc', w') \<longleftrightarrow>
     (\<exists>ex A ctx hint. basic_condition_variable_ctor ex A ctx hint svc w = Some (m, svc', w'))"

definition cv_delete :: "basic_condition_variable \<Rightarrow> op_list_service \<Rightarrow> world \<Rightarrow> (op_list_service \<times> world) option" where
  [simp]: "cv_delete m svc w = condition_variable_impl_dtor (cv_impl m) svc w"

lemma cv_reachable_rel:
  assumes "cv_reachable (m, w)"
  obtains q where "cv_rel (cv_impl m) w q"
  using cv_reachable_inv[OF assms] by auto

interpretation cv_shared: shared_primitive cv_history cv_action cv_roots cv_base cv_new cv_delete
  basic_condition_variable_move_ctor
proof (unfold_locales, goal_cases)
  case (1 p w r)
  then show ?case by (auto elim!: cv_reachable_rel intro: cv_relD(2))
next
  case (2 p w p' w')
  then obtain q where "cv_rel (cv_impl p) w q" by (auto elim: cv_reachable_rel)
  from cv_action_local[OF 2(2) this] 2 show ?case by (auto intro: cv_reachable.step cv_step.call)
next
  case (3 p w w')
  then show ?case by (auto intro: cv_reachable.step cv_step.other)
next
  case (4 w svc ms p svc' w')
  then obtain ex A ctx hint where c: "basic_condition_variable_ctor ex A ctx hint svc w = Some (p, svc', w')" by auto
  have "cv_reachable (p, w')" by (rule cv_reachable.init[OF 4(1,2) c])
  with cv_ctor_ok[OF 4(1,2), of ex A ctx hint] c show ?case by (auto simp: service_member.defs cv_rel_def)
next
  case (5 p w svc ms ns)
  then obtain q where s: "cv_rel (cv_impl p) w q" by (auto elim: cv_reachable_rel)
  have "registered w svc (ms @ sm_node (cv_impl p) # ns)" "service (cv_impl p) = Some (entries svc)"
    "cv_waiters (cv_impl p) \<notin> set (entries svc # ms @ sm_node (cv_impl p) # ns)"
    using 5 by (auto simp: service_member.defs)
  from cv_dtor_ok[OF s this] show ?case by (auto simp: service_member.defs insert_commute elim!: ok_conseq)
next
  case (6 p w svc ms)
  then obtain q where s: "cv_rel (cv_impl p) w q" by (auto elim: cv_reachable_rel)
  have r: "cv_reachable (p, w)" "service (cv_impl p) = Some (entries svc)"
    "cv_waiters (cv_impl p) \<notin> set (entries svc # ms)"
    using 6 by (auto simp: service_member.defs)
  note reach = cv_reachable.move[OF r(1) 6(2) r(2,3)]
  from cv_move_ctor_ok[OF s 6(2) r(2,3)] obtain t w' where
    "basic_condition_variable_move_ctor p svc w = Some (t, p, svc, w')" "cv_rel (cv_impl t) w' q" "cv_rel (cv_impl p) w' []"
    "registered w' svc (ms @ [sm_node (cv_impl t)])" "trace w' = trace w" "service (cv_impl t) = Some (entries svc)"
    "sm_node (cv_impl t) = brk w" "cv_waiters (cv_impl t) = Suc (brk w)"
    "spares (insert (cv_waiters (cv_impl p)) (set (entries svc # ms))) w w'"
    by (auto elim!: okE)
  moreover have "brk w \<notin> dom (nodes w)" "Suc (brk w) \<notin> dom (nodes w)"
    using world_ok_fresh[OF cv_relD(1)[OF s]] by simp_all
  ultimately show ?case using s reach
    by (auto simp: service_member.defs insert_commute cv_rel_def intro: carriedI)
next
  case (7 p w)
  then show ?case by (auto simp: service_member.defs cv_rel_def dest!: cv_reachable_inv)
qed

subsection \<open>A condition variable to start from\<close>

text \<open>Two operations wait: the first for a predicate of the caller, the second for any notification.\<close>

definition some_cv :: basic_condition_variable where
  "some_cv = \<lparr>cv_exec = 7, cv_impl = \<lparr>sm_node = 1, service = Some 0, mtx = cem_ctor True, cv_waiters = 2\<rparr>\<rparr>"

definition cv_world :: world where
  "cv_world = \<lparr>nodes = [0 \<mapsto> \<lparr>next_node = 1, prev_node = 1\<rparr>, 1 \<mapsto> \<lparr>next_node = 0, prev_node = 0\<rparr>,
       2 \<mapsto> \<lparr>next_node = 2, prev_node = 2\<rparr>],
     ops = Map.empty, slots = Map.empty, trace = [], brk = 3\<rparr>"

abbreviation some_wait :: "nat \<Rightarrow> predicate \<Rightarrow> wait_op" where
  "some_wait k p \<equiv> Predicate_op \<lparr>work_guard = 7, op_handler = some_handler k, op_predicate = p\<rparr>"

definition cv_waiting :: world where
  "cv_waiting = \<lparr>nodes = [0 \<mapsto> \<lparr>next_node = 1, prev_node = 1\<rparr>, 1 \<mapsto> \<lparr>next_node = 0, prev_node = 0\<rparr>,
       2 \<mapsto> \<lparr>next_node = 3, prev_node = 4\<rparr>, 3 \<mapsto> \<lparr>next_node = 4, prev_node = 2\<rparr>,
       4 \<mapsto> \<lparr>next_node = 2, prev_node = 3\<rparr>],
     ops = [3 \<mapsto> some_wait 1 (user_predicate 9), 4 \<mapsto> some_wait 2 true_predicate],
     slots = [1 \<mapsto> 3, 2 \<mapsto> 4], trace = [], brk = 5\<rparr>"

lemmas cv_eval [sam_eval] = condition_variable_impl.defs some_cv_def cv_world_def condition_variable_impl_ctor_def
  basic_condition_variable_ctor_def cv_add_waiter_def async_predicate_wait_def async_wait_def

lemma cv_waiting_reachable: "cv_reachable (some_cv, cv_waiting)"
proof -
  let ?w = "\<lparr>nodes = [0 \<mapsto> \<lparr>next_node = 1, prev_node = 1\<rparr>, 1 \<mapsto> \<lparr>next_node = 0, prev_node = 0\<rparr>,
       2 \<mapsto> \<lparr>next_node = 3, prev_node = 3\<rparr>, 3 \<mapsto> \<lparr>next_node = 2, prev_node = 2\<rparr>],
     ops = [3 \<mapsto> some_wait 1 (user_predicate 9)], slots = [1 \<mapsto> 3], trace = [], brk = 4\<rparr>"
  have "basic_condition_variable_ctor 7 some_hints some_ctx (-1) start_service start_world =
      Some (some_cv, start_service, cv_world)"
    by (simp add: sam_eval fun_upd_twist numeral_eq_Suc)
  from cv_reachable.init[OF start_ok this] have "cv_reachable (some_cv, cv_world)" .
  moreover have "async_predicate_wait some_cv (user_predicate 9) (some_handler 1) cv_world = Some (some_cv, ?w)"
    by (simp add: sam_eval fun_upd_twist)
  ultimately have "cv_reachable (some_cv, ?w)" by (blast intro: cv_reachable.step cv_step.call cv_action.wait_predicate)
  moreover have "async_wait some_cv (some_handler 2) ?w = Some (some_cv, cv_waiting)"
    by (simp add: sam_eval cv_waiting_def fun_upd_twist)
  ultimately show ?thesis by (blast intro: cv_reachable.step cv_step.call cv_action.wait)
qed

lemma cv_waiting_pending: "pending cv_waiting (cv_waiters (cv_impl some_cv))
    [(3, some_wait 1 (user_predicate 9)), (4, some_wait 2 true_predicate)]"
  by (simp add: pending_def is_bilist_def link_def heap_access some_cv_def cv_waiting_def)

subsection \<open>Properties\<close>

text \<open>
  C16: \<open>notify_all\<close> completes, oldest first and without an error, exactly the waiting operations whose
  predicate holds, and keeps the others in their order; its loop ends, although it removes nodes from
  the list it walks.
\<close>

theorem cv_notify_all_completes_satisfied:
  assumes "cv_reachable (m, w)" "pending w (cv_waiters (cv_impl m)) q"
  shows "ok (basic_condition_variable_notify_all ev m w) (\<lambda>(m', w'). m' = m \<and>
    pending w' (cv_waiters (cv_impl m)) (filter (\<lambda>p. \<not> satisfied ev p) q) \<and>
    trace w' = trace w @ concat (map (\<lambda>(a, x). signals success a x) (filter (satisfied ev) q)))"
  using notify_all_ok[OF cv_reachableD[OF assms], of ev]
  by (auto simp: basic_condition_variable_notify_all_def cv_rel_def elim!: ok_conseq)

theorem cv_notify_all_completes_satisfied_witness:
  "ok (basic_condition_variable_notify_all (\<lambda>n. False) some_cv cv_waiting) (\<lambda>(m', w').
     pending w' 2 [(3, some_wait 1 (user_predicate 9))] \<and> trace w' = [Post 7 (some_handler 2) success])"
  using cv_notify_all_completes_satisfied[OF cv_waiting_reachable cv_waiting_pending, of "\<lambda>n. False"]
  by (auto simp: some_cv_def cv_waiting_def elim!: ok_conseq)

text \<open>
  C28: \<open>notify_one\<close> considers the oldest operation only: it completes it if its predicate holds, and
  otherwise nobody is notified, whatever the predicates of the other operations say.
\<close>

theorem cv_notify_one_considers_oldest:
  assumes "cv_reachable (m, w)" "pending w (cv_waiters (cv_impl m)) ((a, x) # q)"
  shows "ok (basic_condition_variable_notify_one ev m w) (\<lambda>(m', w'). m' = m \<and>
    (if satisfied ev (a, x) then pending w' (cv_waiters (cv_impl m)) q \<and> trace w' = trace w @ signals success a x
     else w' = w))"
  using notify_one_ok[OF cv_reachableD[OF assms], of ev]
  by (auto simp: basic_condition_variable_notify_one_def cv_rel_def elim!: ok_conseq)

theorem cv_notify_one_considers_oldest_witness:
  "ok (basic_condition_variable_notify_one (\<lambda>n. False) some_cv cv_waiting) (\<lambda>(m', w').
     w' = cv_waiting \<and> satisfied (\<lambda>n. False) (4, some_wait 2 true_predicate))"
  using cv_notify_one_considers_oldest[OF cv_waiting_reachable cv_waiting_pending, of "\<lambda>n. False"]
  by (auto elim!: ok_conseq)

text \<open>
  C27: The cast in \<open>notify_one\<close> and \<open>notify_all\<close> is sound: in every reachable state each node of the
  waiting list is an operation with a predicate, so that \<open>done\<close> can be called through every one of them.
\<close>

theorem cv_waiters_have_predicates:
  assumes "cv_reachable (m, w)"
  shows "\<exists>q. pending w (cv_waiters (cv_impl m)) q \<and>
    (\<forall>(a, x) \<in> set q. is_predicate_op x \<and> predicate_done ev a w = Some (satisfied ev (a, x)))"
proof -
  from cv_reachable_inv[OF assms] obtain q where q: "cv_rel (cv_impl m) w q" by auto
  have "predicate_done ev a w = Some (satisfied ev (a, x))" if "(a, x) \<in> set q" for a x
  proof -
    from split_list[OF that] obtain ys zs where "q = ys @ (a, x) # zs" by blast
    with cv_relD[OF q] that show ?thesis by (auto intro!: predicate_done_pending)
  qed
  with cv_relD[OF q] show ?thesis by blast
qed

theorem cv_waiters_have_predicates_witness:
  "\<exists>q. pending cv_waiting (cv_waiters (cv_impl some_cv)) q \<and> (\<forall>(a, x) \<in> set q. is_predicate_op x)"
  using cv_waiters_have_predicates[OF cv_waiting_reachable] by fast

end
