(* ===== verification/Binary_Semaphore.thy ===== *)
theory Binary_Semaphore
  imports Mutex_Props Semaphore_Props
begin

section \<open>A semaphore with one permit is a mutex\<close>

text \<open>
  \<open>mutex_impl\<close> and \<open>semaphore_impl\<close> are written separately, one with a flag and one with a count.  Driven by the
  same calls, a semaphore constructed with one permit cannot be told from a mutex, as long as nobody
  unlocks what is not locked: there the mutex does nothing and the semaphore gains a second permit.
\<close>

subsection \<open>The calls of a mutex, on a semaphore\<close>

fun as_semaphore_call :: "mutex_call \<Rightarrow> semaphore_call" where
  "as_semaphore_call Call_try_lock = Call_try_acquire"
| "as_semaphore_call (Call_lock ec) = Call_acquire ec"
| "as_semaphore_call (Call_async_lock h) = Call_async_acquire h"
| "as_semaphore_call Call_unlock = Call_release"

subsection \<open>The two contracts side by side\<close>

text \<open>
  The pending requests agree, but for the blocked calls: one waits in a \<open>lock_op_t\<close>, the other in an
  \<open>acquire_op_t\<close>.
\<close>

fun same_request :: "wait_op \<Rightarrow> wait_op \<Rightarrow> bool" where
  "same_request (Lock_op s) (Acquire_op t) \<longleftrightarrow> s = t"
| "same_request (Basic_op p) (Basic_op q) \<longleftrightarrow> p = q"
| "same_request _ _ \<longleftrightarrow> False"

lemma same_request_signals: "same_request x y \<Longrightarrow> signals ec a x = signals ec a y"
  by (induction x y rule: same_request.induct) simp_all

definition binary :: "mutex_spec \<Rightarrow> semaphore_spec \<Rightarrow> bool" where
  "binary s t \<longleftrightarrow> avail t = of_bool (\<not> owned s) \<and> sfresh t = fresh s \<and>
     list_all2 (\<lambda>p q. fst p = fst q \<and> same_request (snd p) (snd q)) (queue s) (squeue t)"

text \<open>Calls that unlock only what is locked.\<close>

fun disciplined :: "bool \<Rightarrow> executor \<Rightarrow> mutex_call list \<Rightarrow> mutex_spec \<Rightarrow> bool" where
  "disciplined multi ex [] s \<longleftrightarrow> True"
| "disciplined multi ex (c # cs) s \<longleftrightarrow> (c = Call_unlock \<longrightarrow> owned s) \<and>
     disciplined multi ex cs (fst (snd (mspec_exec multi ex c s)))"

lemma binary_exec:
  assumes "binary s t" "c = Call_unlock \<Longrightarrow> owned s"
  shows "case (mspec_exec multi ex c s, sspec_exec multi ex (as_semaphore_call c) t) of
    ((r, s', es), (r', t', es')) \<Rightarrow> r = r' \<and> es = es' \<and> binary s' t'"
proof (cases c)
  case Call_unlock
  with assms show ?thesis
    by (auto simp: binary_def mspec_unlock_def sspec_release_def same_request_signals list_all2_Cons1
        split: list.splits)
qed (use assms in \<open>auto simp: binary_def mspec_try_lock_def sspec_try_acquire_def mspec_lock_def sspec_acquire_def
  mspec_async_lock_def sspec_async_acquire_def intro!: list_all2_appendI\<close>)

lemma binary_run:
  assumes "binary s t" "disciplined multi ex cs s"
  shows "legal_run (sspec_exec multi ex) semaphore_legal (map as_semaphore_call cs) t \<and>
    (case (mspec_run multi ex cs s, sspec_run multi ex (map as_semaphore_call cs) t) of
      ((rs, s', es), (rs', t', es')) \<Rightarrow> rs = rs' \<and> es = es' \<and> binary s' t')"
  using assms
proof (induction cs arbitrary: s t)
  case (Cons c cs)
  obtain r s1 es where s1: "mspec_exec multi ex c s = (r, s1, es)" by (metis prod_cases3)
  have u: "c = Call_unlock \<Longrightarrow> owned s" using Cons.prems(2) by simp
  from binary_exec[OF Cons.prems(1), of c multi ex, OF u] s1 obtain t1 where
    t1: "sspec_exec multi ex (as_semaphore_call c) t = (r, t1, es)" "binary s1 t1" by (auto split: prod.splits)
  have l: "semaphore_legal (as_semaphore_call c) t" using Cons.prems(1) u by (cases c) (simp_all add: binary_def)
  have "disciplined multi ex cs s1" using Cons.prems(2) s1 by simp
  from Cons.IH[OF t1(2) this] s1 t1(1) l show ?case by (auto split: prod.splits)
qed simp

subsection \<open>The equivalence\<close>

text \<open>
  C9: Equivalence.  Construct a mutex, and a semaphore with one permit, in the same place, and make the same calls on
  both, \<open>acquire\<close> for \<open>lock\<close> and \<open>release\<close> for \<open>unlock\<close>, never unlocking a free mutex.  All calls return, with the
  same results, including which calls block; the completions are the same, in the same order; and the count
  is one exactly when the mutex is free.
\<close>

theorem binary_semaphore_is_mutex:
  assumes "world_ok w" "registered w svc ms"
    and "disciplined (\<not> is_single_threaded A ctx hint) ex cs \<lparr>owned = False, queue = [], fresh = brk w + 2\<rparr>"
  shows "ok (do { (m, _, w1) \<leftarrow> basic_mutex_ctor ex A ctx hint svc w; mutex_run cs m w1 }) (\<lambda>(rs, m', w').
    ok (do { (n, _, v1) \<leftarrow> basic_semaphore_ctor ex A ctx 1 hint svc w; semaphore_run (map as_semaphore_call cs) n v1 }) (\<lambda>(rs', n', v').
      rs = rs' \<and> trace w' = trace v' \<and> sem_count (bs_impl n') = of_bool (\<not> locked (bm_impl m'))))"
proof -
  let ?s = "\<lparr>owned = False, queue = [], fresh = brk w + 2\<rparr>" and ?t = "\<lparr>avail = 1, squeue = [], sfresh = brk w + 2\<rparr>"
  from mutex_ctor_ok[OF assms(1,2), of ex A ctx hint] obtain m w1 where
    m: "basic_mutex_ctor ex A ctx hint svc w = Some (m, svc, w1)" "bm_exec m = ex" "mutex_rel (bm_impl m) w1 ?s"
      "enabled (mtx (bm_impl m)) = (\<not> is_single_threaded A ctx hint)" "trace w1 = trace w" by (auto elim!: okE)
  from semaphore_ctor_ok[OF assms(1,2), of 1 ex A ctx hint] obtain n v1 where
    n: "basic_semaphore_ctor ex A ctx 1 hint svc w = Some (n, svc, v1)" "bs_exec n = ex" "semaphore_rel (bs_impl n) v1 ?t"
      "enabled (mtx (bs_impl n)) = (\<not> is_single_threaded A ctx hint)" "trace v1 = trace w" by (auto elim!: okE)
  let ?b = "\<not> is_single_threaded A ctx hint" and ?cs = "map as_semaphore_call cs"
  have "binary ?s ?t" by (simp add: binary_def)
  from binary_run[OF this assms(3)] obtain rs s' t' es where
    r: "mspec_run ?b ex cs ?s = (rs, s', es)" "sspec_run ?b ex ?cs ?t = (rs, t', es)" "binary s' t'"
    and l: "legal_run (sspec_exec ?b ex) semaphore_legal ?cs ?t" by (auto split: prod.splits)
  have "ok (mutex_run cs m w1) (\<lambda>(rs', m', w'). rs' = rs \<and> mutex_rel (bm_impl m') w' s' \<and> trace w' = trace w @ es)"
    using mutex_run_simulates[OF m(3), of cs] m(2,4,5) r(1) by simp
  moreover have "ok (semaphore_run ?cs n v1) (\<lambda>(rs', n', v').
      rs' = rs \<and> semaphore_rel (bs_impl n') v' t' \<and> trace v' = trace w @ es)"
    using semaphore_calls.run_refines[OF n(3), of ?cs] l n(2,4,5) r(2) by simp
  ultimately show ?thesis
    using m(1) n(1) r(3) by (auto simp: mutex_rel_def semaphore_rel_def binary_def elim!: okE)
qed

abbreviation handover_calls :: "mutex_call list" where
  "handover_calls \<equiv> [Call_lock success, Call_async_lock (some_handler 1), Call_try_lock, Call_unlock, Call_unlock]"

theorem binary_semaphore_is_mutex_witness:
  "ok (do { (m, _, w1) \<leftarrow> basic_mutex_ctor 7 some_hints some_ctx (-1) start_service start_world;
            mutex_run handover_calls m w1 }) (\<lambda>(rs, m', w').
    ok (do { (n, _, v1) \<leftarrow> basic_semaphore_ctor 7 some_hints some_ctx 1 (-1) start_service start_world;
             semaphore_run (map as_semaphore_call handover_calls) n v1 }) (\<lambda>(rs', n', v').
      rs = rs' \<and> trace w' = trace v' \<and> sem_count (bs_impl n') = of_bool (\<not> locked (bm_impl m'))))"
proof (rule binary_semaphore_is_mutex[OF start_ok])
  have "is_single_threaded some_hints some_ctx (-1) = False" by (simp add: sam_eval)
  then show "disciplined (\<not> is_single_threaded some_hints some_ctx (-1)) 7 handover_calls
      \<lparr>owned = False, queue = [], fresh = brk start_world + 2\<rparr>"
    by (simp add: mspec_lock_def mspec_async_lock_def mspec_try_lock_def mspec_unlock_def)
qed

end
