(* ===== verification/Service_Shutdown.thy ===== *)
theory Service_Shutdown
  imports Service_Member
begin

section \<open>Shutdown of the service\<close>

text \<open>
  Models \<open>op_list_service::shutdown\<close> of \<open>detail/impl/service.ipp\<close>, which asio calls when the execution
  context goes away.  The service knows its members only through their base class: it sets their
  pointer \<open>service\<close> to null and calls the virtual \<open>shutdown\<close>.  The two are the parameters \<open>clear\<close> and
  \<open>sd\<close>, and the locale \<open>service_client\<close> states what the service relies on.  The objects live in a table
  from the addresses of their nodes.
\<close>

subsection \<open>The loop\<close>

text \<open>\<open>e.next_ = nx = nnx\<close>: the local root follows the loop forward, its \<open>prev_\<close> stays as it was.\<close>

partial_function (option) service_shutdown_loop ::
  "('m \<Rightarrow> world \<Rightarrow> ('m \<times> world) option) \<Rightarrow> ('m \<Rightarrow> 'm) \<Rightarrow> addr \<Rightarrow> addr \<Rightarrow> (addr \<rightharpoonup> 'm) \<Rightarrow> world \<Rightarrow>
   ((addr \<rightharpoonup> 'm) \<times> world) option" where
  "service_shutdown_loop sd clear e nx ms w =
     (if nx = e then Some (ms, w)
      else do {
        nnx \<leftarrow> get_next nx (nodes w);
        m \<leftarrow> ms nx;
        (m, w) \<leftarrow> sd (clear m) w;
        let ms = ms(nx \<mapsto> m);
        w \<leftarrow> on_nodes (set_next e nnx) w;
        service_shutdown_loop sd clear e nnx ms w })"

definition op_list_service_shutdown ::
  "('m \<Rightarrow> world \<Rightarrow> ('m \<times> world) option) \<Rightarrow> ('m \<Rightarrow> 'm) \<Rightarrow> op_list_service \<Rightarrow> (addr \<rightharpoonup> 'm) \<Rightarrow> world \<Rightarrow>
   ((addr \<rightharpoonup> 'm) \<times> world) option" where
  "op_list_service_shutdown sd clear svc ms w = do {
     (e, w) \<leftarrow> holder_move_ctor (entries svc) w;
     nx \<leftarrow> get_next e (nodes w);
     (ms, w) \<leftarrow> service_shutdown_loop sd clear e nx ms w;
     w \<leftarrow> free_node e w;
     Some (ms, w) }"

subsection \<open>What a member promises\<close>

text \<open>
  The queues behind the roots \<open>rs\<close>, which \<open>qs\<close> names, wait; they have been shut down one after the other.
\<close>

definition all_nodes :: "(addr \<Rightarrow> (addr \<times> wait_op) list) \<Rightarrow> addr list \<Rightarrow> addr set" where
  "all_nodes qs rs = (\<Union>r \<in> set rs. queue_nodes r (qs r))"

definition waits :: "(addr \<Rightarrow> (addr \<times> wait_op) list) \<Rightarrow> addr list \<Rightarrow> world \<Rightarrow> bool" where
  "waits qs rs w \<longleftrightarrow> world_ok w \<and> distinct rs \<and> (\<forall>r \<in> set rs. pending w r (qs r))"

definition emptied :: "addr set \<Rightarrow> (addr \<Rightarrow> (addr \<times> wait_op) list) \<Rightarrow> addr list \<Rightarrow> world \<Rightarrow> world \<Rightarrow> bool" where
  "emptied E qs rs w w' \<longleftrightarrow> world_ok w' \<and> (\<forall>r \<in> set rs. pending w' r []) \<and>
     drained shutdown_signals shut_down (concat (map qs rs)) (w\<lparr>brk := brk w'\<rparr>) w' \<and>
     untouched (E \<union> all_nodes qs rs) w w'"

lemma all_nodes_simps [simp]:
  "all_nodes qs [] = {}" "all_nodes qs [r] = queue_nodes r (qs r)"
  "all_nodes qs (rs @ rs') = all_nodes qs rs \<union> all_nodes qs rs'"
  by (auto simp: all_nodes_def)

lemma all_nodes_mem:
  "r \<in> set rs \<Longrightarrow> r \<in> all_nodes qs rs" "r \<in> set rs \<Longrightarrow> queue_nodes r (qs r) \<subseteq> all_nodes qs rs"
  "fst ` set (concat (map qs rs)) \<subseteq> all_nodes qs rs"
  by (auto simp: all_nodes_def)

lemma drained_from_brk:
  "drained sig ec q (w\<lparr>brk := b\<rparr>) w' \<longleftrightarrow>
     trace w' = trace w @ concat (map (\<lambda>(a, x). sig a x) q) \<and>
     (\<forall>y. ops w' y = (case map_of q y of None \<Rightarrow> ops w y | Some x \<Rightarrow> finished ec x)) \<and>
     (\<forall>s. slots w' s = (if Some s \<in> (op_slot \<circ> snd) ` set q then None else slots w s)) \<and> brk w' = b"
  by (simp add: drained_def cong: option.case_cong if_cong)

lemma drained_append:
  assumes "drained sig ec q (w\<lparr>brk := b\<rparr>) w1" "drained sig ec q' (w1\<lparr>brk := c\<rparr>) w2"
    and "fst ` set q \<inter> fst ` set q' = {}"
  shows "drained sig ec (q @ q') (w\<lparr>brk := c\<rparr>) w2"
proof -
  have "map_of q' y = None" if "map_of q y = Some x" for x y
  proof -
    have "y \<in> fst ` set q" using map_of_SomeD[OF that] by force
    with assms(3) show ?thesis by (auto simp: map_of_eq_None_iff)
  qed
  then have n: "map_of (q @ q') y = (case map_of q y of None \<Rightarrow> map_of q' y | Some x \<Rightarrow> Some x)" for y
    by (auto simp: map_add_def split: option.splits)
  have o: "ops w1 y = (case map_of q y of None \<Rightarrow> ops w y | Some x \<Rightarrow> finished ec x)"
      "ops w2 y = (case map_of q' y of None \<Rightarrow> ops w1 y | Some x \<Rightarrow> finished ec x)" for y
    using assms(1,2) by (simp_all add: drained_from_brk)
  have s: "slots w1 s = (if Some s \<in> (op_slot \<circ> snd) ` set q then None else slots w s)"
      "slots w2 s = (if Some s \<in> (op_slot \<circ> snd) ` set q' then None else slots w1 s)" for s
    using assms(1,2) by (simp_all add: drained_from_brk)
  have "ops w2 y = (case map_of (q @ q') y of None \<Rightarrow> ops w y | Some x \<Rightarrow> finished ec x)" for y
    using \<open>\<And>x y. map_of q y = Some x \<Longrightarrow> map_of q' y = None\<close>
    by (auto simp: n o simp del: map_of_append split: option.splits)
  moreover have "slots w2 s = (if Some s \<in> (op_slot \<circ> snd) ` set (q @ q') then None else slots w s)" for s
    by (simp add: s(1) s(2) image_Un)
  ultimately show ?thesis using assms(1,2) unfolding drained_from_brk by simp
qed

lemma emptied_Nil: "world_ok w \<Longrightarrow> emptied E qs [] w w"
  by (simp add: emptied_def drained_def)

lemma emptied_one:
  assumes "world_ok w'" "pending w' r []"
    and "drained shutdown_signals shut_down (qs r) (w\<lparr>brk := b\<rparr>) w'" "untouched (queue_nodes r (qs r)) w w'"
  shows "emptied {} qs [r] w w'"
  using assms drained_brk[OF assms(3)] by (simp add: emptied_def)

lemma emptied_mono: "emptied E qs rs w w' \<Longrightarrow> E \<subseteq> F \<Longrightarrow> emptied F qs rs w w'"
  by (auto simp: emptied_def intro: untouched_mono)

lemma all_nodes_disjoint:
  assumes "\<forall>r \<in> set rs \<union> set rs'. pending w r (qs r)" "set rs \<inter> set rs' = {}"
  shows "all_nodes qs rs \<inter> all_nodes qs rs' = {}"
proof -
  have "queue_nodes r (qs r) \<inter> queue_nodes r' (qs r') = {}" if "r \<in> set rs" "r' \<in> set rs'" for r r'
    by (rule pending_disjoint[of w]) (use that assms in auto)
  then show ?thesis unfolding all_nodes_def by blast
qed

lemma waits_append:
  assumes "waits qs (rs @ rs') w" "emptied E qs rs w w1" "E \<inter> all_nodes qs rs' = {}"
  shows "waits qs rs' w1"
proof -
  have D: "all_nodes qs rs' \<inter> all_nodes qs rs = {}"
    by (rule all_nodes_disjoint[of rs' rs w]) (use assms(1) in \<open>auto simp: waits_def\<close>)
  have "pending w1 r (qs r)" if r: "r \<in> set rs'" for r
  proof (rule pending_untouched)
    show "untouched (E \<union> all_nodes qs rs) w w1" using assms(2) by (simp add: emptied_def)
    show "queue_nodes r (qs r) \<inter> (E \<union> all_nodes qs rs) = {}"
      using all_nodes_mem(2)[OF r, of qs] D assms(3) by blast
  qed (use r assms(1) in \<open>simp add: waits_def\<close>)
  then show ?thesis using assms by (auto simp: waits_def emptied_def)
qed

lemma emptied_append:
  assumes "waits qs (rs @ rs') w" "emptied E qs rs w w1" "emptied E qs rs' w1 w2" "E \<inter> all_nodes qs rs = {}"
  shows "emptied E qs (rs @ rs') w w2"
proof -
  have D: "all_nodes qs rs \<inter> all_nodes qs rs' = {}"
    by (rule all_nodes_disjoint[of rs rs' w]) (use assms(1) in \<open>auto simp: waits_def\<close>)
  have U: "untouched (E \<union> all_nodes qs rs) w w1" "untouched (E \<union> all_nodes qs rs') w1 w2"
    and N: "\<forall>r \<in> set rs. pending w1 r []" "\<forall>r \<in> set rs'. pending w2 r []"
    using assms(2,3) by (simp_all add: emptied_def)
  have "pending w2 r []" if r: "r \<in> set rs" for r
  proof (rule pending_untouched[OF _ U(2)])
    have "r \<in> all_nodes qs rs" using r by (rule all_nodes_mem)
    then have "r \<notin> E" "r \<notin> all_nodes qs rs'" using D assms(4) by blast+
    then show "queue_nodes r [] \<inter> (E \<union> all_nodes qs rs') = {}" by simp
  qed (use r N(1) in blast)
  moreover have "drained shutdown_signals shut_down (concat (map qs (rs @ rs'))) (w\<lparr>brk := brk w2\<rparr>) w2"
    unfolding map_append concat_append
  proof (rule drained_append)
    show "drained shutdown_signals shut_down (concat (map qs rs)) (w\<lparr>brk := brk w1\<rparr>) w1"
      "drained shutdown_signals shut_down (concat (map qs rs')) (w1\<lparr>brk := brk w2\<rparr>) w2"
      using assms(2,3) by (simp_all add: emptied_def)
    from disjoint_subsets[OF all_nodes_mem(3) all_nodes_mem(3) D]
    show "fst ` set (concat (map qs rs)) \<inter> fst ` set (concat (map qs rs')) = {}" .
  qed
  moreover have "untouched (E \<union> all_nodes qs (rs @ rs')) w w1" "untouched (E \<union> all_nodes qs (rs @ rs')) w1 w2"
    using U by (auto intro: untouched_mono)
  then have "untouched (E \<union> all_nodes qs (rs @ rs')) w w2" by (rule untouched_trans) auto
  ultimately show ?thesis using N(2) assms(3) by (auto simp: emptied_def)
qed

text \<open>Moving a pointer of a node outside the queues is invisible to them.\<close>

lemma emptied_nodes:
  assumes "emptied E qs rs w w1" "rest w2 = rest w1" "\<forall>x. x \<noteq> e \<longrightarrow> nodes w2 x = nodes w1 x"
    and "world_ok w2" "e \<in> E" "e \<notin> all_nodes qs rs"
  shows "emptied E qs rs w w2"
proof -
  have u: "untouched {e} w1 w2" using assms(2,3) by (auto simp: untouched_def rest_eq_iff)
  have "pending w2 r []" if "r \<in> set rs" for r
    by (rule pending_untouched[OF _ u]) (use that assms(1,6) all_nodes_mem(1)[OF that, of qs] in \<open>auto simp: emptied_def\<close>)
  moreover have "untouched (E \<union> all_nodes qs rs) w w2"
    using assms(1) by (intro untouched_trans[OF _ u]) (use assms(5) in \<open>auto simp: emptied_def\<close>)
  ultimately show ?thesis
    using assms(1,2,4) by (auto simp: emptied_def rest_eq_iff drained_def)
qed

subsection \<open>Taking the list of members\<close>

lemma roots_apart:
  assumes "registered w svc ns" "waits qs rs w" "set (entries svc # ns) \<inter> set rs = {}"
  shows "set (entries svc # ns) \<inter> all_nodes qs rs = {}" "all_nodes qs rs \<subseteq> dom (nodes w)"
proof -
  have "queue_nodes r (qs r) \<inter> set (entries svc # ns) = {}" "queue_nodes r (qs r) \<subseteq> dom (nodes w)"
    if r: "r \<in> set rs" for r
  proof -
    have p: "pending w r (qs r)" using r assms(2) by (simp add: waits_def)
    have "r \<notin> set (entries svc # ns)" using r assms(3) by blast
    from registered_pending_disjoint[OF assms(1) p this] pending_live[OF p]
    show "queue_nodes r (qs r) \<inter> set (entries svc # ns) = {}" "queue_nodes r (qs r) \<subseteq> dom (nodes w)" .
  qed
  then show "set (entries svc # ns) \<inter> all_nodes qs rs = {}" "all_nodes qs rs \<subseteq> dom (nodes w)"
    unfolding all_nodes_def by blast+
qed

lemma take_entries:
  assumes "world_ok w" "registered w svc ns"
  obtains w1 where "holder_move_ctor (entries svc) w = Some (brk w, w1)" "world_ok w1"
    "is_bilist (nodes w1) (brk w) ns" "is_bilist (nodes w1) (entries svc) []"
    "dom (nodes w1) = insert (brk w) (dom (nodes w))" "emptied (set (brk w # entries svc # ns)) qs [] w w1"
proof -
  have B: "is_bilist (nodes w) (entries svc) ns" and e: "brk w \<notin> dom (nodes w)"
    using assms by (auto simp: registered_def world_ok_def)
  from node_move_ctor_bilist[OF B e] obtain h where m: "node_move_ctor (brk w) (entries svc) (nodes w) = Some h"
    and h: "is_bilist h (brk w) ns" "is_bilist h (entries svc) []"
      "\<forall>x. x \<notin> set (brk w # entries svc # ns) \<longrightarrow> h x = nodes w x" "dom h = insert (brk w) (dom (nodes w))"
    by (auto elim!: okE)
  let ?w1 = "w\<lparr>brk := Suc (brk w), nodes := h\<rparr>"
  have w1: "world_ok ?w1" using assms(1) h(4) by (auto simp: world_ok_def less_Suc_eq)
  moreover have "emptied (set (brk w # entries svc # ns)) qs [] w ?w1"
    using w1 h(3) by (auto simp: emptied_def drained_from_brk untouched_def)
  moreover have "holder_move_ctor (entries svc) w = Some (brk w, ?w1)"
    using m by (simp add: holder_move_ctor_def on_nodes_def Let_def)
  ultimately show thesis using h by (intro that) simp_all
qed

text \<open>The local root goes away at the end.\<close>

lemma drop_root:
  assumes "emptied E qs rs w w1" "e \<in> E" "e \<notin> all_nodes qs rs" "ops w e = None" "e \<in> dom (nodes w1)"
  obtains w2 where "free_node e w1 = Some w2" "emptied E qs rs w w2" "nodes w2 = (nodes w1)(e := None)" "ops w2 = ops w1"
proof -
  let ?w2 = "w1\<lparr>nodes := (nodes w1)(e := None)\<rparr>"
  have "map_of (concat (map qs rs)) e = None"
    using all_nodes_mem(3)[of qs rs] assms(3) by (auto simp: map_of_eq_None_iff simp del: set_concat)
  then have "ops w1 e = None" using assms(1,4) by (simp add: emptied_def drained_from_brk)
  then have "world_ok ?w2" using assms(1) by (auto simp: emptied_def world_ok_def)
  then have "emptied E qs rs w ?w2"
    using assms(2,3) by (intro emptied_nodes[OF assms(1)]) (auto simp: rest_def)
  then show thesis using assms(5) by (intro that[of ?w2]) (auto simp: free_node_def)
qed

subsection \<open>The interface of a member\<close>

text \<open>
  \<open>roots m\<close> are the roots of the waiting lists of \<open>m\<close> and \<open>ready m\<close> says that its internal mutex is free.  The
  law: \<open>shutdown\<close> empties the lists and changes neither the object nor anything else.
\<close>

locale service_client =
  fixes sd :: "'m \<Rightarrow> world \<Rightarrow> ('m \<times> world) option"
    and clear :: "'m \<Rightarrow> 'm"
    and roots :: "'m \<Rightarrow> addr list"
    and ready :: "'m \<Rightarrow> bool"
  assumes clear_keeps: "roots (clear m) = roots m" "ready (clear m) = ready m"
    and sd_ok: "ready m \<Longrightarrow> waits qs (roots m) w \<Longrightarrow>
      ok (sd m w) (\<lambda>(m', w'). m' = m \<and> emptied {} qs (roots m) w w')"
begin

definition table_roots :: "(addr \<rightharpoonup> 'm) \<Rightarrow> addr list \<Rightarrow> addr list" where
  "table_roots ms ns = concat (map (\<lambda>n. roots (the (ms n))) ns)"

definition table_ready :: "(addr \<rightharpoonup> 'm) \<Rightarrow> addr list \<Rightarrow> bool" where
  "table_ready ms ns \<longleftrightarrow> (\<forall>n \<in> set ns. \<exists>m. ms n = Some m \<and> ready m)"

definition cleared :: "(addr \<rightharpoonup> 'm) \<Rightarrow> addr list \<Rightarrow> (addr \<rightharpoonup> 'm)" where
  "cleared ms ns = (\<lambda>n. if n \<in> set ns then map_option clear (ms n) else ms n)"

lemma table_roots_upd: "n \<notin> set ns \<Longrightarrow> table_roots (ms(n \<mapsto> m)) ns = table_roots ms ns"
  unfolding table_roots_def by (intro arg_cong[where f = concat] map_cong) auto

text \<open>One round: a member is shut down and the local root moves on to \<open>y\<close>.\<close>

lemma service_shutdown_round:
  assumes "ready m" "waits qs (roots m @ rs) w" "S \<subseteq> dom (nodes w)" "e \<in> dom (nodes w)"
    and "insert e S \<inter> all_nodes qs (roots m @ rs) = {}"
  obtains w1 w2 where "sd (clear m) w = Some (clear m, w1)" "on_nodes (set_next e y) w1 = Some w2"
    "emptied {e} qs (roots m) w w2" "waits qs rs w2" "\<forall>x \<in> S - {e}. nodes w2 x = nodes w x" "e \<in> dom (nodes w2)"
proof -
  have "waits qs (roots (clear m)) w" using assms(2) by (auto simp: waits_def clear_keeps)
  with sd_ok[of "clear m" qs w] assms(1) obtain w1 where
    s: "sd (clear m) w = Some (clear m, w1)" "emptied {} qs (roots m) w w1"
    by (auto simp: clear_keeps elim!: okE)
  have same: "nodes w1 x = nodes w x" if "x \<in> insert e S" for x
  proof -
    have "x \<in> dom (nodes w)" "x \<notin> all_nodes qs (roots m)" using that assms(3-5) by auto
    then show ?thesis using s(2) by (auto simp: emptied_def untouched_def)
  qed
  define w2 where "w2 = w1\<lparr>nodes := (nodes w1)(e \<mapsto> (the (nodes w1 e))\<lparr>next_node := y\<rparr>)\<rparr>"
  have e1: "e \<in> dom (nodes w1)" using same[of e] assms(4) by auto
  then have "world_ok w2" using s(2) by (auto simp: w2_def emptied_def world_ok_def)
  then have E: "emptied {e} qs (roots m) w w2"
    using assms(5) by (intro emptied_nodes[OF emptied_mono[OF s(2)]]) (auto simp: w2_def rest_def)
  have "waits qs rs w2" by (rule waits_append[OF assms(2) E]) (use assms(5) in simp)
  moreover have "on_nodes (set_next e y) w1 = Some w2" using e1 by (auto simp: on_nodes_def set_next_def w2_def)
  moreover have "\<forall>x \<in> S - {e}. nodes w2 x = nodes w x" using same by (simp add: w2_def)
  moreover have "e \<in> dom (nodes w2)" by (simp add: w2_def)
  ultimately show thesis using that[of w1 w2] s(1) E by blast
qed

lemma service_shutdown_loop_ok:
  assumes "table_ready ms ns" "waits qs (table_roots ms ns) w" "distinct (ns @ [e])"
    and "successively (\<lambda>x y. get_next x (nodes w) = Some y) (ns @ [e])" "e \<in> dom (nodes w)"
    and "set ns \<subseteq> dom (nodes w)" "set (e # ns) \<inter> all_nodes qs (table_roots ms ns) = {}"
  shows "ok (service_shutdown_loop sd clear e (hd (ns @ [e])) ms w)
    (\<lambda>(ms', w'). ms' = cleared ms ns \<and> emptied {e} qs (table_roots ms ns) w w' \<and> e \<in> dom (nodes w'))"
  using assms
proof (induction ns arbitrary: ms w)
  case Nil
  then show ?case
    by (subst service_shutdown_loop.simps) (simp add: cleared_def table_roots_def emptied_Nil waits_def)
next
  case (Cons n ns)
  from Cons.prems(1) obtain m where m: "ms n = Some m" "ready m" by (auto simp: table_ready_def)
  have T: "table_roots ms (n # ns) = roots m @ table_roots ms ns" by (simp add: table_roots_def m(1))
  have n: "n \<noteq> e" "n \<notin> set ns" using Cons.prems(3) by auto
  have nx: "get_next n (nodes w) = Some (hd (ns @ [e]))"
    using Cons.prems(4) by (cases ns) auto
  have W: "waits qs (roots m @ table_roots ms ns) w" using Cons.prems(2) by (simp only: T)
  have D: "set (e # ns) \<inter> all_nodes qs (roots m) = {}" "set (e # ns) \<inter> all_nodes qs (table_roots ms ns) = {}"
    using Cons.prems(7) by (auto simp: T)
  have "set ns \<subseteq> dom (nodes w)" "insert e (set ns) \<inter> all_nodes qs (roots m @ table_roots ms ns) = {}"
    using Cons.prems(6) D by auto
  from service_shutdown_round[OF m(2) W this(1) Cons.prems(5) this(2), of "hd (ns @ [e])"] obtain w1 w2 where
    s: "sd (clear m) w = Some (clear m, w1)" "on_nodes (set_next e (hd (ns @ [e]))) w1 = Some w2"
    and E: "emptied {e} qs (roots m) w w2" and W2: "waits qs (table_roots ms ns) w2"
    and w2: "\<forall>x \<in> set ns - {e}. nodes w2 x = nodes w x" "e \<in> dom (nodes w2)" .
  have same2: "nodes w2 x = nodes w x" if "x \<in> set ns" for x using that w2(1) Cons.prems(3) by auto
  have chain: "successively (\<lambda>x y. get_next x (nodes w2) = Some y) (ns @ [e]) =
      successively (\<lambda>x y. get_next x (nodes w) = Some y) (ns @ [e])"
    by (rule successively_frame) (auto simp: get_next_def same2)
  have R: "table_roots (ms(n \<mapsto> clear m)) ns = table_roots ms ns" by (rule table_roots_upd[OF n(2)])
  have "ok (service_shutdown_loop sd clear e (hd (ns @ [e])) (ms(n \<mapsto> clear m)) w2)
    (\<lambda>(ms', w'). ms' = cleared (ms(n \<mapsto> clear m)) ns \<and>
       emptied {e} qs (table_roots (ms(n \<mapsto> clear m)) ns) w2 w' \<and> e \<in> dom (nodes w'))"
  proof (rule Cons.IH; (unfold R)?)
    show "table_ready (ms(n \<mapsto> clear m)) ns" using Cons.prems(1) n by (auto simp: table_ready_def)
    show "successively (\<lambda>x y. get_next x (nodes w2) = Some y) (ns @ [e])"
      unfolding chain using Cons.prems(4) by (cases ns) auto
    show "set ns \<subseteq> dom (nodes w2)" using same2 Cons.prems(6) by (auto simp: dom_def)
  qed (use W2 Cons.prems(3) D(2) w2(2) in auto)
  then obtain w3 where w3: "service_shutdown_loop sd clear e (hd (ns @ [e])) (ms(n \<mapsto> clear m)) w2 =
      Some (cleared (ms(n \<mapsto> clear m)) ns, w3)" "emptied {e} qs (table_roots ms ns) w2 w3" "e \<in> dom (nodes w3)"
    by (auto simp: R elim!: okE)
  have "cleared (ms(n \<mapsto> clear m)) ns = cleared ms (n # ns)" using m n by (auto simp: cleared_def)
  moreover have "emptied {e} qs (table_roots ms (n # ns)) w w3"
    unfolding T by (rule emptied_append[OF W E w3(2)]) (use D(1) in simp)
  ultimately show ?case
    using n nx m s w3(1,3) by (subst service_shutdown_loop.simps) simp
qed

text \<open>
  The whole shutdown: every queue of every registered member is empty afterwards, its operations have been shut
  down in the order of registration, the members have forgotten the service and the service has no members.
\<close>

lemma op_list_service_shutdown_ok:
  assumes "registered w svc ns" "table_ready ms ns" "waits qs (table_roots ms ns) w"
    and "set (entries svc # ns) \<inter> set (table_roots ms ns) = {}"
  shows "ok (op_list_service_shutdown sd clear svc ms w) (\<lambda>(ms', w'). ms' = cleared ms ns \<and>
    registered w' svc [] \<and> set ns \<subseteq> dom (nodes w') \<and>
    emptied (set (brk w # entries svc # ns)) qs (table_roots ms ns) w w')"
proof -
  let ?e = "brk w" and ?R = "table_roots ms ns" and ?N = "set (brk w # entries svc # ns)"
  note Q = roots_apart[OF assms(1,3,4)]
  have w: "world_ok w" and B: "is_bilist (nodes w) (entries svc) ns"
    using assms(1,3) by (simp_all add: waits_def registered_def)
  have live: "set (entries svc # ns) \<subseteq> dom (nodes w)" using is_bilist_dom[OF B] by simp
  have e: "?e \<notin> dom (nodes w)" "ops w ?e = None" using w by (auto simp: world_ok_def)
  then have eQ: "?e \<notin> all_nodes qs ?R" using Q(2) by blast
  from take_entries[OF w assms(1), of qs] obtain w1 where
    m: "holder_move_ctor (entries svc) w = Some (?e, w1)" and w1: "world_ok w1" "is_bilist (nodes w1) ?e ns"
      "is_bilist (nodes w1) (entries svc) []" "dom (nodes w1) = insert ?e (dom (nodes w))" "emptied ?N qs [] w w1" .
  have NQ: "?N \<inter> all_nodes qs ?R = {}" using Q(1) eQ by auto
  have "waits qs ?R w1" using waits_append[of qs "[]" ?R w ?N w1] assms(3) w1(5) NQ by auto
  then have "ok (service_shutdown_loop sd clear ?e (hd (ns @ [?e])) ms w1)
    (\<lambda>(ms', w'). ms' = cleared ms ns \<and> emptied {?e} qs ?R w1 w' \<and> ?e \<in> dom (nodes w'))"
  proof (rule service_shutdown_loop_ok[OF assms(2)])
    show "distinct (ns @ [?e])" using bl.repr_distinct[OF w1(2)] by auto
    show "successively (\<lambda>x y. get_next x (nodes w1) = Some y) (ns @ [?e])"
      using w1(2) by (cases ns) (auto simp: is_bilist_def link_def intro: successively_mono)
    show "set ns \<subseteq> dom (nodes w1)" using w1(4) live by auto
    show "set (?e # ns) \<inter> all_nodes qs ?R = {}" using NQ by auto
  qed (use w1(4) in simp)
  then obtain w2 where l: "service_shutdown_loop sd clear ?e (hd (ns @ [?e])) ms w1 = Some (cleared ms ns, w2)"
    and E2: "emptied {?e} qs ?R w1 w2" and d2: "?e \<in> dom (nodes w2)" by (auto elim!: okE)
  have "emptied ?N qs ?R w w2" using emptied_append[of qs "[]" ?R w ?N w1 w2] emptied_mono[OF E2] assms(3) w1(5) by simp
  from drop_root[OF this _ eQ e(2) d2] obtain w3 where
    w3: "free_node ?e w2 = Some w3" "emptied ?N qs ?R w w3" "nodes w3 = (nodes w2)(?e := None)" "ops w3 = ops w2" by auto
  have k: "nodes w3 x = nodes w1 x \<and> ops w3 x = None \<and> x \<in> dom (nodes w1)" if x: "x \<in> set (entries svc # ns)" for x
  proof -
    have "x \<in> dom (nodes w1)" "x \<noteq> ?e" "x \<notin> {?e} \<union> all_nodes qs ?R" "ops w1 x = None"
      using x w1(4,5) live e(1) Q(1) assms(1) by (auto simp: registered_def emptied_def drained_from_brk)
    then show ?thesis using E2 w3(3,4) by (auto simp: emptied_def untouched_def)
  qed
  have "is_bilist (nodes w3) (entries svc) []" by (rule is_bilist_frameI[OF w1(3)]) (use k in simp)
  then have "registered w3 svc []" using assms(1) k by (simp add: registered_def)
  moreover have "set ns \<subseteq> dom (nodes w3)" using k by (fastforce simp: dom_def)
  ultimately show ?thesis using w3(1,2) m l is_bilist_next[OF w1(2)]
    by (auto simp: op_list_service_shutdown_def)
qed

end

end
