(* ===== verification/Context_Shutdown.thy ===== *)
theory Context_Shutdown
  imports Mutex_Props Semaphore_Props Shared_Mutex_Props Barrier_Props Condition_Variable_Props Service_Shutdown
begin

section \<open>Shutdown of an execution context with primitives of every kind\<close>

text \<open>
  The five primitives behind the base class \<open>service_member\<close>.  \<open>op_list_service::shutdown\<close> reaches them by
  its two accesses only: the pointer \<open>service\<close> and the virtual \<open>shutdown\<close>, which are dispatched here.
\<close>

datatype member =
    Mutex_member mutex_impl
  | Semaphore_member semaphore_impl
  | Shared_mutex_member shared_mutex_impl
  | Barrier_member barrier_impl
  | Condition_variable_member condition_variable_impl

fun member_shutdown :: "member \<Rightarrow> world \<Rightarrow> (member \<times> world) option" where
  "member_shutdown (Mutex_member m) w =
     do { (m, w) \<leftarrow> mutex_impl_shutdown m w; Some (Mutex_member m, w) }"
| "member_shutdown (Semaphore_member m) w =
     do { (m, w) \<leftarrow> semaphore_impl_shutdown m w; Some (Semaphore_member m, w) }"
| "member_shutdown (Shared_mutex_member m) w =
     do { (m, w) \<leftarrow> shared_mutex_impl_shutdown m w; Some (Shared_mutex_member m, w) }"
| "member_shutdown (Barrier_member m) w =
     do { (m, w) \<leftarrow> barrier_impl_shutdown m w; Some (Barrier_member m, w) }"
| "member_shutdown (Condition_variable_member m) w =
     do { (m, w) \<leftarrow> condition_variable_impl_shutdown m w; Some (Condition_variable_member m, w) }"

fun forget_service :: "member \<Rightarrow> member" where
  "forget_service (Mutex_member m) = Mutex_member (m\<lparr>service := None\<rparr>)"
| "forget_service (Semaphore_member m) = Semaphore_member (m\<lparr>service := None\<rparr>)"
| "forget_service (Shared_mutex_member m) = Shared_mutex_member (m\<lparr>service := None\<rparr>)"
| "forget_service (Barrier_member m) = Barrier_member (m\<lparr>service := None\<rparr>)"
| "forget_service (Condition_variable_member m) = Condition_variable_member (m\<lparr>service := None\<rparr>)"

fun member_roots :: "member \<Rightarrow> addr list" where
  "member_roots (Mutex_member m) = [waiters m]"
| "member_roots (Semaphore_member m) = [sem_waiters m]"
| "member_roots (Shared_mutex_member m) = [waiters m, shared_waiters m]"
| "member_roots (Barrier_member m) = [bar_waiters m]"
| "member_roots (Condition_variable_member m) = [cv_waiters m]"

fun member_idle :: "member \<Rightarrow> bool" where
  "member_idle (Mutex_member m) = idle (mtx m)"
| "member_idle (Semaphore_member m) = idle (mtx m)"
| "member_idle (Shared_mutex_member m) = idle (mtx m)"
| "member_idle (Barrier_member m) = idle (mtx m)"
| "member_idle (Condition_variable_member m) = idle (mtx m)"

definition context_shutdown :: "op_list_service \<Rightarrow> (addr \<rightharpoonup> member) \<Rightarrow> world \<Rightarrow> ((addr \<rightharpoonup> member) \<times> world) option" where
  "context_shutdown = op_list_service_shutdown member_shutdown forget_service"

subsection \<open>Every primitive obeys the law of a member\<close>

lemma one_queue_shutdown:
  assumes "waits qs [r] w"
  obtains l w1 w2 w3 where "holder_move_ctor r w = Some (l, w1)" "holder_shutdown l w1 = Some w2"
    "holder_dtor l w2 = Some w3" "emptied {} qs [r] w w3"
proof -
  have "world_ok w" "pending w r (qs r)" using assms by (simp_all add: waits_def)
  from move_shutdown[OF this] that show thesis by (metis emptied_one)
qed

lemma empty_holder_dtor:
  assumes "world_ok w" "pending w l []"
  obtains w' where "holder_dtor l w = Some w'" "world_ok w'" "rest w' = rest w" "untouched {l} w w'"
proof -
  from holder_dtor_ok[OF assms] obtain w' where "holder_dtor l w = Some w'" "world_ok w'"
    "drained (signals operation_aborted) operation_aborted [] w w'" "untouched {l} w w'"
    by (auto elim!: okE)
  then show thesis by (intro that[of w']) (auto simp: drained_def rest_eq_iff)
qed

text \<open>The shared mutex moves both lists into local holders before it empties them.\<close>

lemma move_two_queues:
  assumes "waits qs [r, r'] w"
  obtains l s w1 w2 where "holder_move_ctor r w = Some (l, w1)" "holder_move_ctor r' w1 = Some (s, w2)"
    "world_ok w2" "distinct [l, s, r, r']" "pending w2 l (qs r)" "pending w2 s (qs r')" "pending w2 r []" "pending w2 r' []"
    "ops w2 = ops w" "slots w2 = slots w" "trace w2 = trace w" "l \<notin> dom (nodes w)" "s \<notin> dom (nodes w)"
    "untouched (all_nodes qs [r, r']) w w2"
proof -
  let ?q = "qs r" and ?q' = "qs r'"
  have P: "world_ok w" "pending w r ?q" "pending w r' ?q'" "r \<noteq> r'" using assms by (simp_all add: waits_def)
  from holder_move_ctor_ok[OF P(1,2)] obtain l w1 where
    w1: "holder_move_ctor r w = Some (l, w1)" "world_ok w1" "pending w1 l ?q" "pending w1 r []"
      "ops w1 = ops w" "slots w1 = slots w" "trace w1 = trace w" "l \<notin> dom (nodes w)" "untouched (queue_nodes r ?q) w w1"
    by (auto elim!: okE)
  have p1: "pending w1 r' ?q'" by (rule pending_other[OF P(2-4) w1(9)])
  from holder_move_ctor_ok[OF w1(2) p1] obtain s w2 where
    w2: "holder_move_ctor r' w1 = Some (s, w2)" "world_ok w2" "pending w2 s ?q'" "pending w2 r' []"
      "ops w2 = ops w1" "slots w2 = slots w1" "trace w2 = trace w1" "s \<notin> dom (nodes w1)" "untouched (queue_nodes r' ?q') w1 w2"
    by (auto elim!: okE)
  have l: "l \<noteq> r" "l \<noteq> r'" using w1(8) pending_live[OF P(2)] pending_live[OF P(3)] by auto
  have s: "s \<noteq> l" "s \<noteq> r" "s \<noteq> r'"
    using w2(8) pending_live[OF w1(3)] pending_live[OF w1(4)] pending_live[OF p1] by auto
  have p2: "pending w2 l ?q" "pending w2 r []"
    using pending_other[OF p1 w1(3) _ w2(9)] pending_other[OF p1 w1(4) _ w2(9)] l P(4) by auto
  have n: "s \<notin> dom (nodes w)"
  proof
    assume sd: "s \<in> dom (nodes w)"
    have "s \<notin> queue_nodes r ?q" using w2(8) pending_live[OF w1(3)] pending_live[OF w1(4)] by auto
    with sd w1(9) have "nodes w1 s = nodes w s" unfolding untouched_def by blast
    with sd w2(8) show False by (simp add: dom_def)
  qed
  have "untouched (all_nodes qs [r, r']) w w1" using w1(9) by (rule untouched_mono) (auto simp: all_nodes_def)
  from untouched_trans[OF this w2(9)] have "untouched (all_nodes qs [r, r']) w w2" by (auto simp: all_nodes_def)
  with w1(1,5-8) w2(1-7) p2 l s n P(4) show thesis by (intro that[of l w1 s w2]) auto
qed

lemma shutdown_two_holders:
  assumes "world_ok w" "pending w l q" "pending w s q'" "l \<noteq> s"
  obtains w1 w2 w3 w4 where "holder_shutdown l w = Some w1" "holder_shutdown s w1 = Some w2"
    "holder_dtor s w2 = Some w3" "holder_dtor l w3 = Some w4" "world_ok w4"
    "\<And>r p. pending w r p \<Longrightarrow> r \<notin> {l, s} \<Longrightarrow> pending w4 r p"
    "drained shutdown_signals shut_down (q @ q') (w\<lparr>brk := brk w4\<rparr>) w4" "untouched (queue_nodes l q \<union> queue_nodes s q') w w4"
proof -
  from holder_shutdown_ok[OF assms(1,2)] obtain w1 where
    w1: "holder_shutdown l w = Some w1" "world_ok w1" "pending w1 l []"
      "drained shutdown_signals shut_down q (w\<lparr>brk := brk w1\<rparr>) w1" "untouched (queue_nodes l q) w w1"
    by (auto simp: drained_from_brk elim!: okE)
  note o1 = pending_other[OF assms(2) _ _ w1(5)]
  have p1: "pending w1 s q'" using o1[OF assms(3)] assms(4) by simp
  from holder_shutdown_ok[OF w1(2) p1] obtain w2 where
    w2: "holder_shutdown s w1 = Some w2" "world_ok w2" "pending w2 s []"
      "drained shutdown_signals shut_down q' (w1\<lparr>brk := brk w2\<rparr>) w2" "untouched (queue_nodes s q') w1 w2"
    by (auto simp: drained_from_brk elim!: okE)
  note o2 = pending_other[OF p1 _ _ w2(5)]
  from empty_holder_dtor[OF w2(2,3)] obtain w3 where
    w3: "holder_dtor s w2 = Some w3" "world_ok w3" "rest w3 = rest w2" "untouched {s} w2 w3" .
  note o3 = pending_other[OF w2(3), simplified, OF _ _ w3(4)]
  have p3: "pending w3 l []" using o3[OF o2[OF w1(3)]] assms(4) by simp
  from empty_holder_dtor[OF w3(2) p3] obtain w4 where
    w4: "holder_dtor l w3 = Some w4" "world_ok w4" "rest w4 = rest w3" "untouched {l} w3 w4" .
  note o4 = pending_other[OF p3, simplified, OF _ _ w4(4)]
  have "pending w4 r p" if "pending w r p" "r \<notin> {l, s}" for r p
    using that o4[OF o3[OF o2[OF o1[OF that(1)]]]] by auto
  moreover have "fst ` set q \<inter> fst ` set q' = {}" using pending_disjoint[OF assms(2-4)] by auto
  from drained_append[OF w1(4) w2(4) this]
  have "drained shutdown_signals shut_down (q @ q') (w\<lparr>brk := brk w4\<rparr>) w4"
    using w3(3) w4(3) by (simp add: drained_from_brk rest_eq_iff)
  moreover have "untouched (queue_nodes l q \<union> queue_nodes s q') w w1" using w1(5) by (rule untouched_mono) auto
  from untouched_trans[OF untouched_trans[OF untouched_trans[OF this w2(5)] w3(4)] w4(4)]
  have "untouched (queue_nodes l q \<union> queue_nodes s q') w w4" by auto
  ultimately show thesis by (rule that[OF w1(1) w2(1) w3(1) w4(1,2)])
qed

lemma two_queues_shutdown:
  assumes "waits qs [r, r'] w"
  obtains l s w1 w2 w3 w4 w5 w6 where "holder_move_ctor r w = Some (l, w1)" "holder_move_ctor r' w1 = Some (s, w2)"
    "holder_shutdown l w2 = Some w3" "holder_shutdown s w3 = Some w4"
    "holder_dtor s w4 = Some w5" "holder_dtor l w5 = Some w6" "emptied {} qs [r, r'] w w6"
proof -
  from move_two_queues[OF assms] obtain l s w1 w2 where
    m: "holder_move_ctor r w = Some (l, w1)" "holder_move_ctor r' w1 = Some (s, w2)"
    and w2: "world_ok w2" "distinct [l, s, r, r']" "pending w2 l (qs r)" "pending w2 s (qs r')" "pending w2 r []" "pending w2 r' []"
      "ops w2 = ops w" "slots w2 = slots w" "trace w2 = trace w" "l \<notin> dom (nodes w)" "s \<notin> dom (nodes w)"
      "untouched (all_nodes qs [r, r']) w w2" .
  from w2(2) have "l \<noteq> s" by simp
  from shutdown_two_holders[OF w2(1,3,4) this] obtain w3 w4 w5 w6 where
    d: "holder_shutdown l w2 = Some w3" "holder_shutdown s w3 = Some w4" "holder_dtor s w4 = Some w5" "holder_dtor l w5 = Some w6"
    and w6: "world_ok w6" "\<And>r p. pending w2 r p \<Longrightarrow> r \<notin> {l, s} \<Longrightarrow> pending w6 r p"
      "drained shutdown_signals shut_down (qs r @ qs r') (w2\<lparr>brk := brk w6\<rparr>) w6"
      "untouched (queue_nodes l (qs r) \<union> queue_nodes s (qs r')) w2 w6" by metis
  have "rest (w2\<lparr>brk := brk w6\<rparr>) = rest (w\<lparr>brk := brk w6\<rparr>)" using w2(7-9) by (simp add: rest_eq_iff)
  with w6(3) have "drained shutdown_signals shut_down (qs r @ qs r') (w\<lparr>brk := brk w6\<rparr>) w6"
    using drained_start by blast
  moreover have "untouched (all_nodes qs [r, r']) w w6"
    by (rule untouched_trans[OF w2(12) w6(4)]) (use w2(10,11) in \<open>auto simp: all_nodes_def\<close>)
  moreover have "pending w6 r []" "pending w6 r' []" using w6(2)[OF w2(5)] w6(2)[OF w2(6)] w2(2) by auto
  ultimately have "emptied {} qs [r, r'] w w6" using w6(1) by (simp add: emptied_def)
  with m d show thesis by (rule that)
qed

interpretation member_client: service_client member_shutdown forget_service member_roots member_idle
proof
  fix m qs w
  show "member_roots (forget_service m) = member_roots m" "member_idle (forget_service m) = member_idle m"
    by (cases m; simp)+
  assume I: "member_idle m" and W: "waits qs (member_roots m) w"
  show "ok (member_shutdown m w) (\<lambda>(m', w'). m' = m \<and> emptied {} qs (member_roots m) w w')"
  proof (cases m)
    case (Mutex_member x)
    then have "waits qs [waiters x] w" using W by simp
    from one_queue_shutdown[OF this] obtain l w1 w2 w3 where
      "holder_move_ctor (waiters x) w = Some (l, w1)" "holder_shutdown l w1 = Some w2" "holder_dtor l w2 = Some w3"
      "emptied {} qs [waiters x] w w3" .
    with Mutex_member I show ?thesis by (simp add: mutex_impl_shutdown_def scoped_def)
  next
    case (Semaphore_member x)
    then have "waits qs [sem_waiters x] w" using W by simp
    from one_queue_shutdown[OF this] obtain l w1 w2 w3 where
      "holder_move_ctor (sem_waiters x) w = Some (l, w1)" "holder_shutdown l w1 = Some w2" "holder_dtor l w2 = Some w3"
      "emptied {} qs [sem_waiters x] w w3" .
    with Semaphore_member I show ?thesis by (simp add: semaphore_impl_shutdown_def scoped_def)
  next
    case (Shared_mutex_member x)
    then have "waits qs [waiters x, shared_waiters x] w" using W by simp
    from two_queues_shutdown[OF this] obtain l s w1 w2 w3 w4 w5 w6 where
      "holder_move_ctor (waiters x) w = Some (l, w1)" "holder_move_ctor (shared_waiters x) w1 = Some (s, w2)"
      "holder_shutdown l w2 = Some w3" "holder_shutdown s w3 = Some w4" "holder_dtor s w4 = Some w5"
      "holder_dtor l w5 = Some w6" "emptied {} qs [waiters x, shared_waiters x] w w6" .
    with Shared_mutex_member I show ?thesis by (simp add: shared_mutex_impl_shutdown_def scoped_def)
  next
    case (Barrier_member x)
    then have "waits qs [bar_waiters x] w" using W by simp
    from one_queue_shutdown[OF this] obtain l w1 w2 w3 where
      "holder_move_ctor (bar_waiters x) w = Some (l, w1)" "holder_shutdown l w1 = Some w2" "holder_dtor l w2 = Some w3"
      "emptied {} qs [bar_waiters x] w w3" .
    with Barrier_member I show ?thesis by (simp add: barrier_impl_shutdown_def scoped_def)
  next
    case (Condition_variable_member x)
    then have "waits qs [cv_waiters x] w" using W by simp
    from one_queue_shutdown[OF this] obtain l w1 w2 w3 where
      "holder_move_ctor (cv_waiters x) w = Some (l, w1)" "holder_shutdown l w1 = Some w2" "holder_dtor l w2 = Some w3"
      "emptied {} qs [cv_waiters x] w w3" .
    with Condition_variable_member I show ?thesis
      by (simp add: condition_variable_impl_shutdown_def scoped_def predicate_holder_shutdown_eq predicate_holder_dtor_eq)
  qed
qed

subsection \<open>The end of a member\<close>

text \<open>The implicitly called destructors; a member that has forgotten its service leaves the service alone.\<close>

fun member_node :: "member \<Rightarrow> addr" where
  "member_node (Mutex_member m) = sm_node m"
| "member_node (Semaphore_member m) = sm_node m"
| "member_node (Shared_mutex_member m) = sm_node m"
| "member_node (Barrier_member m) = sm_node m"
| "member_node (Condition_variable_member m) = sm_node m"

fun member_dtor :: "member \<Rightarrow> op_list_service \<Rightarrow> world \<Rightarrow> (op_list_service \<times> world) option" where
  "member_dtor (Mutex_member m) svc w = mutex_impl_dtor m svc w"
| "member_dtor (Semaphore_member m) svc w = semaphore_impl_dtor m svc w"
| "member_dtor (Shared_mutex_member m) svc w = shared_mutex_impl_dtor m svc w"
| "member_dtor (Barrier_member m) svc w = barrier_impl_dtor m svc w"
| "member_dtor (Condition_variable_member m) svc w = condition_variable_impl_dtor m svc w"

fun destroy_members :: "member list \<Rightarrow> op_list_service \<Rightarrow> world \<Rightarrow> (op_list_service \<times> world) option" where
  "destroy_members [] svc w = Some (svc, w)"
| "destroy_members (m # ms) svc w = do {
     (svc, w) \<leftarrow> member_dtor m svc w;
     destroy_members ms svc w }"

definition released :: "addr set \<Rightarrow> world \<Rightarrow> world" where
  "released S w = w\<lparr>nodes := nodes w |` (- S)\<rparr>"

lemma released_released [simp]: "released T (released S w) = released (S \<union> T) w"
  by (simp add: released_def Int_commute)

lemma nodes_released [simp]: "nodes (released S w) x = (if x \<in> S then None else nodes w x)"
  by (simp add: released_def)

lemma empty_holder_released:
  assumes "get_next r (nodes w) = Some r"
  shows "holder_dtor r w = Some (released {r} w)"
proof -
  have "nodes w r \<noteq> None" using assms by (auto simp: get_next_def)
  with assms show ?thesis
    by (subst holder_dtor_def, subst drain.simps) (auto simp: free_node_def released_def restrict_complement_singleton_eq)
qed

lemma forgotten_member_released:
  assumes "service m = None" "idle (mtx m)" "nodes w (sm_node m) \<noteq> None"
  shows "service_member_dtor m svc w = Some (svc, released {sm_node m} w)"
  using assms by (auto simp: service_member_dtor_def free_node_def released_def restrict_complement_singleton_eq)

lemma member_dtor_released:
  assumes "member_idle m" "\<forall>r \<in> set (member_roots m). get_next r (nodes w) = Some r"
    and "distinct (member_node m # member_roots m)" "nodes w (member_node m) \<noteq> None"
  shows "member_dtor (forget_service m) svc w = Some (svc, released (set (member_node m # member_roots m)) w)"
  using assms
  by (cases m)
    (auto simp: mutex_impl_dtor_def semaphore_impl_dtor_def shared_mutex_impl_dtor_def barrier_impl_dtor_def
      condition_variable_impl_dtor_def predicate_holder_dtor_eq empty_holder_released forgotten_member_released
      get_next_def insert_commute)

lemma destroy_members_released:
  assumes "\<forall>m \<in> set ms. member_idle m \<and> nodes w (member_node m) \<noteq> None"
    and "\<forall>m \<in> set ms. \<forall>r \<in> set (member_roots m). get_next r (nodes w) = Some r"
    and "distinct (concat (map (\<lambda>m. member_node m # member_roots m) ms))"
  shows "destroy_members (map forget_service ms) svc w =
    Some (svc, released (set (concat (map (\<lambda>m. member_node m # member_roots m) ms))) w)"
  using assms
proof (induction ms arbitrary: w)
  case (Cons m ms)
  let ?S = "set (member_node m # member_roots m)"
  have d: "member_dtor (forget_service m) svc w = Some (svc, released ?S w)"
    using Cons.prems by (intro member_dtor_released) auto
  have away: "x \<notin> ?S" if "m' \<in> set ms" "x \<in> set (member_node m' # member_roots m')" for m' x
    using that Cons.prems(3) by auto
  have "destroy_members (map forget_service ms) svc (released ?S w) =
      Some (svc, released (set (concat (map (\<lambda>m. member_node m # member_roots m) ms))) (released ?S w))"
  proof (rule Cons.IH)
    show "\<forall>m \<in> set ms. member_idle m \<and> nodes (released ?S w) (member_node m) \<noteq> None"
      using Cons.prems(1) away by simp
    show "\<forall>m \<in> set ms. \<forall>r \<in> set (member_roots m). get_next r (nodes (released ?S w)) = Some r"
      using Cons.prems(2) away by (simp add: get_next_def)
  qed (use Cons.prems(3) in simp)
  with d show ?case by (simp add: Un_commute insert_commute Un_assoc)
qed (simp add: released_def restrict_map_def)

subsection \<open>Properties\<close>

text \<open>
  A table of live members: the addresses \<open>ns\<close>, in the order of registration, and the roots of all their queues.
\<close>

definition live_members :: "world \<Rightarrow> op_list_service \<Rightarrow> (addr \<rightharpoonup> member) \<Rightarrow> addr list \<Rightarrow> bool" where
  "live_members w svc ms ns \<longleftrightarrow> world_ok w \<and> registered w svc ns \<and>
     (\<forall>n \<in> set ns. \<exists>m. ms n = Some m \<and> member_node m = n \<and> member_idle m)"

definition all_roots :: "(addr \<rightharpoonup> member) \<Rightarrow> addr list \<Rightarrow> addr list" where
  "all_roots ms ns = concat (map (\<lambda>n. member_roots (the (ms n))) ns)"

lemma context_shutdown_ok:
  assumes "live_members w svc ms ns" "distinct (entries svc # ns @ all_roots ms ns)"
    and "\<forall>r \<in> set (all_roots ms ns). pending w r (qs r)"
  shows "ok (context_shutdown svc ms w) (\<lambda>(ms', w'). (\<forall>n \<in> set ns. ms' n = map_option forget_service (ms n)) \<and>
    registered w' svc [] \<and> set ns \<subseteq> dom (nodes w') \<and>
    emptied (set (brk w # entries svc # ns)) qs (all_roots ms ns) w w')"
proof -
  have R: "member_client.table_roots ms ns = all_roots ms ns"
    by (simp add: member_client.table_roots_def all_roots_def)
  have "ok (context_shutdown svc ms w) (\<lambda>(ms', w'). ms' = member_client.cleared ms ns \<and>
    registered w' svc [] \<and> set ns \<subseteq> dom (nodes w') \<and>
    emptied (set (brk w # entries svc # ns)) qs (all_roots ms ns) w w')"
    unfolding context_shutdown_def R[symmetric]
    by (rule member_client.op_list_service_shutdown_ok)
      (use assms in \<open>auto simp: R waits_def live_members_def member_client.table_ready_def\<close>)
  then show ?thesis by (rule ok_conseq) (auto simp: member_client.cleared_def)
qed

text \<open>The operations that a blocked thread waits with.\<close>

fun blocking :: "addr \<times> wait_op \<Rightarrow> bool" where
  "blocking (a, Basic_op m) = False"
| "blocking (a, Predicate_op m) = False"
| "blocking (a, Lock_op s) = True"
| "blocking (a, Acquire_op s) = True"
| "blocking (a, Arrive_op s) = True"

lemma shutdown_signals_blocking:
  "concat (map (\<lambda>(a, x). shutdown_signals a x) q) = map (\<lambda>p. Wake (fst p) shut_down) (filter blocking q)"
proof (induction q)
  case (Cons p q)
  obtain a x where "p = (a, x)" by force
  with Cons show ?case by (cases x) auto
qed simp

lemma emptied_ops:
  assumes "emptied E qs rs w w'" "\<forall>r \<in> set rs. pending w r (qs r)" "r \<in> set rs" "(a, x) \<in> set (qs r)"
  shows "ops w' a = finished shut_down x"
proof -
  have "(a, x) \<in> set (concat (map qs rs))" using assms(3,4) by auto
  from weak_map_of_SomeI[OF this] obtain y where y: "map_of (concat (map qs rs)) a = Some y" by blast
  then obtain r' where "r' \<in> set rs" "(a, y) \<in> set (qs r')" by (auto dest!: map_of_SomeD)
  then have "ops w a = Some y" using assms(2) by (auto simp: pending_def)
  moreover have "ops w a = Some x" using assms(2-4) by (auto simp: pending_def)
  ultimately have "y = x" by simp
  with y assms(1) show ?thesis by (simp add: emptied_def drained_from_brk)
qed

text \<open>
  An example: a mutex with an asynchronous and a blocked request, and a condition variable with one waiter,
  registered with the same service.
\<close>

definition system_world :: world where
  "system_world = \<lparr>nodes = [0 \<mapsto> \<lparr>next_node = 1, prev_node = 5\<rparr>, 1 \<mapsto> \<lparr>next_node = 5, prev_node = 0\<rparr>,
       5 \<mapsto> \<lparr>next_node = 0, prev_node = 1\<rparr>,
       2 \<mapsto> \<lparr>next_node = 3, prev_node = 4\<rparr>, 3 \<mapsto> \<lparr>next_node = 4, prev_node = 2\<rparr>,
       4 \<mapsto> \<lparr>next_node = 2, prev_node = 3\<rparr>,
       6 \<mapsto> \<lparr>next_node = 7, prev_node = 7\<rparr>, 7 \<mapsto> \<lparr>next_node = 6, prev_node = 6\<rparr>],
     ops = [3 \<mapsto> Basic_op \<lparr>work_guard = 7, op_handler = some_handler 1\<rparr>,
            4 \<mapsto> Lock_op \<lparr>op_ec = success, op_done = False\<rparr>, 7 \<mapsto> some_wait 2 true_predicate],
     slots = [1 \<mapsto> 3, 2 \<mapsto> 7], trace = [], brk = 8\<rparr>"

definition system_members :: "addr \<rightharpoonup> member" where
  "system_members = [1 \<mapsto> Mutex_member (bm_impl held_mutex),
     5 \<mapsto> Condition_variable_member \<lparr>sm_node = 5, service = Some 0, mtx = cem_ctor True, cv_waiters = 6\<rparr>]"

definition system_queues :: "addr \<Rightarrow> (addr \<times> wait_op) list" where
  "system_queues = (\<lambda>r. [])(2 := busy_queue, 6 := [(7, some_wait 2 true_predicate)])"

lemma system_roots: "all_roots system_members [Suc 0, 5] = [2, 6]"
  by (simp add: all_roots_def system_members_def held_mutex_def some_mutex_def)

lemma system_live: "live_members system_world start_service system_members [1, 5]"
proof -
  have e: "entries start_service = 0" "idle (svc_mtx start_service)" by (simp_all add: sam_eval idle_def)
  have "world_ok system_world"
    by (auto simp: world_ok_def system_world_def some_handler_def split: if_splits)
  moreover have "registered system_world start_service [1, 5]"
    by (simp add: registered_def e is_bilist_def link_def heap_access system_world_def)
  ultimately show ?thesis
    by (simp add: live_members_def system_members_def held_mutex_def some_mutex_def)
qed

lemma system_waits:
  "distinct (entries start_service # [1, 5] @ all_roots system_members [1, 5])"
  "\<forall>r \<in> set (all_roots system_members [1, 5]). pending system_world r (system_queues r)"
proof -
  have e: "entries start_service = 0" by (simp add: sam_eval)
  show "distinct (entries start_service # [1, 5] @ all_roots system_members [1, 5])"
    by (simp add: e system_roots)
  show "\<forall>r \<in> set (all_roots system_members [1, 5]). pending system_world r (system_queues r)"
    by (simp add: system_roots system_queues_def pending_def is_bilist_def link_def heap_access system_world_def)
qed

text \<open>
  C5: Shutting an execution context down empties every waiting list of every primitive registered with it.  No
  handler is posted or dispatched: asynchronous operations are destroyed, exactly the blocked threads wake up, in
  order and with \<open>shut_down\<close>, and the primitives forget the service.
\<close>

theorem context_shutdown_drops_everything:
  assumes "live_members w svc ms ns" "distinct (entries svc # ns @ all_roots ms ns)"
    and "\<forall>r \<in> set (all_roots ms ns). pending w r (qs r)"
  shows "ok (context_shutdown svc ms w) (\<lambda>(ms', w').
    (\<forall>n \<in> set ns. ms' n = map_option forget_service (ms n)) \<and> registered w' svc [] \<and>
    (\<forall>r \<in> set (all_roots ms ns). pending w' r [] \<and> (\<forall>(a, x) \<in> set (qs r). ops w' a = finished shut_down x)) \<and>
    trace w' = trace w @ map (\<lambda>p. Wake (fst p) shut_down) (filter blocking (concat (map qs (all_roots ms ns)))))"
proof (rule ok_conseq[OF context_shutdown_ok[OF assms]], clarify)
  fix ms' w'
  assume e: "emptied (set (brk w # entries svc # ns)) qs (all_roots ms ns) w w'"
  then have "trace w' = trace w @ map (\<lambda>p. Wake (fst p) shut_down) (filter blocking (concat (map qs (all_roots ms ns))))"
    unfolding shutdown_signals_blocking[symmetric] by (simp add: emptied_def drained_from_brk)
  moreover have "\<forall>r \<in> set (all_roots ms ns). pending w' r []" using e by (simp add: emptied_def)
  ultimately show "(\<forall>r \<in> set (all_roots ms ns). pending w' r [] \<and> (\<forall>(a, x) \<in> set (qs r). ops w' a = finished shut_down x)) \<and>
    trace w' = trace w @ map (\<lambda>p. Wake (fst p) shut_down) (filter blocking (concat (map qs (all_roots ms ns))))"
    using emptied_ops[OF e assms(3)] by blast
qed

theorem context_shutdown_drops_everything_witness:
  "ok (context_shutdown start_service system_members system_world) (\<lambda>(ms', w').
     trace w' = [Wake 4 shut_down] \<and> pending w' 2 [] \<and> pending w' 6 [] \<and> ops w' 3 = None \<and> ops w' 7 = None)"
  using context_shutdown_drops_everything[OF system_live system_waits]
  by (elim ok_conseq) (auto simp: system_roots system_queues_def system_world_def)

text \<open>
  C20: End of life.  After the shutdown of their context the primitives can be destroyed, in the order of
  registration: every destructor returns, tells nobody anything, does not touch the service, and nothing of the
  primitives is left on the heap.  This is about the objects; nothing is said of blocked calls that the
  shutdown woke and that have not returned.
\<close>

theorem context_shutdown_then_destruction:
  assumes "live_members w svc ms ns" "distinct (entries svc # ns @ all_roots ms ns)"
    and "\<forall>r \<in> set (all_roots ms ns). pending w r (qs r)"
  shows "ok (do {
      (ms', w1) \<leftarrow> context_shutdown svc ms w;
      (svc', w2) \<leftarrow> destroy_members (map (\<lambda>n. the (ms' n)) ns) svc w1;
      Some (svc', w1, w2) })
    (\<lambda>(svc', w1, w2). svc' = svc \<and> w2 = w1\<lparr>nodes := nodes w1 |` (- (set ns \<union> set (all_roots ms ns)))\<rparr>)"
proof -
  from context_shutdown_ok[OF assms] obtain ms' w1 where
    c: "context_shutdown svc ms w = Some (ms', w1)" and m: "\<forall>n \<in> set ns. ms' n = map_option forget_service (ms n)"
    and n: "set ns \<subseteq> dom (nodes w1)" and e: "emptied (set (brk w # entries svc # ns)) qs (all_roots ms ns) w w1"
    by (auto elim!: okE)
  let ?ms = "map (\<lambda>n. the (ms n)) ns"
  have M: "member_idle (the (ms a))" "member_node (the (ms a)) = a" "the (ms' a) = forget_service (the (ms a))"
    if "a \<in> set ns" for a
    using that assms(1) m by (force simp: live_members_def)+
  have nodes_of: "map member_node ?ms = ns" using M(2) by (simp add: map_idI)
  have S: "set (concat (map (\<lambda>m. member_node m # member_roots m) ?ms)) = set ns \<union> set (all_roots ms ns)"
    using M(2) by (auto simp: all_roots_def)
  have "destroy_members (map forget_service ?ms) svc w1 =
      Some (svc, released (set (concat (map (\<lambda>m. member_node m # member_roots m) ?ms))) w1)"
  proof (rule destroy_members_released)
    show "\<forall>m \<in> set ?ms. member_idle m \<and> nodes w1 (member_node m) \<noteq> None" using M n by auto
    show "\<forall>m \<in> set ?ms. \<forall>r \<in> set (member_roots m). get_next r (nodes w1) = Some r"
      using e by (auto simp: emptied_def all_roots_def pending_empty)
    have "distinct (map member_node ?ms @ concat (map member_roots ?ms))"
      unfolding nodes_of using assms(2) by (simp add: all_roots_def comp_def)
    then show "distinct (concat (map (\<lambda>m. member_node m # member_roots m) ?ms))" by (rule distinct_interleave)
  qed
  moreover have "map (\<lambda>n. the (ms' n)) ns = map forget_service ?ms" using M(3) by simp
  ultimately have "destroy_members (map (\<lambda>n. the (ms' n)) ns) svc w1 =
      Some (svc, released (set ns \<union> set (all_roots ms ns)) w1)" by (simp only: S)
  with c show ?thesis by (simp add: released_def)
qed

theorem context_shutdown_then_destruction_witness:
  "ok (do {
      (ms', w1) \<leftarrow> context_shutdown start_service system_members system_world;
      (svc', w2) \<leftarrow> destroy_members (map (\<lambda>n. the (ms' n)) [1, 5]) start_service w1;
      Some (svc', w1, w2) })
    (\<lambda>(svc', w1, w2). svc' = start_service \<and> (\<forall>n \<in> {1, 2, 5, 6}. nodes w2 n = None) \<and> trace w2 = trace w1)"
  using context_shutdown_then_destruction[OF system_live system_waits]
  by (elim ok_conseq) (auto simp: system_roots)

end
