(* ===== verification/Move_Props.thy ===== *)
theory Move_Props
  imports Mutex_Props Semaphore_Props
begin

section \<open>Moving a primitive\<close>

text \<open>
  What move construction and move assignment of the mutex, the semaphore and their base class do to the
  requests that wait.  Move construction transfers them; move assignment, which rests on
  \<open>bilist_node::operator=\<close>, does not.
\<close>

subsection \<open>Assigning lists\<close>

text \<open>
  Assigning an empty list detaches what waits in the target; assigning any other list changes nothing at all.
\<close>

lemma assign_list:
  assumes "world_ok w" "pending w r q" "pending w e qe" "r \<noteq> e"
  shows "ok (on_nodes (node_move_assign r e) w) (\<lambda>w'. world_ok w' \<and> rest w' = rest w \<and>
    pending w' r (if qe = [] then [] else q) \<and> (\<forall>p qp. p \<noteq> r \<longrightarrow> pending w p qp \<longrightarrow> pending w' p qp))"
proof (cases qe)
  case Nil
  let ?h = "node_ctor r (nodes w)"
  have "node_move_assign r e (nodes w) = Some ?h"
    by (rule node_move_assign_empty[of _ _ "map fst q"]) (use assms Nil in \<open>simp_all add: pending_def\<close>)
  moreover have "pending (w\<lparr>nodes := ?h\<rparr>) p qp" if "p \<noteq> r" "pending w p qp" for p qp
  proof (rule pending_untouched[OF that(2)])
    show "untouched {r} w (w\<lparr>nodes := ?h\<rparr>)" by (simp add: untouched_def node_ctor_def)
    show "queue_nodes p qp \<inter> {r} = {}" using pending_disjoint[OF that(2) assms(2) that(1)] by auto
  qed
  moreover have "pending (w\<lparr>nodes := ?h\<rparr>) r []" using assms(2) node_ctor_bilist by (simp add: pending_def)
  moreover have "r \<in> dom (nodes w)" using pending_live[OF assms(2)] by simp
  then have "world_ok (w\<lparr>nodes := ?h\<rparr>)" using assms(1) by (auto simp: world_ok_def node_ctor_def)
  ultimately show ?thesis using Nil by (simp add: on_nodes_def rest_def)
next
  case (Cons y ys)
  have "node_move_assign r e (nodes w) = Some (nodes w)"
    by (rule node_move_assign_nonempty[of _ _ "map fst q" _ "map fst qe"])
      (use assms Cons in \<open>simp_all add: pending_def\<close>)
  with Cons assms(1,2) show ?thesis by (simp add: on_nodes_def)
qed

text \<open>
  So \<open>std::swap\<close> of two holders does not swap: what waited in the first is aborted when the temporary goes
  away, and what waited in the second stays, or is detached if nothing waited in the first.
\<close>

lemma holder_swap_ok:
  assumes "world_ok w" "pending w y q" "pending w x q'" "x \<noteq> y"
  shows "ok (holder_swap y x w) (\<lambda>w'. world_ok w' \<and> pending w' y [] \<and> pending w' x (if q = [] then [] else q') \<and>
    trace w' = trace w @ concat (map (\<lambda>(a, z). signals operation_aborted a z) q) \<and>
    (\<forall>(a, z) \<in> set q'. ops w' a = Some z))"
proof -
  from holder_move_ctor_ok[OF assms(1,2)] obtain t w1 where
    w1: "holder_move_ctor y w = Some (t, w1)" "world_ok w1" "pending w1 t q" "pending w1 y []" "ops w1 = ops w"
      "trace w1 = trace w" "t \<notin> dom (nodes w)" "untouched (queue_nodes y q) w w1"
    by (auto elim!: okE)
  have x1: "pending w1 x q'" by (rule pending_other[OF assms(2,3) _ w1(8)]) (use assms(4) in simp)
  have t: "t \<noteq> x" "t \<noteq> y" using w1(7) pending_live[OF assms(2)] pending_live[OF assms(3)] by auto
  from assign_list[OF w1(2,4) x1] assms(4) obtain w2 where
    w2: "on_nodes (node_move_assign y x) w1 = Some w2" "world_ok w2" "rest w2 = rest w1" "pending w2 y []"
      "pending w2 t q" "pending w2 x q'"
    using w1(3) x1 t by (auto elim!: okE split: if_splits)
  from assign_list[OF w2(2,6,5)] t obtain w3 where
    w3: "on_nodes (node_move_assign x t) w2 = Some w3" "world_ok w3" "rest w3 = rest w2" "pending w3 y []"
      "pending w3 t q" "pending w3 x (if q = [] then [] else q')"
    using w2(4,5) assms(4) by (auto elim!: okE)
  from holder_dtor_ok[OF w3(2,5)] obtain w4 where
    w4: "holder_dtor t w3 = Some w4" "world_ok w4" "drained (signals operation_aborted) operation_aborted q w3 w4"
      "untouched (queue_nodes t q) w3 w4"
    by (auto elim!: okE)
  have p4: "pending w4 y []" "pending w4 x (if q = [] then [] else q')"
    using pending_other[OF w3(5,4) t(2) w4(4)] pending_other[OF w3(5,6) t(1) w4(4)] by auto
  have "ops w4 a = Some z" if az: "(a, z) \<in> set q'" for a z
  proof -
    have "a \<notin> fst ` set q" using pending_disjoint[OF assms(3,2,4)] az by force
    then have "map_of q a = None" by (simp add: map_of_eq_None_iff)
    moreover have "ops w3 a = Some z" using az assms(3) w1(5) w2(3) w3(3) by (auto simp: rest_eq_iff pending_def)
    ultimately show ?thesis using w4(3) by (simp add: drained_def)
  qed
  moreover have "trace w4 = trace w @ concat (map (\<lambda>(a, z). signals operation_aborted a z) q)"
    using w4(3) w1(6) w2(3) w3(3) by (simp add: drained_def rest_eq_iff)
  ultimately show ?thesis
    using w1(1) w2(1) w3(1) w4(1,2) p4 by (auto simp: holder_swap_def)
qed

subsection \<open>The mutex\<close>

text \<open>
  Moving a mutex into a new object moves the requests that wait, pending as they are, and the lock with
  them; the old object is left unlocked and empty, and nobody is told anything.
\<close>

theorem mutex_move_ctor_keeps_waiters:
  assumes "mutex_reachable (m, w, n)" "pending w (waiters (bm_impl m)) q"
    and "registered w svc ms" "service (bm_impl m) = Some (entries svc)"
    and "waiters (bm_impl m) \<notin> set (entries svc # ms)"
  shows "ok (basic_mutex_move_ctor m svc w) (\<lambda>(t, m', svc', w').
    pending w' (waiters (bm_impl t)) q \<and> locked (bm_impl t) = locked (bm_impl m) \<and>
    pending w' (waiters (bm_impl m')) [] \<and> \<not> locked (bm_impl m') \<and> trace w' = trace w \<and>
    registered w' svc (ms @ [sm_node (bm_impl t)]))"
proof -
  from mutex_reachable_inv[OF assms(1)] obtain s where s: "mutex_rel (bm_impl m) w s" by auto
  have q: "queue s = q" using s assms(2) by (auto simp: mutex_rel_def intro: pending_unique)
  from mutex_move_ctor_ok[OF s assms(3-5)] show ?thesis
    by (rule ok_conseq) (use s q in \<open>auto simp: mutex_rel_def\<close>)
qed

theorem mutex_move_ctor_keeps_waiters_witness:
  "ok (basic_mutex_move_ctor held_mutex start_service busy_world) (\<lambda>(t, m', svc', w').
     pending w' (waiters (bm_impl t)) busy_queue \<and> locked (bm_impl t) \<and> \<not> locked (bm_impl m') \<and> trace w' = [])"
proof -
  have e: "entries start_service = 0" "idle (svc_mtx start_service)" by (simp_all add: sam_eval idle_def)
  have r: "registered busy_world start_service [1]"
    by (simp add: registered_def e is_bilist_def link_def heap_access busy_world_def)
  have "service (bm_impl held_mutex) = Some (entries start_service)"
    "waiters (bm_impl held_mutex) \<notin> set (entries start_service # [1])"
    by (simp_all add: e held_mutex_def some_mutex_def)
  from mutex_move_ctor_keeps_waiters[OF busy_mutex_reachable busy_pending r this] show ?thesis
    by (rule ok_conseq) (auto simp: held_mutex_def busy_world_def)
qed

text \<open>
  A request that has moved is cancelled under the wrong mutex: its cancellation handler holds a reference to the object in which
  it was made.  Called on that object, it takes the request from the list of the new one, whose internal mutex it does
  not look at.
\<close>

lemma moved_request_cancelled_elsewhere:
  assumes "mutex_reachable (m, w, n)" "pending w (waiters (bm_impl m)) (ys @ (a, x) # zs)" "type \<noteq> 0"
    and "registered w svc ms" "service (bm_impl m) = Some (entries svc)"
    and "waiters (bm_impl m) \<notin> set (entries svc # ms)"
  shows "ok (do {
      (t, m', svc', w1) \<leftarrow> basic_mutex_move_ctor m svc w;
      (u, i, w2) \<leftarrow> async_lock_cancel (bm_impl m') a type w1;
      Some (t, m', i, w2) })
    (\<lambda>(t, m', i, w2). i = bm_impl m' \<and> pending w2 (waiters (bm_impl t)) (ys @ zs) \<and>
      trace w2 = trace w @ signals operation_aborted a x)"
proof -
  from mutex_reachable_inv[OF assms(1)] obtain s where s: "mutex_rel (bm_impl m) w s" by auto
  have q: "queue s = ys @ (a, x) # zs" using s assms(2) by (auto simp: mutex_rel_def intro: pending_unique)
  have "distinct (map fst (ys @ (a, x) # zs))" using pending_distinct[OF assms(2)] by simp
  note c = assoc_split[OF this, folded q]
  from mutex_move_ctor_ok[OF s assms(4-6)] obtain t m' w1 where
    1: "basic_mutex_move_ctor m svc w = Some (t, m', svc, w1)" "mutex_rel (bm_impl t) w1 (s\<lparr>fresh := fresh s + 2\<rparr>)"
      "mutex_rel (bm_impl m') w1 \<lparr>owned = False, queue = [], fresh = fresh s + 2\<rparr>" "trace w1 = trace w"
    by (auto elim!: okE)
  have "a \<in> fst ` set (queue (s\<lparr>fresh := fresh s + 2\<rparr>))" using q by simp
  from mutex_cancel_refines[OF 1(2) this assms(3)] obtain i w2 where
    2: "async_lock_cancel (bm_impl t) a type w1 = Some ((), i, w2)"
      "mutex_rel i w2 (fst (mspec_cancel a (s\<lparr>fresh := fresh s + 2\<rparr>)))"
      "trace w2 = trace w1 @ snd (mspec_cancel a (s\<lparr>fresh := fresh s + 2\<rparr>))" by (auto elim!: okE)
  have "idle (mtx (bm_impl t))" "idle (mtx (bm_impl m'))" using 1(2,3) by (simp_all add: mutex_rel_def)
  with mutex_cancel_elsewhere[OF 2(1)] have
    "i = bm_impl t" "async_lock_cancel (bm_impl m') a type w1 = Some ((), bm_impl m', w2)" using 2(1) by fastforce+
  moreover have "mspec_cancel a (s\<lparr>fresh := fresh s + 2\<rparr>) =
      (s\<lparr>fresh := fresh s + 2, queue := ys @ zs\<rparr>, signals operation_aborted a x)"
    using c by (simp add: mspec_cancel_def)
  ultimately show ?thesis using 1 2(2,3) by (simp add: mutex_rel_def)
qed

text \<open>
  C39: Move assignment loses requests.  Assigning a mutex with waiting requests to one for which nobody waits hands over the
  lock but none of the requests.  Unlocking the target afterwards completes nobody and frees it; the lists of both mutexes are
  empty, and every operation is as it was, not completed.
\<close>

theorem mutex_move_assign_loses_waiters:
  assumes "world_ok w" "pending w (waiters (bm_impl sem)) q" "pending w (waiters (bm_impl this)) []"
    and "waiters (bm_impl sem) \<noteq> waiters (bm_impl this)"
    and "idle (mtx (bm_impl sem))" "idle (mtx (bm_impl this))"
  shows "ok (do {
      (t, s, w1) \<leftarrow> basic_mutex_move_assign this sem w;
      (t', w2) \<leftarrow> basic_mutex_unlock t w1;
      Some (t, t', s, w2) })
    (\<lambda>(t, t', s, w2). locked (bm_impl t) = locked (bm_impl sem) \<and> \<not> locked (bm_impl s) \<and> \<not> locked (bm_impl t') \<and>
       pending w2 (waiters (bm_impl sem)) [] \<and> pending w2 (waiters (bm_impl this)) [] \<and>
       trace w2 = trace w \<and> (\<forall>(a, x) \<in> set q. ops w2 a = Some x))"
proof -
  from assign_list[OF assms(1-4)] obtain w1 where
    w1: "on_nodes (node_move_assign (waiters (bm_impl sem)) (waiters (bm_impl this))) w = Some w1" "rest w1 = rest w"
      "pending w1 (waiters (bm_impl sem)) []" "pending w1 (waiters (bm_impl this)) []"
    using assms(3,4) by (auto elim!: okE)
  moreover have "get_next (waiters (bm_impl this)) (nodes w1) = Some (waiters (bm_impl this))"
    using w1(4) by (rule pending_empty)
  ultimately show ?thesis
    using assms(2,5,6)
    by (auto simp: basic_mutex_move_assign_def mutex_impl_move_assign_def basic_mutex_unlock_def
        mutex_impl_unlock_def scoped_def rest_eq_iff pending_def)
qed

text \<open>
  Two mutexes on one service, of which the first is held and has two requests waiting.
\<close>

definition other_mutex :: basic_mutex where
  "other_mutex = \<lparr>bm_exec = 9, bm_impl =
     \<lparr>sm_node = 5, service = Some 0, mtx = cem_ctor True, locked = False, waiters = 6\<rparr>\<rparr>"

definition two_mutexes :: world where
  "two_mutexes = \<lparr>nodes = [0 \<mapsto> \<lparr>next_node = 1, prev_node = 5\<rparr>, 1 \<mapsto> \<lparr>next_node = 5, prev_node = 0\<rparr>,
       5 \<mapsto> \<lparr>next_node = 0, prev_node = 1\<rparr>,
       2 \<mapsto> \<lparr>next_node = 3, prev_node = 4\<rparr>, 3 \<mapsto> \<lparr>next_node = 4, prev_node = 2\<rparr>,
       4 \<mapsto> \<lparr>next_node = 2, prev_node = 3\<rparr>, 6 \<mapsto> \<lparr>next_node = 6, prev_node = 6\<rparr>],
     ops = [3 \<mapsto> Basic_op \<lparr>work_guard = 7, op_handler = some_handler 1\<rparr>,
            4 \<mapsto> Lock_op \<lparr>op_ec = success, op_done = False\<rparr>],
     slots = [1 \<mapsto> 3], trace = [], brk = 7\<rparr>"

theorem mutex_move_assign_loses_waiters_witness:
  "ok (do {
      (t, s, w1) \<leftarrow> basic_mutex_move_assign other_mutex held_mutex two_mutexes;
      (t', w2) \<leftarrow> basic_mutex_unlock t w1;
      Some (t, t', s, w2) })
    (\<lambda>(t, t', s, w2). locked (bm_impl t) \<and> pending w2 2 [] \<and> pending w2 6 [] \<and> trace w2 = [] \<and>
       ops w2 4 = Some (Lock_op \<lparr>op_ec = success, op_done = False\<rparr>))"
proof -
  have e: "waiters (bm_impl held_mutex) = 2" "waiters (bm_impl other_mutex) = 6" "locked (bm_impl held_mutex)"
    "mtx (bm_impl held_mutex) = cem_ctor True" "mtx (bm_impl other_mutex) = cem_ctor True"
    by (simp_all add: held_mutex_def other_mutex_def some_mutex_def)
  have k: "world_ok two_mutexes" by (auto simp: world_ok_def two_mutexes_def some_handler_def split: if_splits)
  have p: "pending two_mutexes (waiters (bm_impl held_mutex)) busy_queue"
    "pending two_mutexes (waiters (bm_impl other_mutex)) []"
    by (simp_all add: e pending_def is_bilist_def link_def heap_access two_mutexes_def)
  show ?thesis
    by (rule ok_conseq[OF mutex_move_assign_loses_waiters[OF k p]])
      (auto simp: e two_mutexes_def)
qed

subsection \<open>The semaphore\<close>

text \<open>
  Moving a semaphore duplicates its permits.  The requests that wait move to the new object, but both the new and
  the old semaphore have the count of the old one.
\<close>

lemma semaphore_move_ctor_duplicates_permits:
  assumes "semaphore_reachable (m, w, g)" "pending w (sem_waiters (bs_impl m)) q"
    and "registered w svc ms" "service (bs_impl m) = Some (entries svc)"
    and "sem_waiters (bs_impl m) \<notin> set (entries svc # ms)"
  shows "ok (basic_semaphore_move_ctor m svc w) (\<lambda>(t, m', svc', w').
    sem_count (bs_impl t) = g \<and> sem_count (bs_impl m') = g \<and>
    pending w' (sem_waiters (bs_impl t)) q \<and> pending w' (sem_waiters (bs_impl m')) [] \<and> trace w' = trace w)"
proof -
  from semaphore_reachable_inv[OF assms(1)] obtain s where s: "semaphore_rel (bs_impl m) w s" "g = avail s" by auto
  have q: "squeue s = q" using s assms(2) by (auto simp: semaphore_rel_def intro: pending_unique)
  from semaphore_move_ctor_ok[OF s(1) assms(3-5)] show ?thesis
    by (rule ok_conseq) (use s q in \<open>auto simp: semaphore_rel_def\<close>)
qed

text \<open>
  Move assignment of a semaphore copies the count of its source but never the requests that wait there: these are
  aborted.  The target keeps its own waiting requests, unless nobody waits in the source; then they are detached
  and nobody will ever complete them.
\<close>

theorem semaphore_move_assign_aborts_or_loses:
  assumes "world_ok w" "pending w (sem_waiters (bs_impl sem)) q" "pending w (sem_waiters (bs_impl this)) q'"
    and "sem_waiters (bs_impl this) \<noteq> sem_waiters (bs_impl sem)" "idle (mtx (bs_impl this))"
  shows "ok (basic_semaphore_move_assign this sem w) (\<lambda>(t, s, w').
    sem_count (bs_impl t) = sem_count (bs_impl sem) \<and> s = sem \<and>
    pending w' (sem_waiters (bs_impl sem)) [] \<and>
    pending w' (sem_waiters (bs_impl this)) (if q = [] then [] else q') \<and>
    trace w' = trace w @ concat (map (\<lambda>(a, x). signals operation_aborted a x) q) \<and>
    (\<forall>(a, x) \<in> set q'. ops w' a = Some x))"
  using holder_swap_ok[OF assms(1-4)] assms(5)
  by (auto simp: basic_semaphore_move_assign_def semaphore_impl_move_assign_def scoped_def elim!: okE)

definition other_semaphore :: basic_semaphore where
  "other_semaphore = \<lparr>bs_exec = 9, bs_impl =
     \<lparr>sm_node = 5, service = Some 0, mtx = cem_ctor True, sem_count = 3, sem_waiters = 6\<rparr>\<rparr>"

abbreviation two_requests :: "(addr \<times> wait_op) list" where
  "two_requests \<equiv> [(3, Basic_op \<lparr>work_guard = 7, op_handler = some_handler 1\<rparr>),
                    (4, Acquire_op \<lparr>op_ec = success, op_done = False\<rparr>)]"

definition two_semaphores :: world where
  "two_semaphores = two_mutexes\<lparr>ops := map_of two_requests\<rparr>"

theorem semaphore_move_assign_aborts_or_loses_witness:
  "ok (basic_semaphore_move_assign (some_semaphore 0) other_semaphore two_semaphores) (\<lambda>(t, s, w').
     sem_count (bs_impl t) = 3 \<and> pending w' 2 [] \<and> pending w' 6 [] \<and> trace w' = [] \<and>
     ops w' 4 = Some (Acquire_op \<lparr>op_ec = success, op_done = False\<rparr>))"
proof -
  have e: "sem_waiters (bs_impl (some_semaphore 0)) = 2" "sem_waiters (bs_impl other_semaphore) = 6"
    "mtx (bs_impl (some_semaphore 0)) = cem_ctor True" "sem_count (bs_impl other_semaphore) = 3"
    by (simp_all add: some_semaphore_def other_semaphore_def)
  have k: "world_ok two_semaphores" by (auto simp: world_ok_def two_semaphores_def two_mutexes_def some_handler_def split: if_splits)
  have p: "pending two_semaphores (sem_waiters (bs_impl other_semaphore)) []"
    "pending two_semaphores (sem_waiters (bs_impl (some_semaphore 0))) two_requests"
    by (simp_all add: e pending_def is_bilist_def link_def heap_access two_semaphores_def two_mutexes_def)
  show ?thesis
    by (rule ok_conseq[OF semaphore_move_assign_aborts_or_loses[OF k p]]) (auto simp: e two_semaphores_def two_mutexes_def)
qed

subsection \<open>The base class\<close>

text \<open>
  C40: Move assignment between primitives of different services.  The target keeps its service and is registered there again,
  now last.  The source is redirected to the service of the target without being registered there: its node stays in the
  list of its own service, which is as it was.
\<close>

theorem service_member_move_assign_redirects_source:
  assumes "world_ok w" "registered w svc (ms @ sm_node this # ns)" "service this = Some (entries svc)"
    and "registered w src (ks @ sm_node sm # ls)" "service sm = Some (entries src)"
    and "entries src \<notin> set (entries svc # ms @ sm_node this # ns)" "entries svc \<notin> set (ks @ sm_node sm # ls)"
  shows "ok (service_member_move_assign this sm svc w) (\<lambda>(t, s, svc', w'). t = this \<and> service s = Some (entries svc) \<and>
    sm_node s = sm_node sm \<and> svc' = svc \<and> registered w' svc (ms @ ns @ [sm_node this]) \<and>
    registered w' src (ks @ sm_node sm # ls) \<and> rest w' = rest w)"
proof -
  let ?n = "sm_node this" and ?ls = "ks @ sm_node sm # ls"
  from unregister_queue_ok[OF assms(1,2)] obtain w1 where
    w1: "unregister_queue svc ?n w = Some (svc, w1)" "world_ok w1" "registered w1 svc (ms @ ns)" "rest w1 = rest w"
      "nodes w1 ?n = nodes w ?n" "untouched (set (entries svc # ms @ ns)) w w1"
    by (auto elim!: okE)
  have live: "?n \<in> dom (nodes w1)" using registered_live[OF assms(2)] w1(5) by auto
  have new: "?n \<notin> set (entries svc # ms @ ns)"
    using assms(2) bl.repr_distinct[of "nodes w" "entries svc" "ms @ ?n # ns"] by (auto simp: registered_def)
  have "ops w1 ?n = None" using assms(2) w1(4) by (auto simp: registered_def rest_eq_iff)
  from register_queue_ok[OF w1(2,3) live new this] obtain w2 where
    w2: "register_queue svc ?n w1 = Some (svc, w2)" "registered w2 svc (ms @ ns @ [?n])" "rest w2 = rest w1"
      "untouched (set (?n # entries svc # ms @ ns)) w1 w2"
    by (auto elim!: okE)
  have "set (entries svc # ms @ ?n # ns) \<inter> set (entries src # ?ls) = {}"
    by (rule is_bilist_disjoint[of "nodes w"]) (use assms(2,4,6,7) in \<open>auto simp: registered_def\<close>)
  then have "registered w2 src ?ls"
    by (intro registered_untouched[OF registered_untouched[OF assms(4) w1(6)] w2(4)]) auto
  moreover have "service sm \<noteq> service this" using assms(3,5,6) by simp
  ultimately show ?thesis
    using assms(3) w1(1,4) w2(1-3) by (simp add: service_member_move_assign_def)
qed

text \<open>A mutex of one service and a mutex of another.\<close>

definition second_service :: op_list_service where
  "second_service = \<lparr>entries = 8, svc_mtx = cem_ctor True\<rparr>"

definition second_mutex :: mutex_impl where
  "second_mutex = \<lparr>sm_node = 5, service = Some 8, mtx = cem_ctor True, locked = False, waiters = 6\<rparr>"

definition two_services :: world where
  "two_services = \<lparr>nodes = [0 \<mapsto> \<lparr>next_node = 1, prev_node = 1\<rparr>, 1 \<mapsto> \<lparr>next_node = 0, prev_node = 0\<rparr>,
       8 \<mapsto> \<lparr>next_node = 5, prev_node = 5\<rparr>, 5 \<mapsto> \<lparr>next_node = 8, prev_node = 8\<rparr>,
       2 \<mapsto> \<lparr>next_node = 2, prev_node = 2\<rparr>, 6 \<mapsto> \<lparr>next_node = 6, prev_node = 6\<rparr>],
     ops = Map.empty, slots = Map.empty, trace = [], brk = 9\<rparr>"

theorem service_member_move_assign_redirects_source_witness:
  "ok (service_member_move_assign (bm_impl some_mutex) second_mutex start_service two_services)
     (\<lambda>(t, s, svc', w'). service s = Some 0 \<and> registered w' start_service [1] \<and> registered w' second_service [5])"
proof -
  have e: "entries start_service = 0" "idle (svc_mtx start_service)" "entries second_service = 8"
    "idle (svc_mtx second_service)" "sm_node second_mutex = 5" "service second_mutex = Some 8"
    "sm_node (bm_impl some_mutex) = 1" "service (bm_impl some_mutex) = Some 0"
    by (simp_all add: sam_eval idle_def second_service_def second_mutex_def some_mutex_def)
  have k: "world_ok two_services" by (auto simp: world_ok_def two_services_def split: if_splits)
  have r: "registered two_services start_service ([] @ sm_node (bm_impl some_mutex) # [])"
    "registered two_services second_service ([] @ sm_node second_mutex # [])"
    by (simp_all add: registered_def e is_bilist_def link_def heap_access two_services_def)
  have s: "service (bm_impl some_mutex) = Some (entries start_service)" "service second_mutex = Some (entries second_service)"
    "entries second_service \<notin> set (entries start_service # [] @ sm_node (bm_impl some_mutex) # [])"
    "entries start_service \<notin> set ([] @ sm_node second_mutex # [])"
    by (simp_all add: e)
  show ?thesis
    by (rule ok_conseq[OF service_member_move_assign_redirects_source[OF k r(1) s(1) r(2) s(2-4)]]) (auto simp: e)
qed

end
