(* ===== verification/Construct_Throws.thy ===== *)
theory Construct_Throws
  imports Mutex_Props Semaphore_Props Shared_Mutex_Props Barrier_Props Condition_Variable_Props
begin

section \<open>Initiations that throw\<close>

text \<open>
  \<open>construct\<close> of \<open>detail/impl/basic_op_model.hpp\<close> and \<open>detail/impl/predicate_op_model.hpp\<close> moves the caller's handler, or
  predicate, into the new operation.  When the move throws, the memory is given back and the exception leaves the
  initiation; the internal mutex is released on the way.  A request that is granted at once moves its handler too, into
  the function object that is dispatched.  The other theories are about moves that do not throw.  Here the argument
  \<open>throws\<close> says whether the one that the initiation gets to does, and the initiations have a result that tells whether
  an exception left them.
\<close>

datatype thrown = Thrown

subsection \<open>The operations\<close>

text \<open>The allocation has happened; the memory that was given back is not handed out again.\<close>

definition basic_op_model_construct_exn ::
  "bool \<Rightarrow> executor \<Rightarrow> handler \<Rightarrow> world \<Rightarrow> (thrown + addr) \<times> world" where
  "basic_op_model_construct_exn throws e h w =
     (if throws then (Inl Thrown, w\<lparr>brk := Suc (brk w)\<rparr>)
      else let (model, w) = basic_op_model_construct e h w in (Inr model, w))"

definition predicate_op_model_construct_exn ::
  "bool \<Rightarrow> executor \<Rightarrow> handler \<Rightarrow> predicate \<Rightarrow> world \<Rightarrow> (thrown + addr) \<times> world" where
  "predicate_op_model_construct_exn throws e h p w =
     (if throws then (Inl Thrown, w\<lparr>brk := Suc (brk w)\<rparr>)
      else let (model, w) = predicate_op_model_construct e h p w in (Inr model, w))"

text \<open>\<open>net::dispatch(ie, net::append(std::forward<Handler>(handler), error_code()))\<close>.\<close>

definition dispatch_exn :: "bool \<Rightarrow> executor \<Rightarrow> handler \<Rightarrow> world \<Rightarrow> (thrown + unit) \<times> world" where
  "dispatch_exn throws ie h w = (if throws then (Inl Thrown, w) else (Inr (), emit (Dispatch ie h success) w))"

text \<open>Statements after the construction run only when it returned.\<close>

fun unless_thrown ::
  "(thrown + addr) \<times> world \<Rightarrow> 'i \<Rightarrow> (addr \<Rightarrow> world \<Rightarrow> world option) \<Rightarrow> ((thrown + unit) \<times> 'i \<times> world) option" where
  "unless_thrown (Inl x, w) impl body = Some (Inl x, impl, w)"
| "unless_thrown (Inr model, w) impl body = do { w \<leftarrow> body model w; Some (Inr (), impl, w) }"

definition basic_mutex_async_lock_exn ::
  "bool \<Rightarrow> basic_mutex \<Rightarrow> handler \<Rightarrow> world \<Rightarrow> ((thrown + unit) \<times> basic_mutex \<times> world) option" where
  "basic_mutex_async_lock_exn throws self h w = do {
     let e = get_associated_executor h (bm_exec self);
     (r, i, w) \<leftarrow> scoped (\<lambda>impl.
        if \<not> locked impl then do {
          let impl = impl\<lparr>locked := True\<rparr>;
          let ie = get_associated_immediate_executor h (bm_exec self);
          let (r, w) = dispatch_exn throws ie h w;
          Some (r, impl, w) }
        else unless_thrown (basic_op_model_construct_exn throws e h w) impl (\<lambda>model w.
          add_waiter impl model (slot_assign (basic_op_model_get_cancellation_slot (basic_op_model_ctor e h)) model w)))
       (bm_impl self);
     Some (r, self\<lparr>bm_impl := i\<rparr>, w) }"

definition basic_semaphore_async_acquire_exn ::
  "bool \<Rightarrow> basic_semaphore \<Rightarrow> handler \<Rightarrow> world \<Rightarrow> ((thrown + unit) \<times> basic_semaphore \<times> world) option" where
  "basic_semaphore_async_acquire_exn throws self h w = do {
     let e = get_associated_executor h (bs_exec self);
     (r, i, w) \<leftarrow> scoped (\<lambda>impl.
        if semaphore_count impl > 0 then do {
          impl \<leftarrow> semaphore_decrement impl;
          let ie = get_associated_immediate_executor h (bs_exec self);
          let (r, w) = dispatch_exn throws ie h w;
          Some (r, impl, w) }
        else unless_thrown (basic_op_model_construct_exn throws e h w) impl (\<lambda>model w.
          semaphore_add_waiter impl model (slot_assign (basic_op_model_get_cancellation_slot (basic_op_model_ctor e h)) model w)))
       (bs_impl self);
     Some (r, self\<lparr>bs_impl := i\<rparr>, w) }"

definition basic_shared_mutex_async_lock_exn ::
  "bool \<Rightarrow> basic_shared_mutex \<Rightarrow> handler \<Rightarrow> world \<Rightarrow> ((thrown + unit) \<times> basic_shared_mutex \<times> world) option" where
  "basic_shared_mutex_async_lock_exn throws self h w = with_impl (\<lambda>impl w. do {
     let e = get_associated_executor h (bsm_exec self);
     scoped (\<lambda>impl.
        if \<not> locked impl \<and> locked_shared impl = 0 then do {
          let impl = impl\<lparr>locked := True\<rparr>;
          let ie = get_associated_immediate_executor h (bsm_exec self);
          let (r, w) = dispatch_exn throws ie h w;
          Some (r, impl, w) }
        else unless_thrown (basic_op_model_construct_exn throws e h w) impl (\<lambda>model w.
          add_waiter impl model (slot_assign (basic_op_model_get_cancellation_slot (basic_op_model_ctor e h)) model w)))
       impl }) self w"

definition basic_shared_mutex_async_lock_shared_exn ::
  "bool \<Rightarrow> basic_shared_mutex \<Rightarrow> handler \<Rightarrow> world \<Rightarrow> ((thrown + unit) \<times> basic_shared_mutex \<times> world) option" where
  "basic_shared_mutex_async_lock_shared_exn throws self h w = with_impl (\<lambda>impl w. do {
     let e = get_associated_executor h (bsm_exec self);
     scoped (\<lambda>impl.
        if \<not> locked impl then do {
          let impl = impl\<lparr>locked_shared := locked_shared impl + 1\<rparr>;
          let ie = get_associated_immediate_executor h (bsm_exec self);
          let (r, w) = dispatch_exn throws ie h w;
          Some (r, impl, w) }
        else unless_thrown (basic_op_model_construct_exn throws e h w) impl (\<lambda>model w.
          add_shared_waiter impl model (slot_assign (basic_op_model_get_cancellation_slot (basic_op_model_ctor e h)) model w)))
       impl }) self w"

definition async_predicate_wait_exn ::
  "bool \<Rightarrow> basic_condition_variable \<Rightarrow> predicate \<Rightarrow> handler \<Rightarrow> world \<Rightarrow>
   ((thrown + unit) \<times> basic_condition_variable \<times> world) option" where
  "async_predicate_wait_exn throws self p h w = do {
     let e = get_associated_executor h (cv_exec self);
     (r, i, w) \<leftarrow> scoped (\<lambda>impl.
        unless_thrown (predicate_op_model_construct_exn throws e h p w) impl (\<lambda>model w.
          cv_add_waiter impl model
            (slot_assign (predicate_op_model_get_cancellation_slot (predicate_op_model_ctor e h p)) model w)))
       (cv_impl self);
     Some (r, self\<lparr>cv_impl := i\<rparr>, w) }"

text \<open>The barrier counts the arrival before it constructs the operation.\<close>

definition async_arrive_second_exn ::
  "bool \<Rightarrow> basic_barrier \<Rightarrow> handler \<Rightarrow> world \<Rightarrow> ((thrown + unit) \<times> basic_barrier \<times> world) option" where
  "async_arrive_second_exn throws self h w = do {
     let e = get_associated_executor h (bb_exec self);
     (r, i, w) \<leftarrow> scoped (\<lambda>impl. do {
        impl \<leftarrow> barrier_decrement impl;
        unless_thrown (basic_op_model_construct_exn throws e h w) impl (\<lambda>model w.
          barrier_add_waiter impl model (slot_assign (basic_op_model_get_cancellation_slot (basic_op_model_ctor e h)) model w)) })
       (bb_impl self);
     Some (r, self\<lparr>bb_impl := i\<rparr>, w) }"

definition basic_barrier_async_arrive_exn ::
  "bool \<Rightarrow> basic_barrier \<Rightarrow> handler \<Rightarrow> world \<Rightarrow> ((thrown + unit) \<times> basic_barrier \<times> world) option" where
  "basic_barrier_async_arrive_exn throws self h w = do {
     (b, self, w) \<leftarrow> basic_barrier_try_arrive self w;
     if b then do {
       let ie = get_associated_immediate_executor h (bb_exec self);
       let (r, w) = dispatch_exn throws ie h w;
       Some (r, self, w) }
     else async_arrive_second_exn throws self h w }"

lemmas exn_defs = dispatch_exn_def basic_op_model_construct_exn_def predicate_op_model_construct_exn_def basic_mutex_async_lock_exn_def
  basic_semaphore_async_acquire_exn_def basic_shared_mutex_async_lock_exn_def basic_shared_mutex_async_lock_shared_exn_def
  async_predicate_wait_exn_def async_arrive_second_exn_def basic_barrier_async_arrive_exn_def

subsection \<open>Moves that do not throw\<close>

text \<open>Then the initiations are those of the other theories.\<close>

lemma no_throw:
  "basic_mutex_async_lock_exn False m h w =
     do { (m, w) \<leftarrow> basic_mutex_async_lock m h w; Some (Inr (), m, w) }"
  "basic_semaphore_async_acquire_exn False s h w =
     do { (s, w) \<leftarrow> basic_semaphore_async_acquire s h w; Some (Inr (), s, w) }"
  "basic_shared_mutex_async_lock_exn False x h w =
     do { (u, x, w) \<leftarrow> basic_shared_mutex_async_lock x h w; Some (Inr u, x, w) }"
  "basic_shared_mutex_async_lock_shared_exn False x h w =
     do { (u, x, w) \<leftarrow> basic_shared_mutex_async_lock_shared x h w; Some (Inr u, x, w) }"
  "async_predicate_wait_exn False v p h w =
     do { (v, w) \<leftarrow> async_predicate_wait v p h w; Some (Inr (), v, w) }"
  "basic_barrier_async_arrive_exn False b h w =
     do { (b, w) \<leftarrow> basic_barrier_async_arrive b h w; Some (Inr (), b, w) }"
  unfolding exn_defs basic_mutex_async_lock_def basic_semaphore_async_acquire_def async_predicate_wait_def
    basic_barrier_async_arrive_def async_arrive_first_def async_arrive_second_def scoped_def with_impl_def
    basic_shared_mutex_async_lock_def basic_shared_mutex_async_lock_shared_def
  by (auto simp: Let_def case_prod_unfold split: bind_splits if_splits)

subsection \<open>Moves that throw\<close>

text \<open>All that is left of the attempt is memory that was allocated and given back.\<close>

definition wasted :: "world \<Rightarrow> world" where
  "wasted w = w\<lparr>brk := Suc (brk w)\<rparr>"

lemma wasted_simps [simp]:
  "nodes (wasted w) = nodes w" "ops (wasted w) = ops w" "slots (wasted w) = slots w" "trace (wasted w) = trace w"
  "brk (wasted w) = Suc (brk w)" "pending (wasted w) r q = pending w r q"
  by (simp_all add: wasted_def pending_def)

lemma world_ok_wasted: "world_ok w \<Longrightarrow> world_ok (wasted w)"
  by (auto simp: world_ok_def less_Suc_eq)

text \<open>
  C24: Strong guarantee.  When moving the handler throws, \<open>async_lock\<close> of a mutex that is held, \<open>async_acquire\<close> of a
  semaphore without permits, both asynchronous locks of a shared mutex that is held exclusively and
  \<open>async_wait\<close> of a condition variable pass the exception on and have changed nothing: the primitive is in the
  reachable state it was in, with its internal mutex free.
\<close>

theorem throwing_initiations_change_nothing:
  assumes "mutex_reachable (m, w, 1)" "semaphore_reachable (s, v, 0)" "shared_reachable (x, u, 1, k)" "cv_reachable (c, y)"
  shows "basic_mutex_async_lock_exn True m h w = Some (Inl Thrown, m, wasted w) \<and> mutex_reachable (m, wasted w, 1) \<and>
    basic_semaphore_async_acquire_exn True s h v = Some (Inl Thrown, s, wasted v) \<and> semaphore_reachable (s, wasted v, 0) \<and>
    basic_shared_mutex_async_lock_exn True x h u = Some (Inl Thrown, x, wasted u) \<and>
    basic_shared_mutex_async_lock_shared_exn True x h u = Some (Inl Thrown, x, wasted u) \<and> shared_reachable (x, wasted u, 1, k) \<and>
    async_predicate_wait_exn True c p h y = Some (Inl Thrown, c, wasted y) \<and> cv_reachable (c, wasted y)"
proof -
  from mutex_reachable_inv[OF assms(1)] have M: "locked (bm_impl m)" "idle (mtx (bm_impl m))" "world_ok w"
    by (auto simp: mutex_rel_def)
  from semaphore_reachable_inv[OF assms(2)] have S: "sem_count (bs_impl s) = 0" "idle (mtx (bs_impl s))" "world_ok v"
    by (auto simp: semaphore_rel_def)
  from shared_reachable_inv[OF assms(3)] have X: "locked (bsm_impl x)" "idle (mtx (bsm_impl x))" "world_ok u"
    by (auto simp: shared_rel_def)
  from cv_reachable_inv[OF assms(4)] have C: "idle (mtx (cv_impl c))" "world_ok y"
    by (auto simp: cv_rel_def)
  have "mutex_reachable (m, wasted w, 1)" "semaphore_reachable (s, wasted v, 0)" "shared_reachable (x, wasted u, 1, k)"
    "cv_reachable (c, wasted y)"
    using assms M(3) S(3) X(3) C(2)
    by (auto intro!: mutex_reachable.step[OF assms(1)] mutex_step.other semaphore_reachable.step[OF assms(2)]
        semaphore_step.other shared_reachable.step[OF assms(3)] shared_step.other cv_reachable.step[OF assms(4)]
        cv_step.other world_ok_wasted)
  moreover have "basic_mutex_async_lock_exn True m h w = Some (Inl Thrown, m, wasted w)"
    using M(1,2) by (simp add: exn_defs scoped_def wasted_def)
  moreover have "basic_semaphore_async_acquire_exn True s h v = Some (Inl Thrown, s, wasted v)"
    using S(1,2) by (simp add: exn_defs scoped_def wasted_def semaphore_count_def)
  moreover have "basic_shared_mutex_async_lock_exn True x h u = Some (Inl Thrown, x, wasted u)"
    "basic_shared_mutex_async_lock_shared_exn True x h u = Some (Inl Thrown, x, wasted u)"
    using X(1,2) by (simp_all add: exn_defs scoped_def wasted_def with_impl_def)
  moreover have "async_predicate_wait_exn True c p h y = Some (Inl Thrown, c, wasted y)"
    using C(1) by (simp add: exn_defs scoped_def wasted_def)
  ultimately show ?thesis by blast
qed

theorem throwing_initiations_change_nothing_witness:
  "basic_mutex_async_lock_exn True held_mutex (some_handler 3) busy_world = Some (Inl Thrown, held_mutex, wasted busy_world) \<and>
   async_predicate_wait_exn True some_cv true_predicate (some_handler 3) cv_waiting = Some (Inl Thrown, some_cv, wasted cv_waiting)"
  using throwing_initiations_change_nothing[OF busy_mutex_reachable queued_semaphore_reachable both_wait_reachable
      cv_waiting_reachable] by blast

text \<open>
  A request that is granted has no such guarantee: the primitive is changed before the handler is moved, so when that
  throws, the mutex is held and the permit is gone, although the caller got an exception and nobody is told.
\<close>

theorem throwing_grant_leaks:
  assumes "mutex_reachable (m, w, 0)" "semaphore_reachable (s, v, g)" "0 < g"
  shows "basic_mutex_async_lock_exn True m h w = Some (Inl Thrown, m\<lparr>bm_impl := (bm_impl m)\<lparr>locked := True\<rparr>\<rparr>, w) \<and>
    basic_semaphore_async_acquire_exn True s h v = Some (Inl Thrown, s\<lparr>bs_impl := (bs_impl s)\<lparr>sem_count := g - 1\<rparr>\<rparr>, v)"
proof -
  from mutex_reachable_inv[OF assms(1)] have M: "\<not> locked (bm_impl m)" "idle (mtx (bm_impl m))"
    by (auto simp: mutex_rel_def)
  from semaphore_reachable_inv[OF assms(2)] have S: "sem_count (bs_impl s) = g" "g < 2 ^ 31" "idle (mtx (bs_impl s))"
    by (auto simp: semaphore_rel_def)
  then show ?thesis
    using M assms(3) by (simp add: exn_defs scoped_def semaphore_count_def semaphore_decrement_def checked_int_def)
qed

text \<open>
  C37: No strong guarantee.  \<open>async_arrive\<close> counts the arrival before the move that throws: its caller gets the
  exception and does not wait, and yet the round is completed by one arrival less.
\<close>

theorem barrier_counts_thrown_arrival:
  assumes "barrier_reachable (m, w, c)" "pending w (bar_waiters (bb_impl m)) q"
    and "int (length q) + int c + 2 = init_count (bb_impl m)"
  shows "ok (do {
      (r, m1, w1) \<leftarrow> basic_barrier_async_arrive_exn True m h w;
      (m2, w2) \<leftarrow> basic_barrier_async_arrive m1 h' w1;
      Some (r, w1, m2, w2) })
    (\<lambda>(r, w1, m2, w2). r = Inl Thrown \<and> w1 = wasted w \<and> pending w2 (bar_waiters (bb_impl m)) [] \<and>
      counter (bb_impl m2) = init_count (bb_impl m) \<and>
      trace w2 = trace w @ concat (map (\<lambda>(a, x). signals success a x) q) @
        [Dispatch (get_associated_immediate_executor h' (bb_exec m)) h' success])"
proof -
  have "missing (bb_impl m) q c = 2" using assms(3) unfolding missing_def by linarith
  with barrier_reachableD(1)[OF assms(1,2)] have R: "bar_rel (bb_impl m) w q 2" by simp
  from first_early[OF this, of h] have f: "basic_barrier_try_arrive m w = Some (False, m, w)"
    by (auto simp: async_arrive_first_def split: bind_splits if_splits)
  note P = bar_relD[OF R]
  let ?i = "(bb_impl m)\<lparr>counter := 1\<rparr>" and ?m = "m\<lparr>bb_impl := (bb_impl m)\<lparr>counter := 1\<rparr>\<rparr>"
  have "async_arrive_second_exn True m h w = Some (Inl Thrown, ?m, wasted w)"
    using R P(3) by (simp add: exn_defs scoped_def barrier_decrement_def checked_ptrdiff_def bar_rel_def wasted_def)
  then have x: "basic_barrier_async_arrive_exn True m h w = Some (Inl Thrown, ?m, wasted w)"
    using f by (simp add: basic_barrier_async_arrive_exn_def)
  have "bar_rel (bb_impl ?m) (wasted w) q 1" using R world_ok_wasted by (simp add: bar_rel_def)
  from async_arrive_last[OF this, of h'] x show ?thesis
    by (auto simp: bar_rel_def same_barrier_def elim!: ok_conseq)
qed

theorem barrier_counts_thrown_arrival_witness:
  "ok (do {
      (r, m1, w1) \<leftarrow> basic_barrier_async_arrive_exn True (some_barrier 2) (some_handler 1) barrier_world;
      (m2, w2) \<leftarrow> basic_barrier_async_arrive m1 (some_handler 2) w1;
      Some (r, w1, m2, w2) })
    (\<lambda>(r, w1, m2, w2). r = Inl Thrown \<and> trace w1 = [] \<and> trace w2 = [Dispatch 7 (some_handler 2) success])"
proof -
  have "int (length ([] :: (addr \<times> wait_op) list)) + int 0 + 2 = init_count (bb_impl (some_barrier 2))"
    by (simp add: some_barrier_def)
  from barrier_counts_thrown_arrival[OF some_barrier_reachable barrier_pendings(1) this] show ?thesis
    by (rule ok_conseq)
      (auto simp: barrier_world_def some_barrier_def some_handler_def get_associated_immediate_executor_def)
qed

end
