(* ===== verification/Inline_Dispatch.thy ===== *)
theory Inline_Dispatch
  imports Mutex_Props Semaphore_Props
begin

section \<open>Handlers that run inside the initiation\<close>

text \<open>
  \<open>async_lock\<close> and \<open>async_acquire\<close> dispatch the handler of a request that is granted at once on its associated
  immediate executor, while they hold the internal mutex.  The other theories are about executors that queue what
  is dispatched to them.  Here the argument \<open>inl\<close> says which executors run it inside \<open>dispatch\<close>, and \<open>run\<close> is what
  the handler then does with the primitive.
\<close>

subsection \<open>The initiations\<close>

definition basic_mutex_async_lock_inline ::
  "(executor \<Rightarrow> bool) \<Rightarrow> (handler \<Rightarrow> mutex_impl \<Rightarrow> world \<Rightarrow> (unit \<times> mutex_impl \<times> world) option) \<Rightarrow>
   basic_mutex \<Rightarrow> handler \<Rightarrow> world \<Rightarrow> (basic_mutex \<times> world) option" where
  "basic_mutex_async_lock_inline inl run self h w = do {
     let e = get_associated_executor h (bm_exec self);
     (u, i, w) \<leftarrow> scoped (\<lambda>impl.
        if \<not> locked impl then do {
          let impl = impl\<lparr>locked := True\<rparr>;
          let ie = get_associated_immediate_executor h (bm_exec self);
          if inl ie then run h impl w
          else Some ((), impl, emit (Dispatch ie h success) w) }
        else do {
          let (model, w) = basic_op_model_construct e h w;
          let w = slot_assign (basic_op_model_get_cancellation_slot (basic_op_model_ctor e h)) model w;
          w \<leftarrow> add_waiter impl model w;
          Some ((), impl, w) }) (bm_impl self);
     Some (self\<lparr>bm_impl := i\<rparr>, w) }"

definition basic_semaphore_async_acquire_inline ::
  "(executor \<Rightarrow> bool) \<Rightarrow> (handler \<Rightarrow> semaphore_impl \<Rightarrow> world \<Rightarrow> (unit \<times> semaphore_impl \<times> world) option) \<Rightarrow>
   basic_semaphore \<Rightarrow> handler \<Rightarrow> world \<Rightarrow> (basic_semaphore \<times> world) option" where
  "basic_semaphore_async_acquire_inline inl run self h w = do {
     let e = get_associated_executor h (bs_exec self);
     (u, i, w) \<leftarrow> scoped (\<lambda>impl.
        if semaphore_count impl > 0 then do {
          impl \<leftarrow> semaphore_decrement impl;
          let ie = get_associated_immediate_executor h (bs_exec self);
          if inl ie then run h impl w
          else Some ((), impl, emit (Dispatch ie h success) w) }
        else do {
          let (model, w) = basic_op_model_construct e h w;
          let w = slot_assign (basic_op_model_get_cancellation_slot (basic_op_model_ctor e h)) model w;
          w \<leftarrow> semaphore_add_waiter impl model w;
          Some ((), impl, w) }) (bs_impl self);
     Some (self\<lparr>bs_impl := i\<rparr>, w) }"

text \<open>With executors that queue, these are the initiations of the other theories.\<close>

lemma not_inline:
  "\<not> inl (get_associated_immediate_executor h (bm_exec m)) \<Longrightarrow>
     basic_mutex_async_lock_inline inl run m h = basic_mutex_async_lock m h"
  "\<not> inl (get_associated_immediate_executor h (bs_exec s)) \<Longrightarrow>
     basic_semaphore_async_acquire_inline inl run' s h = basic_semaphore_async_acquire s h"
  by (simp_all add: fun_eq_iff basic_mutex_async_lock_inline_def basic_mutex_async_lock_def
      basic_semaphore_async_acquire_inline_def basic_semaphore_async_acquire_def Let_def
      cong: if_cong)

subsection \<open>Handlers that give back what they were granted\<close>

lemma cem_disabled:
  assumes "idle m" "\<not> enabled m"
  shows "cem_lock (acquired m) = Some (acquired m)" "cem_unlock m = Some m"
  using assms by (cases m; simp add: idle_def acquired_def cem_lock_def cem_unlock_def Let_def)+

lemma same_fields:
  "\<not> locked i \<Longrightarrow> i\<lparr>locked := False, mtx := mtx i\<rparr> = i"
  "sem_count j = g \<Longrightarrow> j\<lparr>sem_count := g, mtx := mtx j\<rparr> = j"
  by (cases i; simp) (cases j; simp)

text \<open>
  C34: A handler that runs inside the initiation and releases what it was granted locks the internal mutex
  a second time.  On a primitive for several threads this never returns; for a single thread, where the internal
  mutex does nothing, the call returns and the primitive is as it was.
\<close>

theorem inline_release_deadlocks:
  assumes "mutex_reachable (m, w, 0)" "semaphore_reachable (s, v, g)" "0 < g"
    and "inl (get_associated_immediate_executor h (bm_exec m))" "inl (get_associated_immediate_executor h (bs_exec s))"
  shows "basic_mutex_async_lock_inline inl (\<lambda>_. mutex_impl_unlock) m h w =
      (if enabled (mtx (bm_impl m)) then None else Some (m, w)) \<and>
    basic_semaphore_async_acquire_inline inl (\<lambda>_. semaphore_impl_release) s h v =
      (if enabled (mtx (bs_impl s)) then None else Some (s, v))"
proof
  from mutex_reachable_inv[OF assms(1)] obtain t where t: "mutex_rel (bm_impl m) w t" "\<not> owned t" by auto
  then have M: "\<not> locked (bm_impl m)" "idle (mtx (bm_impl m))" "pending w (waiters (bm_impl m)) []"
    by (auto simp: mutex_rel_def)
  then show "basic_mutex_async_lock_inline inl (\<lambda>_. mutex_impl_unlock) m h w =
      (if enabled (mtx (bm_impl m)) then None else Some (m, w))"
    using assms(4) pending_empty[OF M(3)]
    by (auto simp: basic_mutex_async_lock_inline_def mutex_impl_unlock_def scoped_def cem_lock_held
        cem_disabled same_fields)
next
  from semaphore_reachable_inv[OF assms(2)] obtain t where t: "semaphore_rel (bs_impl s) v t" "g = avail t" by auto
  then have S: "sem_count (bs_impl s) = g" "g < 2 ^ 31" "idle (mtx (bs_impl s))" "pending v (sem_waiters (bs_impl s)) []"
    using assms(3) by (auto simp: semaphore_rel_def)
  then show "basic_semaphore_async_acquire_inline inl (\<lambda>_. semaphore_impl_release) s h v =
      (if enabled (mtx (bs_impl s)) then None else Some (s, v))"
    using assms(3,5) pending_empty[OF S(4)]
    by (auto simp: basic_semaphore_async_acquire_inline_def semaphore_impl_release_def scoped_def cem_lock_held
        semaphore_count_def semaphore_decrement_def checked_int_def cem_disabled same_fields)
qed

theorem inline_release_deadlocks_witness:
  "basic_mutex_async_lock_inline (\<lambda>_. True) (\<lambda>_. mutex_impl_unlock) some_mutex (some_handler 1) mutex_world = None \<and>
   basic_mutex_async_lock_inline (\<lambda>_. True) (\<lambda>_. mutex_impl_unlock) (single_mutex False) (some_handler 1) mutex_world =
     Some (single_mutex False, mutex_world)"
proof -
  have s: "semaphore_reachable (some_semaphore 1, semaphore_world, 1)"
    by (rule semaphore_reachable.init[OF start_ok _ _ some_semaphore_ctor]) simp_all
  have "basic_mutex_ctor 7 some_hints some_ctx 1 start_service start_world =
      Some (single_mutex False, start_service, mutex_world)"
    by (simp add: sam_eval single_mutex_def fun_upd_twist numeral_eq_Suc)
  from mutex_reachable.init[OF start_ok this] have m: "mutex_reachable (single_mutex False, mutex_world, 0)" .
  show ?thesis
    using inline_release_deadlocks[OF some_mutex_ok(3) s, of "\<lambda>_. True" "some_handler 1"]
      inline_release_deadlocks[OF m s, of "\<lambda>_. True" "some_handler 1"]
    by (simp add: some_mutex_def single_mutex_def)
qed

end
