(* ===== verification/Barrier_Race.thy ===== *)
theory Barrier_Race
  imports Barrier_Props
begin

section \<open>The barrier with arrivals that overlap\<close>

text \<open>
  \<open>async_arrive\<close> gives up the internal mutex between \<open>try_arrive\<close> and \<open>decrement\<close>.  Here its two critical sections are
  steps of their own, so that anything can happen between them.  A state has the barrier, the world, the number of
  cancelled arrivals of the round, the number of arrivals that are between their two sections, and whether up
  to now no arrival of any kind has begun while another was between its sections.
\<close>

type_synonym race = "basic_barrier \<times> world \<times> nat \<times> nat \<times> bool"

inductive race_action :: "race \<Rightarrow> race \<Rightarrow> bool" where
  try_arrive: "basic_barrier_try_arrive m w = Some (b, m', w') \<Longrightarrow>
    race_action (m, w, c, p, t) (m', w', if b then 0 else c, p, t \<and> p = 0)"
| arrive: "basic_barrier_arrive m success w = Some (r, m', w') \<Longrightarrow>
    race_action (m, w, c, p, t) (m', w', if r = Returned success then 0 else c, p, t \<and> p = 0)"
| first: "async_arrive_first m h w = Some (b, m', w') \<Longrightarrow>
    race_action (m, w, c, p, t) (m', w', if b then 0 else c, if b then p else Suc p, t \<and> p = 0)"
| second: "async_arrive_second m h w = Some (m', w') \<Longrightarrow> race_action (m, w, c, Suc p, t) (m', w', c, p, t)"
| cancel: "pending w (bar_waiters (bb_impl m)) q \<Longrightarrow> (a, x) \<in> set q \<Longrightarrow> op_slot x = Some s \<Longrightarrow> slots w s = Some a \<Longrightarrow>
    type \<noteq> 0 \<Longrightarrow> async_arrive_cancel i a (Some s) type w = Some (u, i', w') \<Longrightarrow>
    race_action (m, w, c, p, t) (m, w', Suc c, p, t)"

inductive race_step :: "race \<Rightarrow> race \<Rightarrow> bool" where
  call: "race_action c c' \<Longrightarrow> race_step c c'"
| other: "world_ok w' \<Longrightarrow> \<forall>q. pending w (bar_waiters (bb_impl m)) q \<longrightarrow> pending w' (bar_waiters (bb_impl m)) q \<Longrightarrow>
    race_step (m, w, c, p, t) (m, w', c, p, t)"

inductive race_reachable :: "race \<Rightarrow> bool" where
  init: "world_ok w \<Longrightarrow> registered w svc ms \<Longrightarrow> 1 \<le> n \<Longrightarrow> n < 2 ^ 63 \<Longrightarrow>
    basic_barrier_ctor ex A ctx n hint svc w = Some (m, svc', w') \<Longrightarrow> race_reachable (m, w', 0, 0, True)"
| step: "race_reachable c \<Longrightarrow> race_step c c' \<Longrightarrow> race_reachable c'"
| move: "race_reachable (m, w, c, p, t) \<Longrightarrow> registered w svc ms \<Longrightarrow> service (bb_impl m) = Some (entries svc) \<Longrightarrow>
    bar_waiters (bb_impl m) \<notin> set (entries svc # ms) \<Longrightarrow> basic_barrier_move_ctor m svc w = Some (n, m', svc', w') \<Longrightarrow>
    s = (n, w', c, 0, t) \<or> s = (m', w', nat (init_count (bb_impl m) - counter (bb_impl m)), p, t) \<Longrightarrow>
    race_reachable s"

subsection \<open>The invariant of all interleavings\<close>

text \<open>The count is right in any case; that it stays positive is what overlapping arrivals can spoil.\<close>

fun race_inv :: "race \<Rightarrow> bool" where
  "race_inv (m, w, c, p, t) \<longleftrightarrow> 1 \<le> init_count (bb_impl m) \<and> init_count (bb_impl m) < 2 ^ 63 \<and>
     (\<exists>q. bar_rel (bb_impl m) w q (missing (bb_impl m) q c))"

declare race_inv.simps [simp del]

lemma race_invE:
  assumes "race_inv (m, w, c, p, t)"
  obtains q d where "bar_rel (bb_impl m) w q d" "d = missing (bb_impl m) q c" "d < 2 ^ 63"
    "1 \<le> init_count (bb_impl m)" "init_count (bb_impl m) < 2 ^ 63"
  using assms by (auto simp: race_inv.simps missing_def)

lemma race_invI:
  assumes "bar_rel (bb_impl m') w' q' d" "d = missing i q' c'" "same_barrier i (bb_impl m')"
    and "1 \<le> init_count i" "init_count i < 2 ^ 63"
  shows "race_inv (m', w', c', p', t')"
proof -
  have "d = missing (bb_impl m') q' c'" using assms(2,3) by (simp add: missing_def same_barrier_def)
  with assms show ?thesis by (auto simp: race_inv.simps same_barrier_def intro!: exI[of _ q'])
qed

text \<open>An arrival that returned did not leave the range of \<open>ptrdiff_t\<close>.\<close>

lemma try_arrive_range:
  assumes "bar_rel m w q d" "barrier_impl_try_arrive m w = Some x"
  shows "- (2 ^ 63) < d"
  using assms by (auto simp: barrier_impl_try_arrive_def scoped_def bar_rel_def checked_ptrdiff_def
      split: bind_splits if_splits)

lemma arrive_range:
  assumes "bar_rel m w q d" "barrier_impl_arrive m ec w = Some x"
  shows "- (2 ^ 63) < d"
proof (cases "enabled (mtx m)")
  case True
  with assms show ?thesis
    by (auto simp: barrier_impl_arrive_def barrier_decrement_def scoped_def bar_rel_def checked_ptrdiff_def
        split: bind_splits if_splits prod.splits)
next
  case False
  with assms(2) obtain y where "barrier_impl_try_arrive m w = Some y"
    by (auto simp: barrier_impl_arrive_def split: bind_splits)
  then show ?thesis by (rule try_arrive_range[OF assms(1)])
qed

lemma second_range:
  assumes "bar_rel (bb_impl m) w q d" "async_arrive_second m h w = Some x"
  shows "- (2 ^ 63) < d"
  using assms by (auto simp: async_arrive_second_def barrier_decrement_def scoped_def bar_rel_def checked_ptrdiff_def
      split: bind_splits if_splits)

lemma first_range:
  assumes "bar_rel (bb_impl m) w q d" "async_arrive_first m h w = Some x"
  shows "- (2 ^ 63) < d"
proof -
  from assms(2) obtain y where "barrier_impl_try_arrive (bb_impl m) w = Some y"
    by (auto simp: async_arrive_first_def basic_barrier_try_arrive_def split: bind_splits)
  then show ?thesis by (rule try_arrive_range[OF assms(1)])
qed

text \<open>One lemma per critical section: what it does whatever the counter is.\<close>

lemma race_try_arrive_cases:
  assumes "basic_barrier_try_arrive m w = Some (b, m', w')" "bar_rel (bb_impl m) w q d" "d < 2 ^ 63"
  shows "same_barrier (bb_impl m) (bb_impl m') \<and> keeps {bar_waiters (bb_impl m)} w w' \<and>
    (if b then d = 1 \<and> bar_rel (bb_impl m') w' [] (init_count (bb_impl m)) else d \<noteq> 1 \<and> m' = m \<and> w' = w)"
proof (cases "d = 1")
  case True
  with try_arrive_last[of "bb_impl m" w q] assms(1,2) show ?thesis
    by (auto simp: basic_barrier_try_arrive_def elim!: okE)
next
  case False
  from assms(1) obtain x where "barrier_impl_try_arrive (bb_impl m) w = Some x"
    by (auto simp: basic_barrier_try_arrive_def split: bind_splits)
  then have "bar_range d" using try_arrive_range[OF assms(2)] assms(3) by simp
  with try_arrive_early[OF assms(2) False] assms(1) False bar_relD(1)[OF assms(2)] show ?thesis
    by (auto simp: basic_barrier_try_arrive_def same_barrier_def)
qed

lemma race_first_cases:
  assumes "async_arrive_first m h w = Some (b, m', w')" "bar_rel (bb_impl m) w q d" "d < 2 ^ 63"
  shows "same_barrier (bb_impl m) (bb_impl m') \<and> keeps {bar_waiters (bb_impl m)} w w' \<and>
    (if b then d = 1 \<and> bar_rel (bb_impl m') w' [] (init_count (bb_impl m)) else d \<noteq> 1 \<and> m' = m \<and> w' = w)"
proof (cases "d = 1")
  case True
  with first_last[of m w q h] assms(1,2) show ?thesis by (auto elim!: okE)
next
  case False
  have "bar_range d" using first_range[OF assms(2,1)] assms(3) by simp
  with first_early[OF assms(2) False, of h] assms(1) False bar_relD(1)[OF assms(2)] show ?thesis
    by (auto simp: same_barrier_def)
qed

lemma race_arrive_cases:
  assumes "barrier_impl_arrive m ec w = Some (r, m', w')" "bar_rel m w q d" "d < 2 ^ 63" "ec = success"
  shows "same_barrier m m' \<and> keeps {bar_waiters m} w w' \<and>
    (if r = Returned success then d = 1 \<and> bar_rel m' w' [] (init_count m)
     else d \<noteq> 1 \<and> (m' = m \<and> w' = w \<or> (\<exists>ax. bar_rel m' w' (q @ [ax]) (d - 1))))"
proof -
  have R: "bar_range d" using arrive_range[OF assms(2,1)] assms(3) by simp
  note l = barrier_arrive_local[OF assms(1,2) R]
  show ?thesis
  proof (cases "d = 1")
    case True
    with try_arrive_last[of m w q] arrive_last[of m w q ec] assms l show ?thesis
      by (cases "enabled (mtx m)") (auto simp: barrier_impl_arrive_def elim!: okE)
  next
    case False
    with arrive_early[OF assms(2) _ False R, of ec] arrive_single_threaded[OF assms(2) _ False R, of ec] assms(1) l
    show ?thesis by (cases "enabled (mtx m)") (auto elim!: okE)
  qed
qed

lemma race_second_cases:
  assumes "async_arrive_second m h w = Some (m', w')" "bar_rel (bb_impl m) w q d" "d < 2 ^ 63"
  shows "same_barrier (bb_impl m) (bb_impl m') \<and> keeps {bar_waiters (bb_impl m)} w w' \<and>
    trace w' = trace w \<and> (\<exists>ax. bar_rel (bb_impl m') w' (q @ [ax]) (d - 1))"
proof -
  have "bar_range d" using second_range[OF assms(2,1)] assms(3) by simp
  with arrive_second_ok[OF assms(2), of h] assms(1) show ?thesis by (auto elim!: okE)
qed

lemma race_cancel_cases:
  assumes "bar_rel m w q d" "pending w (bar_waiters m) q'" "(a, x) \<in> set q'" "type \<noteq> 0"
    and "async_arrive_cancel i a (Some s) type w = Some (u, i', w')"
  shows "keeps {bar_waiters m} w w' \<and> (\<exists>p. bar_rel m w' p d \<and> Suc (length p) = length q)"
proof -
  have "q' = q" using assms(2) bar_relD(2)[OF assms(1)] by (rule pending_unique)
  with assms(3) obtain ys zs where q: "q = ys @ (a, x) # zs" by (metis split_list)
  from barrier_cancel_ok[OF assms(1)[unfolded q] assms(4), of "Some s"]
    barrier_cancel_elsewhere[OF assms(5) bar_relD(3)[OF assms(1)]] show ?thesis
    by (auto simp: q elim!: okE intro!: exI[of _ "ys @ zs"])
qed

text \<open>Every step of every interleaving preserves the invariant and stays within the lists of the barrier.\<close>

lemma race_action_ok:
  assumes "race_action (m, w, c, p, t) (m', w', c', p', t')" "race_inv (m, w, c, p, t)"
  shows "race_inv (m', w', c', p', t') \<and> same_barrier (bb_impl m) (bb_impl m') \<and>
    keeps {bar_waiters (bb_impl m)} w w'"
proof -
  from assms(2) obtain q d where I: "bar_rel (bb_impl m) w q d" "d = missing (bb_impl m) q c" "d < 2 ^ 63"
    "1 \<le> init_count (bb_impl m)" "init_count (bb_impl m) < 2 ^ 63" by (rule race_invE)
  note inv = race_invI[where i = "bb_impl m", OF _ _ _ I(4,5)]
  have idle: "race_inv (m, w, c, x, y)" for x y using assms(2) by (simp add: race_inv.simps)
  have tripped: "race_inv (k, v, 0, x, y)"
    if "bar_rel (bb_impl k) v [] (init_count (bb_impl m))" "same_barrier (bb_impl m) (bb_impl k)" for k v x y
    by (rule inv[OF that(1) _ that(2)]) (simp add: missing_def)
  have joined: "race_inv (k, v, c, x, y)"
    if "bar_rel (bb_impl k) v (q @ [ax]) (d - 1)" "same_barrier (bb_impl m) (bb_impl k)" for k v ax x y
    by (rule inv[OF that(1) _ that(2)]) (use I(2) in \<open>simp add: missing_def\<close>)
  show ?thesis using assms(1)
  proof (cases rule: race_action.cases)
    case (try_arrive b)
    from race_try_arrive_cases[OF try_arrive(4) I(1,3)] assms(2) try_arrive(1-3) show ?thesis
      by (cases b) (auto intro: tripped idle)
  next
    case (arrive r)
    from arrive(4) obtain i where i: "barrier_impl_arrive (bb_impl m) success w = Some (r, i, w')" "m' = m\<lparr>bb_impl := i\<rparr>"
      by (auto simp: basic_barrier_arrive_def split: bind_splits)
    from race_arrive_cases[OF i(1) I(1,3)] assms(2) arrive(1-3) i(2) show ?thesis
      by (cases "r = Returned success") (auto intro: tripped joined idle)
  next
    case (first h b)
    from race_first_cases[OF first(4) I(1,3)] assms(2) first(1-3) show ?thesis
      by (cases b) (auto intro: tripped idle)
  next
    case (second h)
    from race_second_cases[OF second(4) I(1,3)] second(1-3) show ?thesis
      by (auto intro: joined)
  next
    case (cancel r a x s type i u i')
    from race_cancel_cases[OF I(1) cancel(5,6,9,10)] obtain z where
      z: "keeps {bar_waiters (bb_impl m)} w w'" "bar_rel (bb_impl m) w' z d" "Suc (length z) = length q"
      by blast
    then have "d = missing (bb_impl m) z (Suc c)" using I(2) by (simp add: missing_def)
    with z cancel(1-3) show ?thesis by (auto simp: same_barrier_def intro!: inv)
  qed
qed

lemma race_step_inv:
  assumes "race_step s s'" "race_inv s"
  shows "race_inv s'"
  using assms
proof (cases rule: race_step.cases)
  case call
  with assms(2) show ?thesis by (metis (no_types) race_action_ok prod_cases5)
next
  case (other w' w m c p t)
  with assms(2) show ?thesis by (auto simp: race_inv.simps bar_rel_def)
qed

lemma race_reachable_inv: "race_reachable s \<Longrightarrow> race_inv s"
proof (induction rule: race_reachable.induct)
  case (init w svc ms n ex A ctx hint m svc' w')
  from barrier_ctor_ok[OF init(1,2), of ex A ctx n hint] init(3-5) show ?case
    by (auto simp: missing_def same_barrier_def elim!: okE intro!: race_invI[of _ _ "[]"])
next
  case (move m w c p t svc ms n m' svc' w' s)
  from move(7) obtain q d where I: "bar_rel (bb_impl m) w q d" "d = missing (bb_impl m) q c"
    "1 \<le> init_count (bb_impl m)" "init_count (bb_impl m) < 2 ^ 63" by (rule race_invE)
  from barrier_move_ctor_ok[OF I(1) move(2-4)] move(5) have
    t: "bar_rel (bb_impl n) w' q d" "bar_rel (bb_impl m) w' [] d" "init_count (bb_impl n) = init_count (bb_impl m)" "m' = m"
    by (auto elim!: okE)
  have "d = missing (bb_impl n) q c" using I(2) t(3) by (simp add: missing_def)
  with t I have "race_inv (n, w', c, 0, t)" by (auto simp: race_inv.simps intro!: exI[of _ q])
  moreover have "d = missing (bb_impl m) [] (nat (init_count (bb_impl m) - counter (bb_impl m)))"
    using I(1,2) by (simp add: missing_def bar_rel_def)
  with t I have "race_inv (m, w', nat (init_count (bb_impl m) - counter (bb_impl m)), p, t)"
    by (auto simp: race_inv.simps intro!: exI[of _ "[]"])
  ultimately show ?case using move(6) t(4) by blast
qed (blast intro: race_step_inv)

subsection \<open>Histories without overlap\<close>

text \<open>
  While an arrival is between its sections and no other has begun, the barrier is where the first section found it, and
  short of at least two.
\<close>

definition serial :: "race \<Rightarrow> bool" where
  "serial = (\<lambda>(m, w, c, p, t). t \<longrightarrow> barrier_reachable (m, w, c) \<and> int p < counter (bb_impl m) \<and> p \<le> 1)"

lemma serialI:
  "(t \<Longrightarrow> barrier_reachable (m, w, c) \<and> int p < counter (bb_impl m) \<and> p \<le> 1) \<Longrightarrow> serial (m, w, c, p, t)"
  by (simp add: serial_def)

lemma serialE:
  assumes "serial (m, w, c, p, True)"
  obtains q d where "barrier_reachable (m, w, c)" "int p < counter (bb_impl m)" "p \<le> 1"
    "bar_rel (bb_impl m) w q d" "d = counter (bb_impl m)" "d < 2 ^ 63" "bar_range d"
proof -
  have s: "barrier_reachable (m, w, c)" "int p < counter (bb_impl m)" "p \<le> 1"
    using assms by (simp_all add: serial_def)
  from barrier_reachable_inv[OF s(1)] obtain q d where
    d: "bar_rel (bb_impl m) w q d" "d < 2 ^ 63" "bar_range d" by (rule barrier_invE)
  show thesis by (rule that[OF s d(1) _ d(2,3)]) (use d(1) in \<open>simp add: bar_rel_def\<close>)
qed

lemma reachable_positive: "barrier_reachable (m, w, c) \<Longrightarrow> 0 < counter (bb_impl m)"
  using barrier_reachable_inv by (fastforce simp: bar_rel_def elim: barrier_invE)

lemma serial_alone:
  assumes "barrier_reachable (m, w, c)"
  shows "serial (m, w, c, 0, t)"
  using assms reachable_positive[OF assms] by (simp add: serial_def)

lemma serial_action:
  assumes "race_action (m, w, c, p, t) (m', w', c', p', t')" "serial (m, w, c, p, t)"
  shows "serial (m', w', c', p', t')"
proof (cases t')
  case False
  then show ?thesis by (simp add: serial_def)
next
  case True
  then have t: t using assms(1) by (auto elim: race_action.cases)
  with assms(2) have "serial (m, w, c, p, True)" by simp
  then obtain q d where I: "barrier_reachable (m, w, c)" "int p < counter (bb_impl m)" "p \<le> 1"
    "bar_rel (bb_impl m) w q d" "d = counter (bb_impl m)" "d < 2 ^ 63" "bar_range d" by (rule serialE)
  note step = barrier_reachable.step[OF I(1) barrier_step.call]
  show ?thesis using assms(1)
  proof (cases rule: race_action.cases)
    case (try_arrive b)
    with True step[OF barrier_action.try_arrive[OF try_arrive(4)]] show ?thesis by (auto intro: serial_alone)
  next
    case (arrive r)
    with True step[OF barrier_action.arrive[OF arrive(4)]] show ?thesis by (auto intro: serial_alone)
  next
    case (first h b)
    note f = race_first_cases[OF first(4) I(4,6)]
    show ?thesis
    proof (cases b)
      case True
      then have "basic_barrier_async_arrive m h w = Some (m', w')" "grants w w' > 0"
        using first(4) first_last[of m w q h] f I(4) by (auto simp: basic_barrier_async_arrive_def elim!: okE)
      with step[OF barrier_action.async_arrive[of m h w m' w' c]] True first \<open>t'\<close> show ?thesis
        by (auto intro: serial_alone)
    next
      case False
      with f first I \<open>t'\<close> show ?thesis by (auto intro!: serialI)
    qed
  next
    case (second h)
    then have "counter (bb_impl m) \<noteq> 1" using I(2) by simp
    then have e: "async_arrive_first m h w = Some (False, m, w)" using first_early[OF I(4) _ I(7)] I(5) by simp
    have "basic_barrier_async_arrive m h w = Some (m', w')" "grants w w' = 0"
      using e second(4) race_second_cases[OF second(4) I(4,6)]
      by (auto simp: basic_barrier_async_arrive_def grants_def)
    with step[OF barrier_action.async_arrive[of m h w m' w' c]] have "barrier_reachable (m', w', c)" by simp
    with second I(3) show ?thesis by (auto intro: serial_alone)
  next
    case (cancel r a x s type i u i')
    have "barrier_reachable (m', w', c')"
      using step[OF barrier_action.cancel[OF cancel(5-10)]] cancel(1-4) by simp
    then show ?thesis using cancel I by (auto intro!: serialI)
  qed
qed

lemma race_reachable_serial: "race_reachable s \<Longrightarrow> serial s"
proof (induction rule: race_reachable.induct)
  case (init w svc ms n ex A ctx hint m svc' w')
  show ?case by (rule serial_alone[OF barrier_reachable.init[OF init]])
next
  case (move m w c p t svc ms n m' svc' w' s)
  show ?case
  proof (cases t)
    case True
    with move(7) have "serial (m, w, c, p, True)" by simp
    then obtain q d where I: "barrier_reachable (m, w, c)" "int p < counter (bb_impl m)" "p \<le> 1" "bar_rel (bb_impl m) w q d"
      by (rule serialE)
    have "m' = m" using barrier_move_ctor_ok[OF I(4) move(2-4)] move(5) by (auto elim!: okE)
    with I(2,3) move(6) barrier_reachable.move[OF I(1) move(2-5)] show ?thesis
      by (auto intro: serial_alone serialI)
  next
    case False
    with move(6) show ?thesis by (auto simp: serial_def)
  qed
next
  case (step s s')
  from step(2) show ?case
  proof (cases rule: race_step.cases)
    case call
    with step(3) show ?thesis by (metis (no_types) serial_action prod_cases5)
  next
    case (other w' w m c p t)
    with step(3) show ?thesis
      by (auto simp: serial_def intro: barrier_reachable.step barrier_step.other)
  qed
qed

text \<open>Conversely, an uninterrupted arrival is its two sections in a row.\<close>

lemma barrier_reachable_race: "barrier_reachable s \<Longrightarrow> case s of (m, w, c) \<Rightarrow> race_reachable (m, w, c, 0, True)"
proof (induction rule: barrier_reachable.induct)
  case (init w svc ms n ex A ctx hint m svc' w')
  then show ?case by (auto intro: race_reachable.init)
next
  case (move m w c svc ms t m' svc' w' s)
  from move(7) have "race_reachable (m, w, c, 0, True)" by simp
  from race_reachable.move[OF this move(2-5)] move(6) show ?case by auto
next
  case (step s s')
  obtain m w c m' w' c' where s: "s = (m, w, c)" "s' = (m', w', c')" by (metis prod_cases3)
  from step.IH have r: "race_reachable (m, w, c, 0, True)" by (simp add: s)
  from race_reachable_serial[OF r] obtain q d where I: "bar_rel (bb_impl m) w q d" "d < 2 ^ 63" by (rule serialE)
  note go = race_reachable.step[OF r race_step.call]
  from step(2) have "race_reachable (m', w', c', 0, True)"
  proof (cases rule: barrier_step.cases)
    case call
    then have "barrier_action (m, w, c) (m', w', c')" by (simp add: s)
    then show ?thesis
    proof (cases rule: barrier_action.cases)
      case (try_arrive b)
      with go[OF race_action.try_arrive[OF try_arrive(2)]] show ?thesis by simp
    next
      case (arrive r)
      with go[OF race_action.arrive[OF arrive(2)]] show ?thesis by simp
    next
      case (async_arrive h)
      then obtain b k v where f: "async_arrive_first m h w = Some (b, k, v)"
        "(if b then Some (k, v) else async_arrive_second k h v) = Some (m', w')"
        by (auto simp: basic_barrier_async_arrive_def split: bind_splits)
      note g = go[OF race_action.first[OF f(1), of c 0 True]]
      show ?thesis
      proof (cases b)
        case True
        with f race_first_cases[OF f(1) I] first_last[of m w q h] I(1) have "grants w w' > 0" by (auto elim!: okE)
        with g f(2) True async_arrive(1) show ?thesis by simp
      next
        case False
        with race_first_cases[OF f(1) I] f(2) have k: "k = m" "v = w" "async_arrive_second m h w = Some (m', w')" by auto
        have "grants w w' = 0" using race_second_cases[OF k(3) I] by (simp add: grants_def)
        moreover have "race_reachable (m, w, c, 1, True)" using g False k by simp
        from race_reachable.step[OF this[unfolded One_nat_def] race_step.call[OF race_action.second[OF k(3)]]]
        have "race_reachable (m', w', c, 0, True)" .
        ultimately show ?thesis using async_arrive(1) by simp
      qed
    next
      case (cancel q a x sl type i u i')
      with go[OF race_action.cancel[OF cancel(3-8)]] show ?thesis by simp
    qed
  next
    case (other w2 w1 m1 c1)
    with s go show ?thesis by (auto intro: race_reachable.step[OF r] race_step.other)
  qed
  then show ?case by (simp add: s)
qed

subsection \<open>A barrier among other primitives\<close>

text \<open>
  A barrier with the number of cancelled arrivals of the current round, the number of arrivals between their
  sections, and whether no arrivals have overlapped.
\<close>

type_synonym rounds = "basic_barrier \<times> nat \<times> nat \<times> bool"

fun barrier_history :: "rounds \<Rightarrow> world \<Rightarrow> bool" where
  "barrier_history (m, c, p, t) w = race_reachable (m, w, c, p, t)"

fun barrier_acts :: "rounds \<times> world \<Rightarrow> rounds \<times> world \<Rightarrow> bool" where
  "barrier_acts ((m, c, p, t), w) ((m', c', p', t'), w') = race_action (m, w, c, p, t) (m', w', c', p', t')"

fun barrier_roots :: "rounds \<Rightarrow> addr list" where
  "barrier_roots (m, c) = [bar_waiters (bb_impl m)]"

fun barrier_base :: "rounds \<Rightarrow> service_member" where
  "barrier_base (m, c) = service_member.truncate (bb_impl m)"

fun barrier_new :: "op_list_service \<times> world \<Rightarrow> rounds \<times> op_list_service \<times> world \<Rightarrow> bool" where
  "barrier_new (svc, w) ((m, c), svc', w') \<longleftrightarrow> c = (0, 0, True) \<and>
     (\<exists>n ex A ctx hint. 1 \<le> n \<and> n < 2 ^ 63 \<and> basic_barrier_ctor ex A ctx n hint svc w = Some (m, svc', w'))"

fun barrier_delete :: "rounds \<Rightarrow> op_list_service \<Rightarrow> world \<Rightarrow> (op_list_service \<times> world) option" where
  "barrier_delete (m, c) svc w = barrier_impl_dtor (bb_impl m) svc w"

fun barrier_move :: "rounds \<Rightarrow> op_list_service \<Rightarrow> world \<Rightarrow> (rounds \<times> rounds \<times> op_list_service \<times> world) option" where
  "barrier_move (m, c, p, t) svc w = do {
     (n, m', svc, w) \<leftarrow> basic_barrier_move_ctor m svc w;
     Some ((n, c, 0, t), (m', nat (init_count (bb_impl m) - counter (bb_impl m)), p, t), svc, w) }"

lemma race_reachable_rel:
  assumes "race_reachable (m, w, c, p, t)"
  obtains q d where "bar_rel (bb_impl m) w q d"
  using race_reachable_inv[OF assms] by (rule race_invE) (rule that)

interpretation barrier_shared: shared_primitive barrier_history barrier_acts barrier_roots barrier_base barrier_new
  barrier_delete barrier_move
proof (unfold_locales, goal_cases)
  case (1 p w r)
  then show ?case by (cases p rule: prod_cases4) (auto elim!: race_reachable_rel intro: bar_relD(2))
next
  case (2 x w x' w')
  obtain m c p t where x: "x = (m, c, p, t)" by (rule prod_cases4)
  obtain m' c' p' t' where x': "x' = (m', c', p', t')" by (rule prod_cases4)
  from 2 x x' have a: "race_reachable (m, w, c, p, t)" "race_action (m, w, c, p, t) (m', w', c', p', t')" by simp_all
  with race_action_ok[OF a(2) race_reachable_inv[OF a(1)]] x x' show ?case
    by (auto simp: same_barrier_def service_member.defs intro: race_reachable.step race_step.call)
next
  case (3 p w w')
  then show ?case by (cases p rule: prod_cases4) (auto intro: race_reachable.step race_step.other)
next
  case (4 w svc ms p svc' w')
  obtain m c where p: "p = (m, c)" by (rule prod.exhaust)
  with 4 obtain n ex A ctx hint where c: "basic_barrier_ctor ex A ctx n hint svc w = Some (m, svc', w')"
    "c = (0, 0, True)" "1 \<le> n" "n < 2 ^ 63" by auto
  have "race_reachable (m, w', 0, 0, True)" by (rule race_reachable.init[OF 4(1,2) c(3,4,1)])
  with barrier_ctor_ok[OF 4(1,2), of ex A ctx n hint] c p show ?case
    by (auto simp: service_member.defs bar_rel_def)
next
  case (5 x w svc ms ns)
  obtain m c p t where x: "x = (m, c, p, t)" by (rule prod_cases4)
  with 5(1) obtain q d where s: "bar_rel (bb_impl m) w q d" by (auto elim: race_reachable_rel)
  have "registered w svc (ms @ sm_node (bb_impl m) # ns)" "service (bb_impl m) = Some (entries svc)"
    "bar_waiters (bb_impl m) \<notin> set (entries svc # ms @ sm_node (bb_impl m) # ns)"
    using 5 x by (auto simp: service_member.defs)
  from barrier_dtor_ok[OF s this] x show ?case by (auto simp: service_member.defs insert_commute elim!: ok_conseq)
next
  case (6 x w svc ms)
  obtain m c p t where x: "x = (m, c, p, t)" by (rule prod_cases4)
  with 6(1) obtain q d where s: "bar_rel (bb_impl m) w q d" by (auto elim: race_reachable_rel)
  have r: "race_reachable (m, w, c, p, t)" "service (bb_impl m) = Some (entries svc)"
    "bar_waiters (bb_impl m) \<notin> set (entries svc # ms)"
    using 6 x by (auto simp: service_member.defs)
  note reach = race_reachable.move[OF r(1) 6(2) r(2,3)]
  from barrier_move_ctor_ok[OF s 6(2) r(2,3)] obtain n w' where
    "basic_barrier_move_ctor m svc w = Some (n, m, svc, w')" "bar_rel (bb_impl n) w' q d" "bar_rel (bb_impl m) w' [] d"
    "registered w' svc (ms @ [sm_node (bb_impl n)])" "trace w' = trace w" "service (bb_impl n) = Some (entries svc)"
    "sm_node (bb_impl n) = brk w" "bar_waiters (bb_impl n) = Suc (brk w)"
    "spares (insert (bar_waiters (bb_impl m)) (set (entries svc # ms))) w w'"
    by (auto elim!: okE)
  moreover have "brk w \<notin> dom (nodes w)" "Suc (brk w) \<notin> dom (nodes w)"
    using world_ok_fresh[OF bar_relD(1)[OF s]] by simp_all
  ultimately show ?case using x s reach
    by (auto simp: service_member.defs insert_commute bar_rel_def intro: carriedI)
next
  case (7 p w)
  then show ?case
    by (cases p rule: prod_cases4) (auto simp: service_member.defs bar_rel_def race_inv.simps dest!: race_reachable_inv)
qed

subsection \<open>Properties\<close>

text \<open>
  C15: Nobody waits at a full barrier.  However the critical sections of the arrivals interleave with each other and with
  cancellations, \<open>counter_\<close> is the size of the barrier minus the waiting and the cancelled arrivals of the round;
  and as long as no arrival begins while an asynchronous one is between its two sections, it stays positive and
  leaves room for that one.
\<close>

theorem barrier_race_counts:
  assumes "race_reachable (m, w, c, p, t)" "pending w (bar_waiters (bb_impl m)) q"
  shows "counter (bb_impl m) = init_count (bb_impl m) - int (length q) - int c \<and> (t \<longrightarrow> int p < counter (bb_impl m))"
proof -
  from race_reachable_inv[OF assms(1)] obtain r d where
    "bar_rel (bb_impl m) w r d" "d = missing (bb_impl m) r c" by (rule race_invE)
  moreover from this have "r = q" using assms(2) by (auto simp: bar_rel_def intro: pending_unique)
  ultimately show ?thesis
    using race_reachable_serial[OF assms(1)] by (auto simp: bar_rel_def missing_def serial_def)
qed

lemma half_arrived: "race_reachable (some_barrier 2, barrier_world, 0, Suc 0, True)"
proof -
  have r: "race_reachable (some_barrier 2, barrier_world, 0, 0, True)"
    using barrier_reachable_race[OF some_barrier_reachable] by simp
  have "async_arrive_first (some_barrier 2) (some_handler 1) barrier_world = Some (False, some_barrier 2, barrier_world)"
    by (simp add: sam_eval)
  from race_reachable.step[OF r race_step.call[OF race_action.first[OF this]]] show ?thesis by simp
qed

theorem barrier_race_counts_witness: "int (Suc 0) < counter (bb_impl (some_barrier 2))"
  using barrier_race_counts[OF half_arrived barrier_pendings(1)] by simp

text \<open>
  A history whose arrivals do not overlap is one in which asynchronous arrivals are not interrupted.
\<close>

theorem barrier_serial_histories: "race_reachable (m, w, c, 0, True) \<longleftrightarrow> barrier_reachable (m, w, c)"
  using race_reachable_serial barrier_reachable_race by (fastforce simp: serial_def)

text \<open>What a barrier does that has overshot: it counts on.\<close>

lemma overshot_action:
  assumes "race_action (m, w, c, p, t) (m', w', c', p', t')" "race_inv (m, w, c, p, t)" "counter (bb_impl m) \<le> 0"
  shows "counter (bb_impl m') \<le> 0 \<and> grants w w' = 0"
proof -
  from assms(2) obtain q d where I: "bar_rel (bb_impl m) w q d" "d < 2 ^ 63" by (rule race_invE)
  then have d: "d \<noteq> 1" "counter (bb_impl m) = d" using assms(3) by (simp_all add: bar_rel_def)
  have same: "grants w w = 0" by (simp add: grants_def)
  show ?thesis using assms(1)
  proof (cases rule: race_action.cases)
    case (try_arrive b)
    with race_try_arrive_cases[OF try_arrive(4) I] d same assms(3) show ?thesis by (auto split: if_splits)
  next
    case (arrive r)
    from arrive(4) obtain i where i: "barrier_impl_arrive (bb_impl m) success w = Some (r, i, w')" "m' = m\<lparr>bb_impl := i\<rparr>"
      by (auto simp: basic_barrier_arrive_def split: bind_splits)
    have "bar_range d" using arrive_range[OF I(1) i(1)] I(2) by simp
    with arrive_early[OF I(1) _ d(1), of success] arrive_single_threaded[OF I(1) _ d(1), of success] i d same assms(3)
    show ?thesis by (cases "enabled (mtx (bb_impl m))") (auto simp: bar_rel_def grants_def elim!: okE)
  next
    case (first h b)
    with race_first_cases[OF first(4) I] d same assms(3) show ?thesis by (auto split: if_splits)
  next
    case (second h)
    with race_second_cases[OF second(4) I] d assms(3) show ?thesis by (auto simp: bar_rel_def grants_def)
  next
    case (cancel q' a x s type i u i')
    have "q' = q" using cancel(5) bar_relD(2)[OF I(1)] by (rule pending_unique)
    with cancel(6) obtain ys zs where q: "q = ys @ (a, x) # zs" by (metis split_list)
    from barrier_cancel_ok[OF I(1)[unfolded q] cancel(9), of "Some s"] cancel(1-4) assms(3)
      barrier_cancel_elsewhere[OF cancel(10) bar_relD(3)[OF I(1)]] show ?thesis
      by (auto elim!: okE)
  qed
qed

lemma overshot_later:
  assumes "race_step\<^sup>*\<^sup>* (m, w, c, p, t) (m', w', c', p', t')" "race_reachable (m, w, c, p, t)" "counter (bb_impl m) \<le> 0"
  shows "race_reachable (m', w', c', p', t') \<and> counter (bb_impl m') \<le> 0"
  using assms
proof (induction "(m', w', c', p', t')" arbitrary: m' w' c' p' t' rule: rtranclp_induct)
  case base
  then show ?case by simp
next
  case (step y)
  obtain m1 w1 c1 p1 t1 where y: "y = (m1, w1, c1, p1, t1)" by (rule prod_cases5)
  from step y have r: "race_reachable (m1, w1, c1, p1, t1)" "counter (bb_impl m1) \<le> 0" by simp_all
  from step(2) have "counter (bb_impl m') \<le> 0" unfolding y
  proof (cases rule: race_step.cases)
    case call
    from overshot_action[OF this race_reachable_inv[OF r(1)] r(2)] show ?thesis ..
  qed (use r in simp)
  with r step(2) y show ?case by (blast intro: race_reachable.step)
qed

text \<open>
  C25: A barrier that has overshot is lost.  Once overlapping arrivals have brought \<open>counter_\<close> down to zero or below, then
  whatever is called from then on, in any order, no call ever releases an arrival again, and the counter stays where no
  arrival is the last one.
\<close>

theorem barrier_overshot_is_lost:
  assumes "race_reachable (m, w, c, p, t)" "counter (bb_impl m) \<le> 0"
    and "race_step\<^sup>*\<^sup>* (m, w, c, p, t) (m', w', c', p', t')" "race_action (m', w', c', p', t') (m'', w'', c'', p'', t'')"
  shows "grants w' w'' = 0 \<and> counter (bb_impl m'') \<le> 0"
proof -
  from overshot_later[OF assms(3,1,2)] have r: "race_reachable (m', w', c', p', t')" "counter (bb_impl m') \<le> 0" by simp_all
  show ?thesis using overshot_action[OF assms(4) race_reachable_inv[OF r(1)] r(2)] by simp
qed

definition overshot_world :: world where
  "overshot_world = \<lparr>nodes = [0 \<mapsto> \<lparr>next_node = 1, prev_node = 1\<rparr>, 1 \<mapsto> \<lparr>next_node = 0, prev_node = 0\<rparr>,
       2 \<mapsto> \<lparr>next_node = 3, prev_node = 4\<rparr>, 3 \<mapsto> \<lparr>next_node = 4, prev_node = 2\<rparr>, 4 \<mapsto> \<lparr>next_node = 2, prev_node = 3\<rparr>],
     ops = [3 \<mapsto> Basic_op \<lparr>work_guard = 7, op_handler = some_handler 1\<rparr>,
       4 \<mapsto> Basic_op \<lparr>work_guard = 7, op_handler = some_handler 2\<rparr>], slots = [1 \<mapsto> 3, 2 \<mapsto> 4], trace = [], brk = 5\<rparr>"

lemma overshot_reachable: "race_reachable (some_barrier 0, overshot_world, 0, 0, False)"
proof -
  note call = race_reachable.step[OF _ race_step.call]
  have f: "async_arrive_first (some_barrier 2) (some_handler 2) barrier_world = Some (False, some_barrier 2, barrier_world)"
    by (simp add: sam_eval)
  from call[OF half_arrived race_action.first[OF this]]
  have 1: "race_reachable (some_barrier 2, barrier_world, 0, Suc (Suc 0), False)" by simp
  have "async_arrive_second (some_barrier 2) (some_handler 1) barrier_world = Some (some_barrier 1, one_arrived)"
    by (simp add: sam_eval one_arrived_def fun_upd_twist)
  from call[OF 1 race_action.second[OF this]] have 2: "race_reachable (some_barrier 1, one_arrived, 0, Suc 0, False)" .
  have "async_arrive_second (some_barrier 1) (some_handler 2) one_arrived = Some (some_barrier 0, overshot_world)"
    by (simp add: sam_eval one_arrived_def overshot_world_def fun_upd_twist)
  from call[OF 2 race_action.second[OF this]] show ?thesis .
qed

theorem barrier_overshot_is_lost_witness:
  "\<exists>m' w'. basic_barrier_try_arrive (some_barrier 0) overshot_world = Some (False, m', w') \<and>
     grants overshot_world w' = 0 \<and> counter (bb_impl m') \<le> 0"
proof -
  have t: "basic_barrier_try_arrive (some_barrier 0) overshot_world = Some (False, some_barrier 0, overshot_world)"
    by (simp add: sam_eval)
  have "counter (bb_impl (some_barrier 0)) \<le> 0" by (simp add: some_barrier_def)
  from barrier_overshot_is_lost[OF overshot_reachable this rtranclp.rtrancl_refl race_action.try_arrive[OF t]] t
  show ?thesis by blast
qed

end
