(* ===== verification/Process.thy ===== *)
theory Process
  imports Mutex_Props Semaphore_Props Shared_Mutex_Props Barrier_Race Condition_Variable_Props
begin

section \<open>All primitives of a process together\<close>

text \<open>
  The histories of the primitives have a rule \<open>other\<close> for what the rest of the process does.  Here the rest of the
  process is given: any number of mutexes, semaphores, shared mutexes, barriers and condition variables on one service
  in one world, constructed, called, moved and destroyed in any order, and the threads that wake up.  Whatever they do, each
  primitive goes through one of the histories of its own theory, so everything proved of a single primitive holds of
  each of them in such a process.
\<close>

subsection \<open>The five kinds as one\<close>

datatype primitive =
    Mutex held
  | Semaphore stocked
  | Shared_mutex shared_held
  | Barrier rounds
  | Condition_variable basic_condition_variable

fun runs_alone :: "primitive \<Rightarrow> world \<Rightarrow> bool" where
  "runs_alone (Mutex p) w = mutex_history p w"
| "runs_alone (Semaphore p) w = semaphore_history p w"
| "runs_alone (Shared_mutex p) w = shared_history p w"
| "runs_alone (Barrier p) w = barrier_history p w"
| "runs_alone (Condition_variable p) w = cv_history p w"

fun list_roots :: "primitive \<Rightarrow> addr list" where
  "list_roots (Mutex p) = mutex_roots p"
| "list_roots (Semaphore p) = semaphore_roots p"
| "list_roots (Shared_mutex p) = shared_mutex_roots p"
| "list_roots (Barrier p) = barrier_roots p"
| "list_roots (Condition_variable p) = cv_roots p"

fun base_object :: "primitive \<Rightarrow> service_member" where
  "base_object (Mutex p) = mutex_base p"
| "base_object (Semaphore p) = semaphore_base p"
| "base_object (Shared_mutex p) = shared_base p"
| "base_object (Barrier p) = barrier_base p"
| "base_object (Condition_variable p) = cv_base p"

inductive acts :: "primitive \<times> world \<Rightarrow> primitive \<times> world \<Rightarrow> bool" where
  mutex: "mutex_acts (p, w) (p', w') \<Longrightarrow> acts (Mutex p, w) (Mutex p', w')"
| semaphore: "semaphore_acts (p, w) (p', w') \<Longrightarrow> acts (Semaphore p, w) (Semaphore p', w')"
| shared_mutex: "shared_acts (p, w) (p', w') \<Longrightarrow> acts (Shared_mutex p, w) (Shared_mutex p', w')"
| barrier: "barrier_acts (p, w) (p', w') \<Longrightarrow> acts (Barrier p, w) (Barrier p', w')"
| condition_variable: "cv_action (p, w) (p', w') \<Longrightarrow> acts (Condition_variable p, w) (Condition_variable p', w')"

inductive constructs :: "op_list_service \<times> world \<Rightarrow> primitive \<times> op_list_service \<times> world \<Rightarrow> bool" where
  mutex: "mutex_new c (p, c') \<Longrightarrow> constructs c (Mutex p, c')"
| semaphore: "semaphore_new c (p, c') \<Longrightarrow> constructs c (Semaphore p, c')"
| shared_mutex: "shared_new c (p, c') \<Longrightarrow> constructs c (Shared_mutex p, c')"
| barrier: "barrier_new c (p, c') \<Longrightarrow> constructs c (Barrier p, c')"
| condition_variable: "cv_new c (p, c') \<Longrightarrow> constructs c (Condition_variable p, c')"

fun destructs :: "primitive \<Rightarrow> op_list_service \<Rightarrow> world \<Rightarrow> (op_list_service \<times> world) option" where
  "destructs (Mutex p) svc w = mutex_delete p svc w"
| "destructs (Semaphore p) svc w = semaphore_delete p svc w"
| "destructs (Shared_mutex p) svc w = shared_delete p svc w"
| "destructs (Barrier p) svc w = barrier_delete p svc w"
| "destructs (Condition_variable p) svc w = cv_delete p svc w"

fun moves :: "primitive \<Rightarrow> op_list_service \<Rightarrow> world \<Rightarrow> (primitive \<times> primitive \<times> op_list_service \<times> world) option" where
  "moves (Mutex p) svc w = do { (q, p, svc, w) \<leftarrow> mutex_move p svc w; Some (Mutex q, Mutex p, svc, w) }"
| "moves (Semaphore p) svc w = do { (q, p, svc, w) \<leftarrow> semaphore_move p svc w; Some (Semaphore q, Semaphore p, svc, w) }"
| "moves (Shared_mutex p) svc w = do { (q, p, svc, w) \<leftarrow> shared_move p svc w; Some (Shared_mutex q, Shared_mutex p, svc, w) }"
| "moves (Barrier p) svc w = do { (q, p, svc, w) \<leftarrow> barrier_move p svc w; Some (Barrier q, Barrier p, svc, w) }"
| "moves (Condition_variable p) svc w = do {
     (q, p, svc, w) \<leftarrow> basic_condition_variable_move_ctor p svc w; Some (Condition_variable q, Condition_variable p, svc, w) }"

inductive_simps acts_simps:
  "acts (Mutex p, w) (p', w')"
  "acts (Semaphore p, w) (p', w')"
  "acts (Shared_mutex p, w) (p', w')"
  "acts (Barrier p, w) (p', w')"
  "acts (Condition_variable p, w) (p', w')"

inductive_simps constructs_simps:
  "constructs c (Mutex p, c')"
  "constructs c (Semaphore p, c')"
  "constructs c (Shared_mutex p, c')"
  "constructs c (Barrier p, c')"
  "constructs c (Condition_variable p, c')"

text \<open>The members of the kinds, which stay folded while their laws are put together.\<close>

lemmas member_defs = mutex_history.simps mutex_roots.simps mutex_base.simps mutex_delete.simps mutex_move.simps
  semaphore_history.simps semaphore_roots.simps semaphore_base.simps semaphore_delete.simps semaphore_move.simps
  shared_history.simps shared_mutex_roots.simps shared_base.simps shared_delete.simps shared_move.simps
  barrier_history.simps barrier_roots.simps barrier_base.simps barrier_delete.simps barrier_move.simps
  cv_history_def cv_roots_def cv_base_def cv_delete_def cv_new.simps

lemmas kinds_action = mutex_shared.action_ok semaphore_shared.action_ok shared_shared.action_ok
  barrier_shared.action_ok cv_shared.action_ok

lemmas kinds_others = mutex_shared.others_ok semaphore_shared.others_ok shared_shared.others_ok
  barrier_shared.others_ok cv_shared.others_ok

lemmas kinds_create = mutex_shared.create_ok semaphore_shared.create_ok shared_shared.create_ok
  barrier_shared.create_ok cv_shared.create_ok

lemmas kinds_dispose = mutex_shared.dispose_ok semaphore_shared.dispose_ok shared_shared.dispose_ok
  barrier_shared.dispose_ok cv_shared.dispose_ok

text \<open>A move of one kind as a move of primitives.\<close>

lemma wrapped_move:
  assumes "ok mv (\<lambda>(a, b, s, w). Q a b s w)" "\<And>a b s w. Q a b s w \<Longrightarrow> P (F a) (F b) s w"
  shows "ok (do { (a, b, s, w) \<leftarrow> mv; Some (F a, F b, s, w) }) (\<lambda>(a, b, s, w). P a b s w)"
  using assms by (auto elim!: okE)

lemmas kind_defs = runs_alone.simps list_roots.simps base_object.simps

interpretation kinds: shared_primitive runs_alone acts list_roots base_object constructs destructs moves
proof (unfold_locales, goal_cases)
  case (1 p w r)
  then show ?case
    by (cases p) (simp_all only: runs_alone.simps list_roots.simps mutex_shared.roots_pending
      semaphore_shared.roots_pending shared_shared.roots_pending barrier_shared.roots_pending cv_shared.roots_pending)
next
  case (2 p w p' w')
  then show ?case
    by (cases p) (auto simp: acts_simps simp del: member_defs dest: kinds_action)
next
  case (3 p w w')
  then show ?case
    by (cases p) (auto simp del: member_defs intro: kinds_others)
next
  case (4 w svc ms p svc' w')
  note c = 4(1,2)
  show ?case
    using 4(3) by (cases p) (auto simp: constructs_simps simp del: member_defs dest: kinds_create[OF c])
next
  case (5 p w svc ms ns)
  then show ?case
    by (cases p) (simp_all only: runs_alone.simps list_roots.simps base_object.simps destructs.simps kinds_dispose)
next
  case (6 p w svc ms)
  show ?case
  proof (cases p)
    case (Mutex x)
    show ?thesis unfolding Mutex moves.simps
      by (rule wrapped_move[OF mutex_shared.move_ok[OF 6[unfolded Mutex kind_defs]]]) (unfold kind_defs)
  next
    case (Semaphore x)
    show ?thesis unfolding Semaphore moves.simps
      by (rule wrapped_move[OF semaphore_shared.move_ok[OF 6[unfolded Semaphore kind_defs]]]) (unfold kind_defs)
  next
    case (Shared_mutex x)
    show ?thesis unfolding Shared_mutex moves.simps
      by (rule wrapped_move[OF shared_shared.move_ok[OF 6[unfolded Shared_mutex kind_defs]]]) (unfold kind_defs)
  next
    case (Barrier x)
    show ?thesis unfolding Barrier moves.simps
      by (rule wrapped_move[OF barrier_shared.move_ok[OF 6[unfolded Barrier kind_defs]]]) (unfold kind_defs)
  next
    case (Condition_variable x)
    show ?thesis unfolding Condition_variable moves.simps
      by (rule wrapped_move[OF cv_shared.move_ok[OF 6[unfolded Condition_variable kind_defs]]]) (unfold kind_defs)
  qed
next
  case (7 p w)
  then show ?case
    by (cases p) (simp_all only: runs_alone.simps base_object.simps mutex_shared.mutex_idle semaphore_shared.mutex_idle
      shared_shared.mutex_idle barrier_shared.mutex_idle cv_shared.mutex_idle)
qed

subsection \<open>Threads that are blocked\<close>

text \<open>
  A blocked call has its operation and its \<open>std::unique_lock\<close> on its stack.  The lock refers to the internal mutex of the
  object the call was made on, also when that object is moved or destroyed meanwhile.  \<open>locks a\<close> is the node of this
  object, for the call with the operation \<open>a\<close>; a call that blocks adds itself.
\<close>

type_synonym blocked_calls = "addr \<Rightarrow> addr option"

fun blocks :: "wait_op \<Rightarrow> bool" where
  "blocks (Lock_op s) = True"
| "blocks (Acquire_op s) = True"
| "blocks (Arrive_op s) = True"
| "blocks x = False"

definition blocked_by :: "primitive \<Rightarrow> world \<Rightarrow> world \<Rightarrow> blocked_calls \<Rightarrow> blocked_calls" where
  "blocked_by p w w' locks = (\<lambda>a. if ops w a = None \<and> (\<exists>x. ops w' a = Some x \<and> blocks x)
     then Some (sm_node (base_object p)) else locks a)"

fun put_mutex :: "conditionally_enabled_mutex \<Rightarrow> primitive \<Rightarrow> primitive" where
  "put_mutex l (Mutex (m, n)) = Mutex (m\<lparr>bm_impl := (bm_impl m)\<lparr>mtx := l\<rparr>\<rparr>, n)"
| "put_mutex l (Semaphore (s, g)) = Semaphore (s\<lparr>bs_impl := (bs_impl s)\<lparr>mtx := l\<rparr>\<rparr>, g)"
| "put_mutex l (Shared_mutex (m, n, k)) = Shared_mutex (m\<lparr>bsm_impl := (bsm_impl m)\<lparr>mtx := l\<rparr>\<rparr>, n, k)"
| "put_mutex l (Barrier (b, c)) = Barrier (b\<lparr>bb_impl := (bb_impl b)\<lparr>mtx := l\<rparr>\<rparr>, c)"
| "put_mutex l (Condition_variable c) = Condition_variable (c\<lparr>cv_impl := (cv_impl c)\<lparr>mtx := l\<rparr>\<rparr>)"

lemma put_mutex_same [simp]: "put_mutex (mtx (base_object p)) p = p"
  by (cases "(mtx (base_object p), p)" rule: put_mutex.cases) (auto simp: service_member.defs)

subsection \<open>Histories of a process\<close>

text \<open>
  The state is the list of the live primitives, oldest first, their service, the world and the blocked calls.  It starts
  with the construction of the service; then primitives are constructed, called, moved into new objects and destroyed, and
  blocked calls go on.  A call whose object has been destroyed would lock a mutex that does not exist any more: nothing is
  defined for it.
\<close>

type_synonym process = "primitive list \<times> op_list_service \<times> world \<times> blocked_calls"

fun process_resume :: "addr \<Rightarrow> process \<Rightarrow> (error_code \<times> process) option" where
  "process_resume a (ps, svc, w, locks) = do {
     n \<leftarrow> locks a;
     p \<leftarrow> List.find (\<lambda>p. sm_node (base_object p) = n) ps;
     (ec, l, w) \<leftarrow> sync_resume a (mtx (base_object p)) w;
     Some (ec, map (\<lambda>q. if sm_node (base_object q) = n then put_mutex l q else q) ps, svc, w, locks(a := None)) }"

inductive process_step :: "process \<Rightarrow> process \<Rightarrow> bool" where
  act: "acts (p, w) (p', w') \<Longrightarrow>
    process_step (ps @ p # qs, svc, w, locks) (ps @ p' # qs, svc, w', blocked_by p w w' locks)"
| construct: "constructs (svc, w) (p, svc', w') \<Longrightarrow> process_step (ps, svc, w, locks) (ps @ [p], svc', w', locks)"
| destruct: "destructs p svc w = Some (svc', w') \<Longrightarrow>
    process_step (ps @ p # qs, svc, w, locks) (ps @ qs, svc', w', locks)"
| move: "moves p svc w = Some (p', p0, svc', w') \<Longrightarrow>
    process_step (ps @ p # qs, svc, w, locks) (ps @ p0 # qs @ [p'], svc', w', locks)"
| resume: "process_resume a c = Some (ec, c') \<Longrightarrow> process_step c c'"

inductive process_reachable :: "process \<Rightarrow> bool" where
  start: "world_ok w \<Longrightarrow> op_list_service_ctor A ctx w = (svc, w') \<Longrightarrow> process_reachable ([], svc, w', Map.empty)"
| step: "process_reachable c \<Longrightarrow> process_step c c' \<Longrightarrow> process_reachable c'"

fun process_ok :: "process \<Rightarrow> bool" where
  "process_ok (ps, svc, w, locks) \<longleftrightarrow> side_by_side runs_alone list_roots base_object ps svc w"

text \<open>The nodes of the live primitives are distinct, so the object of a lock is determined by its node.\<close>

lemma members_distinct:
  assumes "kinds.apart ps svc w"
  shows "distinct (map (sm_node \<circ> base_object) ps)"
  using assms bl.repr_distinct[of "nodes w" "entries svc" "map (sm_node \<circ> base_object) ps"]
  by (simp add: side_by_side_def registered_def)

lemma find_member:
  assumes "List.find (\<lambda>p. sm_node (base_object p) = n) ps = Some p"
  shows "p \<in> set ps" "sm_node (base_object p) = n"
  using assms by (auto simp: find_Some_iff)

lemma find_member_in:
  assumes "p \<in> set ps" "distinct (map (sm_node \<circ> base_object) ps)"
  shows "List.find (\<lambda>q. sm_node (base_object q) = sm_node (base_object p)) ps = Some p"
  using assms by (induction ps) force+

text \<open>A blocked call that goes on finds the mutex of its object free, and leaves it free.\<close>

lemma process_resumeD:
  assumes "process_resume a (ps, svc, w, locks) = Some (ec, c')" "kinds.apart ps svc w"
  obtains p w' where "locks a = Some (sm_node (base_object p))" "p \<in> set ps" "idle (mtx (base_object p))"
    "sync_resume a (mtx (base_object p)) w = Some (ec, mtx (base_object p), w')" "c' = (ps, svc, w', locks(a := None))"
    "keeps {a} w w'" "ops w a \<noteq> None"
proof -
  from assms(1) obtain n p l w' where r: "locks a = Some n" "List.find (\<lambda>p. sm_node (base_object p) = n) ps = Some p"
    "sync_resume a (mtx (base_object p)) w = Some (ec, l, w')"
    "c' = (map (\<lambda>q. if sm_node (base_object q) = n then put_mutex l q else q) ps, svc, w', locks(a := None))"
    by (auto split: bind_splits)
  note p = find_member[OF r(2)]
  have i: "idle (mtx (base_object p))" using p(1) assms(2) by (auto simp: side_by_side_def intro: kinds.mutex_idle)
  have "world_ok w" using assms(2) by (simp add: side_by_side_def)
  note k = sync_resume_keeps[OF r(3) this i]
  have "q = p" if "q \<in> set ps" "sm_node (base_object q) = n" for q
    using find_member_in[OF that(1) members_distinct[OF assms(2)]] that(2) r(2) by simp
  then have "map (\<lambda>q. if sm_node (base_object q) = n then put_mutex l q else q) ps = ps"
    using k(3) by (auto intro!: map_idI)
  then show thesis using that[of p w'] r p i k by simp
qed

lemma process_step_ok: "process_step c c' \<Longrightarrow> process_ok c \<Longrightarrow> process_ok c'"
proof (induction rule: process_step.induct)
  case (act p w p' w' ps qs svc locks)
  then show ?case by (auto intro: kinds.apart_action)
next
  case (construct svc w p svc' w' ps locks)
  then show ?case by (auto dest: kinds.apart_create)
next
  case (destruct p svc w svc' w' ps qs locks)
  with kinds.dispose_isolated[of ps p qs svc w] show ?case by (auto elim!: okE)
next
  case (move p svc w p' p0 svc' w' ps qs locks)
  with kinds.move_isolated[of ps p qs svc w] show ?case by (auto elim!: okE)
next
  case (resume a c ec c')
  obtain ps svc w locks where c: "c = (ps, svc, w, locks)" by (cases c)
  with resume(2) have A: "kinds.apart ps svc w" by simp
  from process_resumeD[OF resume(1)[unfolded c] A] kinds.apart_idle[OF A] show ?case by (metis process_ok.simps)
qed

lemma process_reachable_ok: "process_reachable c \<Longrightarrow> process_ok c"
proof (induction rule: process_reachable.induct)
  case (start w A ctx svc w')
  from op_list_service_ctor_ok[OF start] show ?case by (simp add: side_by_side_def)
qed (blast intro: process_step_ok)

text \<open>
  When an object is destroyed the calls blocked on the others can go on as before, and those blocked on it cannot.
\<close>

lemma others_go_on:
  assumes "kinds.apart (ps @ p # qs) svc w" "kinds.apart (ps @ qs) svc w'"
    and "spares (set (list_roots p) \<union> set (entries svc # map (sm_node \<circ> base_object) (ps @ p # qs))) w w'"
    and "locks a \<noteq> Some (sm_node (base_object p))" "process_resume a (ps @ p # qs, svc, w, locks) = Some (ec, c)"
  shows "\<exists>c'. process_resume a (ps @ qs, svc, w', locks) = Some (ec, c')"
proof -
  from process_resumeD[OF assms(5,1)] obtain x v where x: "locks a = Some (sm_node (base_object x))" "x \<in> set (ps @ p # qs)"
    "sync_resume a (mtx (base_object x)) w = Some (ec, mtx (base_object x), v)" by metis
  from sync_resumeD[OF x(3)] obtain y where y: "ops w a = Some y" "settled y" "a \<in> dom (nodes w)" by metis
  have "runs_alone p w" "registered w svc (map (sm_node \<circ> base_object) (ps @ p # qs))"
    using assms(1) by (simp_all add: side_by_side_def)
  then have "a \<notin> set (list_roots p) \<union> set (entries svc # map (sm_node \<circ> base_object) (ps @ p # qs))"
    using kinds.roots_pending[of p w a] y(1) by (auto simp: registered_def pending_def)
  from spares_settled[OF assms(3) y this] sync_resume_elsewhere[OF x(3), of w'] obtain v' where
    "sync_resume a (mtx (base_object x)) w' = Some (ec, mtx (base_object x), v')" by blast
  moreover have "x \<in> set (ps @ qs)" using x(1,2) assms(4) by auto
  ultimately show ?thesis using find_member_in[OF _ members_distinct[OF assms(2)]] x(1) by simp
qed

lemma orphans:
  assumes "kinds.apart (ps @ p # qs) svc w" "locks a = Some (sm_node (base_object p))"
  shows "process_resume a (ps @ qs, svc, w', locks) = None"
proof -
  have "sm_node (base_object x) \<noteq> sm_node (base_object p)" if "x \<in> set (ps @ qs)" for x
    using that members_distinct[OF assms(1)] by (auto simp: image_iff)
  then have "List.find (\<lambda>x. sm_node (base_object x) = sm_node (base_object p)) (ps @ qs) = None"
    unfolding find_None_iff by blast
  then show ?thesis using assms(2) by simp
qed

subsection \<open>A process to start from\<close>

text \<open>A mutex that is free, and a semaphore without permits for which an asynchronous request waits.\<close>

definition other_semaphore :: basic_semaphore where
  "other_semaphore = \<lparr>bs_exec = 7, bs_impl =
     \<lparr>sm_node = 3, service = Some 0, mtx = cem_ctor True, sem_count = 0, sem_waiters = 4\<rparr>\<rparr>"

definition pair_world :: world where
  "pair_world = \<lparr>nodes = [0 \<mapsto> \<lparr>next_node = 1, prev_node = 3\<rparr>, 1 \<mapsto> \<lparr>next_node = 3, prev_node = 0\<rparr>,
       2 \<mapsto> \<lparr>next_node = 2, prev_node = 2\<rparr>, 3 \<mapsto> \<lparr>next_node = 0, prev_node = 1\<rparr>,
       4 \<mapsto> \<lparr>next_node = 5, prev_node = 5\<rparr>, 5 \<mapsto> \<lparr>next_node = 4, prev_node = 4\<rparr>],
     ops = [5 \<mapsto> Basic_op \<lparr>work_guard = 7, op_handler = some_handler 1\<rparr>], slots = [1 \<mapsto> 5], trace = [], brk = 6\<rparr>"

abbreviation pair_queue :: "(addr \<times> wait_op) list" where
  "pair_queue \<equiv> [(5, Basic_op \<lparr>work_guard = 7, op_handler = some_handler 1\<rparr>)]"

lemma start_process: "process_reachable ([], start_service, start_world, Map.empty)"
  by (rule process_reachable.start[of empty_world some_hints some_ctx])
    (simp_all add: start_service_def start_world_def empty_world_def world_ok_def)

lemma mutex_process: "process_reachable ([Mutex (some_mutex, 0)], start_service, mutex_world, Map.empty)"
proof -
  have "constructs (start_service, start_world) (Mutex (some_mutex, 0), start_service, mutex_world)"
    by (rule constructs.mutex) (use some_mutex_ctor in auto)
  from process_reachable.step[OF start_process process_step.construct[OF this]] show ?thesis by simp
qed

lemma pair_reachable:
  "process_reachable ([Mutex (some_mutex, 0), Semaphore (other_semaphore, 0)], start_service, pair_world, Map.empty)"
proof -
  let ?w = "\<lparr>nodes = [0 \<mapsto> \<lparr>next_node = 1, prev_node = 3\<rparr>, 1 \<mapsto> \<lparr>next_node = 3, prev_node = 0\<rparr>,
       2 \<mapsto> \<lparr>next_node = 2, prev_node = 2\<rparr>, 3 \<mapsto> \<lparr>next_node = 0, prev_node = 1\<rparr>,
       4 \<mapsto> \<lparr>next_node = 4, prev_node = 4\<rparr>],
     ops = Map.empty, slots = Map.empty, trace = [], brk = 5\<rparr>"
  have "basic_semaphore_ctor 7 some_hints some_ctx 0 (-1) start_service mutex_world = Some (other_semaphore, start_service, ?w)"
    by (simp add: sam_eval other_semaphore_def fun_upd_twist)
  then have "constructs (start_service, mutex_world) (Semaphore (other_semaphore, 0), start_service, ?w)"
    by (intro constructs.semaphore) auto
  from process_reachable.step[OF mutex_process process_step.construct[OF this]]
  have 2: "process_reachable ([Mutex (some_mutex, 0)] @ Semaphore (other_semaphore, 0) # [], start_service, ?w, Map.empty)" by simp
  have "basic_semaphore_async_acquire other_semaphore (some_handler 1) ?w = Some (other_semaphore, pair_world)"
    by (simp add: sam_eval other_semaphore_def pair_world_def fun_upd_twist)
  from semaphore_action.async_acquire[OF this, of 0]
  have "acts (Semaphore (other_semaphore, 0), ?w) (Semaphore (other_semaphore, 0), pair_world)"
    by (intro acts.semaphore) (simp add: grants_def pair_world_def)
  moreover have "blocked_by p ?w pair_world Map.empty = Map.empty" for p
    by (auto simp: blocked_by_def pair_world_def fun_eq_iff)
  ultimately show ?thesis using process_reachable.step[OF 2 process_step.act, of "Semaphore (other_semaphore, 0)" pair_world]
    by simp
qed

lemma pair_pending: "pending pair_world 4 pair_queue"
  by (simp add: pending_def is_bilist_def link_def pair_world_def heap_access)

subsection \<open>Properties\<close>

text \<open>
  C3: Composition.  In a process with any number of primitives, in which primitives are constructed, called,
  moved and destroyed and blocked calls go on in any order, every live primitive is in a state of one of its own histories,
  so that what holds in all histories of one mutex, semaphore, shared mutex, barrier or condition variable holds of each
  of them, and of a barrier whose arrivals have not overlapped also what holds of uninterrupted ones; and the
  service's list consists of the live primitives, in the order of their construction.
\<close>

theorem process_members_run_alone:
  assumes "process_reachable (ps, svc, w, locks)"
  shows "registered w svc (map (sm_node \<circ> base_object) ps) \<and> (\<forall>p \<in> set ps. case p of
      Mutex (m, n) \<Rightarrow> mutex_reachable (m, w, n)
    | Semaphore (s, g) \<Rightarrow> semaphore_reachable (s, w, g)
    | Shared_mutex (m, n, k) \<Rightarrow> shared_reachable (m, w, n, k)
    | Barrier (b, c, p, t) \<Rightarrow> race_reachable (b, w, c, p, t) \<and> (t \<longrightarrow> barrier_reachable (b, w, c))
    | Condition_variable c \<Rightarrow> cv_reachable (c, w))"
  using process_reachable_ok[OF assms]
  by (fastforce simp: side_by_side_def serial_def split: primitive.split dest: race_reachable_serial)

theorem process_members_run_alone_witness:
  "mutex_reachable (some_mutex, pair_world, 0) \<and> semaphore_reachable (other_semaphore, pair_world, 0)"
  using process_members_run_alone[OF pair_reachable] by simp

text \<open>
  C10: Isolation.  In a reachable state of a process, a call on one primitive leaves the requests that wait for any other
  primitive as they are: the same operations, in the same order.
\<close>

theorem process_calls_are_isolated:
  assumes "process_reachable (ps @ p # qs, svc, w, locks)" "acts (p, w) (p', w')"
    and "x \<in> set (ps @ qs)" "r \<in> set (list_roots x)"
  shows "pending w' r q \<longleftrightarrow> pending w r q"
proof -
  have A: "kinds.apart (ps @ p # qs) svc w" using process_reachable_ok[OF assms(1)] by simp
  show ?thesis by (rule kinds.action_isolated[OF A assms(2-4)])
qed

theorem process_calls_are_isolated_witness:
  "\<exists>m' w'. basic_mutex_try_lock some_mutex pair_world = Some (True, m', w') \<and> pending w' 4 pair_queue"
proof -
  have t: "basic_mutex_try_lock some_mutex pair_world = Some (True, held_mutex, pair_world)"
    by (simp add: sam_eval held_mutex_def)
  have a: "acts (Mutex (some_mutex, 0), pair_world) (Mutex (held_mutex, 1), pair_world)"
    using mutex_action.try_lock[OF t, of 0] by (intro acts.mutex) simp
  have r: "process_reachable ([] @ Mutex (some_mutex, 0) # [Semaphore (other_semaphore, 0)], start_service, pair_world, Map.empty)"
    using pair_reachable by simp
  show ?thesis
    using t process_calls_are_isolated[OF r a, of "Semaphore (other_semaphore, 0)" 4 pair_queue] pair_pending
    by (simp add: other_semaphore_def)
qed

text \<open>
  C21: Lifetime.  The destructor of a primitive of a process returns at any time, whatever waits for it; the others stay
  registered in their order, their requests are as they were, and whichever of the calls blocked on them could go on still
  can.  But a call that is blocked on the destroyed object, or has been woken and has not returned yet, has no defined
  continuation: it would lock the internal mutex that has been destroyed.
\<close>

theorem process_member_destroyed:
  assumes "process_reachable (ps @ p # qs, svc, w, locks)"
  shows "ok (destructs p svc w) (\<lambda>(svc', w'). svc' = svc \<and> process_reachable (ps @ qs, svc, w', locks) \<and> world_ok w' \<and>
    registered w' svc (map (sm_node \<circ> base_object) (ps @ qs)) \<and>
    (\<forall>x \<in> set (ps @ qs). \<forall>r \<in> set (list_roots x). \<forall>q. pending w' r q \<longleftrightarrow> pending w r q) \<and>
    (\<forall>a ec c. locks a \<noteq> Some (sm_node (base_object p)) \<longrightarrow>
      process_resume a (ps @ p # qs, svc, w, locks) = Some (ec, c) \<longrightarrow>
      (\<exists>c'. process_resume a (ps @ qs, svc, w', locks) = Some (ec, c'))) \<and>
    (\<forall>a. locks a = Some (sm_node (base_object p)) \<longrightarrow> process_resume a (ps @ qs, svc, w', locks) = None))"
proof -
  have A: "kinds.apart (ps @ p # qs) svc w" using process_reachable_ok[OF assms] by simp
  from kinds.dispose_isolated[OF A] obtain w' where d: "destructs p svc w = Some (svc, w')" "kinds.apart (ps @ qs) svc w'"
    "\<forall>x \<in> set (ps @ qs). \<forall>r \<in> set (list_roots x). \<forall>q. pending w' r q \<longleftrightarrow> pending w r q"
    "spares (set (list_roots p) \<union> set (entries svc # map (sm_node \<circ> base_object) (ps @ p # qs))) w w'"
    by (auto elim!: okE)
  note R = process_reachable.step[OF assms process_step.destruct[OF d(1)]]
  show ?thesis
    using d R others_go_on[OF A d(2,4), where locks = locks] orphans[OF A, where locks = locks]
    by (auto simp: side_by_side_def)
qed

text \<open>A held mutex for which an asynchronous and a blocking request wait.\<close>

lemma busy_process: "process_reachable ([Mutex (held_mutex, 1)], start_service, busy_world, [4 \<mapsto> 1])"
proof -
  let ?w = "\<lparr>nodes = [0 \<mapsto> \<lparr>next_node = 1, prev_node = 1\<rparr>, 1 \<mapsto> \<lparr>next_node = 0, prev_node = 0\<rparr>,
       2 \<mapsto> \<lparr>next_node = 3, prev_node = 3\<rparr>, 3 \<mapsto> \<lparr>next_node = 2, prev_node = 2\<rparr>],
     ops = [3 \<mapsto> Basic_op \<lparr>work_guard = 7, op_handler = some_handler 1\<rparr>],
     slots = [1 \<mapsto> 3], trace = [], brk = 4\<rparr>"
  have t: "basic_mutex_try_lock some_mutex mutex_world = Some (True, held_mutex, mutex_world)"
    by (simp add: sam_eval held_mutex_def)
  have a: "basic_mutex_async_lock held_mutex (some_handler 1) mutex_world = Some (held_mutex, ?w)"
    by (simp add: sam_eval held_mutex_def fun_upd_twist)
  have l: "basic_mutex_lock held_mutex success ?w = Some (Blocked 4, held_mutex, busy_world)"
    by (simp add: sam_eval held_mutex_def busy_world_def fun_upd_twist)
  have g: "grants mutex_world ?w = 0" by (simp add: grants_def mutex_world_def)
  have acts: "acts (Mutex (some_mutex, 0), mutex_world) (Mutex (held_mutex, 1), mutex_world)"
    "acts (Mutex (held_mutex, 1), mutex_world) (Mutex (held_mutex, 1), ?w)"
    "acts (Mutex (held_mutex, 1), ?w) (Mutex (held_mutex, 1), busy_world)"
    using mutex_action.try_lock[OF t, of 0] mutex_action.async_lock[OF a, of 1] mutex_action.lock[OF l, of 1] g
    by (simp_all add: acts_simps)
  have b: "blocked_by (Mutex m) mutex_world mutex_world Map.empty = Map.empty"
    "blocked_by (Mutex m) mutex_world ?w Map.empty = Map.empty"
    "blocked_by (Mutex (held_mutex, k)) ?w busy_world Map.empty = [4 \<mapsto> 1]" for m k
    by (auto simp: blocked_by_def fun_eq_iff busy_world_def mutex_world_def held_mutex_def some_mutex_def service_member.defs)
  note s = process_step.act[of _ _ _ _ "[]" "[]" start_service Map.empty, simplified]
  note 1 = process_reachable.step[OF mutex_process s[OF acts(1)], unfolded b]
  note 2 = process_reachable.step[OF 1 s[OF acts(2)], unfolded b]
  show ?thesis by (rule process_reachable.step[OF 2 s[OF acts(3)], unfolded b])
qed

theorem process_member_destroyed_witness:
  "ok (mutex_impl_dtor (bm_impl held_mutex) start_service busy_world) (\<lambda>(svc', w').
     registered w' start_service [] \<and> process_resume 4 ([], start_service, w', [4 \<mapsto> 1]) = None)"
proof -
  have r: "process_reachable ([] @ Mutex (held_mutex, 1) # [], start_service, busy_world, [4 \<mapsto> 1])"
    using busy_process by simp
  have e: "sm_node (bm_impl held_mutex) = 1" by (simp add: held_mutex_def some_mutex_def)
  show ?thesis
    using process_member_destroyed[OF r] by (auto simp: e service_member.defs elim!: ok_conseq)
qed

text \<open>
  C26: Moving.  Any primitive of a process can be moved into a new object at any time, whatever waits for it.  The move
  returns, the requests wait behind the new object as they did behind the old one, which nobody waits for any
  more, nobody is told anything, the requests of the other primitives are as they were, and both objects go on as
  members of the process.  A blocked call still refers to the mutex of the old object, which keeps its node and its mutex.
\<close>

theorem process_member_moved:
  assumes "process_reachable (ps @ p # qs, svc, w, locks)"
  shows "ok (moves p svc w) (\<lambda>(p', p0, svc', w'). svc' = svc \<and> process_reachable (ps @ p0 # qs @ [p'], svc, w', locks) \<and>
    base_object p0 = base_object p \<and>
    list_all2 (\<lambda>r r'. \<forall>q. pending w r q \<longrightarrow> pending w' r' q \<and> pending w' r []) (list_roots p) (list_roots p') \<and>
    trace w' = trace w \<and>
    (\<forall>x \<in> set (ps @ qs). \<forall>r \<in> set (list_roots x). \<forall>q. pending w' r q \<longleftrightarrow> pending w r q))"
proof -
  have A: "kinds.apart (ps @ p # qs) svc w" using process_reachable_ok[OF assms] by simp
  from kinds.move_isolated[OF A] obtain p' p0 w' where m: "moves p svc w = Some (p', p0, svc, w')" "base_object p0 = base_object p"
    "list_all2 (carried w w') (list_roots p) (list_roots p')" "trace w' = trace w"
    "\<forall>x \<in> set (ps @ qs). \<forall>r \<in> set (list_roots x). \<forall>q. pending w' r q \<longleftrightarrow> pending w r q"
    by (auto elim!: okE)
  with process_reachable.step[OF assms process_step.move[OF m(1)]] show ?thesis
    by (simp add: carried_def[abs_def])
qed

theorem process_member_moved_witness:
  "ok (basic_semaphore_move_ctor other_semaphore start_service pair_world) (\<lambda>(t, m, svc', w').
     pending w' (sem_waiters (bs_impl t)) pair_queue \<and> pending w' 4 [] \<and> trace w' = [])"
proof -
  have r: "process_reachable ([Mutex (some_mutex, 0)] @ Semaphore (other_semaphore, 0) # [], start_service, pair_world, Map.empty)"
    using pair_reachable by simp
  have e: "sem_waiters (bs_impl other_semaphore) = 4" "trace pair_world = []"
    by (simp_all add: other_semaphore_def pair_world_def)
  show ?thesis
    using process_member_moved[OF r] pair_pending by (auto simp: e elim!: okE)
qed

end
