(* ===== verification/Client_Programs.thy ===== *)
theory Client_Programs
  imports Mutex_Props Condition_Variable_Props
begin

section \<open>Programs that use the library\<close>

text \<open>
  Models the coroutine and the driver of \<open>bench/mutex.cpp\<close>, the function object and the driver of
  \<open>bench/condition_variable.cpp\<close>, both as instantiated with the primitives of the library, and the composed operation
  of \<open>example/request.cpp\<close>.  Their counters are \<open>size_t\<close>, kept as 64-bit words.  The handler that asio makes of a
  coroutine or of \<open>net::detached\<close> is an argument.
\<close>

subsection \<open>The mutex benchmark\<close>

text \<open>
  \<open>run_benchmark_impl::operator()\<close> from the loop head to the next \<open>yield\<close> or to the end; the first component says whether
  the coroutine is done.  \<open>0 < N--\<close> compares the old value and decrements in either case.
\<close>

partial_function (option) mutex_bench_loop ::
  "handler \<Rightarrow> 64 word \<Rightarrow> basic_mutex \<Rightarrow> world \<Rightarrow> (bool \<times> 64 word \<times> basic_mutex \<times> world) option" where
  "mutex_bench_loop this N m w =
     (if \<not> 0 < N then Some (True, N - 1, m, w)
      else do {
        (b, m, w) \<leftarrow> basic_mutex_try_lock m w;
        if \<not> b then do {
          (m, w) \<leftarrow> basic_mutex_async_lock m this w;
          Some (False, N - 1, m, w) }
        else do {
          (m, w) \<leftarrow> basic_mutex_unlock m w;
          mutex_bench_loop this (N - 1) m w } })"

text \<open>The coroutine goes on behind the \<open>yield\<close> when its lock request has completed.\<close>

definition mutex_bench_resume ::
  "handler \<Rightarrow> 64 word \<Rightarrow> basic_mutex \<Rightarrow> world \<Rightarrow> (bool \<times> 64 word \<times> basic_mutex \<times> world) option" where
  "mutex_bench_resume this N m w = do {
     (m, w) \<leftarrow> basic_mutex_unlock m w;
     mutex_bench_loop this N m w }"

text \<open>\<open>run_benchmark\<close>: the coroutine is posted and the context runs it.\<close>

definition mutex_bench ::
  "executor \<Rightarrow> asio_hints \<Rightarrow> execution_context \<Rightarrow> int \<Rightarrow> handler \<Rightarrow> 64 word \<Rightarrow> op_list_service \<Rightarrow> world \<Rightarrow>
   (bool \<times> 64 word \<times> basic_mutex \<times> op_list_service \<times> world) option" where
  "mutex_bench ex A ctx hint this n svc w = do {
     (m, svc, w) \<leftarrow> basic_mutex_ctor ex A ctx hint svc w;
     (b, N, m, w) \<leftarrow> mutex_bench_loop this n m w;
     Some (b, N, m, svc, w) }"

text \<open>A free mutex that nobody waits for is taken and given back, and is as before.\<close>

lemma lock_unlock_free:
  assumes "mutex_rel (bm_impl m) w s" "\<not> owned s"
  shows "do { (b, m, w) \<leftarrow> basic_mutex_try_lock m w; do { (m, w) \<leftarrow> basic_mutex_unlock m w; Some (b, m, w) } } = Some (True, m, w)"
  using assms pending_empty[of w "waiters (bm_impl m)"]
  by (auto simp: mutex_rel_def basic_mutex_try_lock_def mutex_impl_try_lock_def basic_mutex_unlock_def
      mutex_impl_unlock_def scoped_def)

lemma mutex_bench_loop_free:
  assumes "mutex_rel (bm_impl m) w s" "\<not> owned s"
  shows "mutex_bench_loop h N m w = Some (True, -1, m, w)"
proof (induction "unat N" arbitrary: N)
  case 0
  then have "N = 0" by (simp add: unat_eq_zero)
  then show ?case by (subst mutex_bench_loop.simps) simp
next
  case (Suc k)
  then have n: "0 < N" by (metis nat.distinct(1) unat_0 word_gt_0)
  then have "unat (N - 1) = k" using Suc(2) by (simp add: unat_minus_one word_gt_0)
  then have "mutex_bench_loop h (N - 1) m w = Some (True, -1, m, w)" by (intro Suc(1)) simp
  with lock_unlock_free[OF assms] n show ?case
    by (subst mutex_bench_loop.simps) (auto split: bind_splits)
qed

text \<open>On a mutex that somebody holds the coroutine queues one request and stops at the \<open>yield\<close>.\<close>

lemma mutex_bench_loop_held:
  assumes "mutex_rel (bm_impl m) w s" "owned s" "0 < N"
  shows "ok (mutex_bench_loop h N m w) (\<lambda>(b, N', m', w'). \<not> b \<and> N' = N - 1 \<and> bm_exec m' = bm_exec m \<and>
    mutex_rel (bm_impl m') w' (fst (mspec_async_lock (bm_exec m) h s)) \<and> trace w' = trace w)"
proof -
  have "basic_mutex_try_lock m w = Some (False, m, w)"
    using assms(1,2) by (simp add: mutex_rel_def basic_mutex_try_lock_def mutex_impl_try_lock_def scoped_def)
  with mutex_async_lock_refines[OF assms(1), of h] assms(2,3) show ?thesis
    by (subst mutex_bench_loop.simps) (auto simp: mspec_async_lock_def elim!: okE)
qed

lemma mutex_bench_turn:
  assumes "mutex_rel (bm_impl m) w s" "owned s" "queue s = []" "0 < N"
  shows "ok (do { (b, N', m, w) \<leftarrow> mutex_bench_loop h N m w; (m, w) \<leftarrow> basic_mutex_unlock m w;
        (b', N'', m, w) \<leftarrow> mutex_bench_resume h N' m w; Some (b, b', N'', m, w) })
      (\<lambda>(b, b', N'', m', w'). \<not> b \<and> b' \<and> N'' = -1 \<and> \<not> locked (bm_impl m') \<and>
        trace w' = trace w @ [Post (get_associated_executor h (bm_exec m)) h success])"
proof -
  let ?e = "get_associated_executor h (bm_exec m)"
  from mutex_bench_loop_held[OF assms(1,2,4), of h] assms(2,3) obtain m1 w1 s1 where
    1: "mutex_bench_loop h N m w = Some (False, N - 1, m1, w1)" "mutex_rel (bm_impl m1) w1 s1" "owned s1"
      "queue s1 = [(fresh s, Basic_op \<lparr>work_guard = ?e, op_handler = h\<rparr>)]" "trace w1 = trace w"
    by (auto simp: mspec_async_lock_def elim!: okE)
  from mutex_unlock_refines[OF 1(2)] 1(3,4) obtain m2 w2 s2 where
    2: "basic_mutex_unlock m1 w1 = Some (m2, w2)" "mutex_rel (bm_impl m2) w2 s2" "owned s2" "queue s2 = []"
      "trace w2 = trace w1 @ [Post ?e h success]"
    by (auto simp: basic_mutex_unlock_def mspec_unlock_def elim!: okE)
  from mutex_unlock_refines[OF 2(2)] 2(3,4) obtain m3 w3 s3 where
    3: "basic_mutex_unlock m2 w2 = Some (m3, w3)" "mutex_rel (bm_impl m3) w3 s3" "\<not> owned s3" "trace w3 = trace w2"
    by (auto simp: basic_mutex_unlock_def mspec_unlock_def elim!: okE)
  have "\<not> locked (bm_impl m3)" using 3(2,3) by (simp add: mutex_rel_def)
  with mutex_bench_loop_free[OF 3(2,3), of h "N - 1"] 1 2 3 show ?thesis
    by (simp add: mutex_bench_resume_def)
qed

text \<open>
  C29: The benchmark of the mutex ends.  With any number of rounds the coroutine runs to its end without waiting, which
  leaves the counter wrapped round and the mutex free.  Started with at least one round to go on a mutex that somebody else
  holds and for which nobody waits, it waits in the queue, gets the mutex with the next release, and then runs to its end.
\<close>

theorem mutex_bench_completes:
  assumes "world_ok w" "registered w svc ms" "mutex_reachable (m, v, 1)" "pending v (waiters (bm_impl m)) []" "0 < k"
  shows "ok (mutex_bench ex A ctx hint h n svc w) (\<lambda>(b, N, m', svc', w'). b \<and> N = -1 \<and>
      \<not> locked (bm_impl m') \<and> pending w' (waiters (bm_impl m')) [] \<and> trace w' = trace w) \<and>
    ok (do { (b, N, m, v) \<leftarrow> mutex_bench_loop h k m v; (m, v) \<leftarrow> basic_mutex_unlock m v;
        (b', N', m, v) \<leftarrow> mutex_bench_resume h N m v; Some (b, b', N', m, v) })
      (\<lambda>(b, b', N', m', v'). \<not> b \<and> b' \<and> N' = -1 \<and> \<not> locked (bm_impl m') \<and>
        trace v' = trace v @ [Post (get_associated_executor h (bm_exec m)) h success])"
proof
  from mutex_ctor_ok[OF assms(1,2), of ex A ctx hint] obtain m1 w1 where
    c: "basic_mutex_ctor ex A ctx hint svc w = Some (m1, svc, w1)"
      "mutex_rel (bm_impl m1) w1 \<lparr>owned = False, queue = [], fresh = brk w + 2\<rparr>" "trace w1 = trace w"
    by (auto elim!: okE)
  then have "\<not> locked (bm_impl m1) \<and> pending w1 (waiters (bm_impl m1)) []" by (simp add: mutex_rel_def)
  with c mutex_bench_loop_free[OF c(2), of h n]
  show "ok (mutex_bench ex A ctx hint h n svc w) (\<lambda>(b, N, m', svc', w'). b \<and> N = -1 \<and>
      \<not> locked (bm_impl m') \<and> pending w' (waiters (bm_impl m')) [] \<and> trace w' = trace w)"
    by (simp add: mutex_bench_def)
next
  from mutex_reachable_inv[OF assms(3)] obtain s where s: "mutex_rel (bm_impl m) v s" "owned s"
    by (auto simp: of_bool_def split: if_splits)
  then have "queue s = []" using assms(4) by (auto simp: mutex_rel_def intro: pending_unique)
  from mutex_bench_turn[OF s this assms(5), of h]
  show "ok (do { (b, N, m, v) \<leftarrow> mutex_bench_loop h k m v; (m, v) \<leftarrow> basic_mutex_unlock m v;
        (b', N', m, v) \<leftarrow> mutex_bench_resume h N m v; Some (b, b', N', m, v) })
      (\<lambda>(b, b', N', m', v'). \<not> b \<and> b' \<and> N' = -1 \<and> \<not> locked (bm_impl m') \<and>
        trace v' = trace v @ [Post (get_associated_executor h (bm_exec m)) h success])" by simp
qed

theorem mutex_bench_completes_witness:
  "ok (mutex_bench 7 some_hints some_ctx (-1) (some_handler 1) 3 start_service start_world)
     (\<lambda>(b, N, m', svc', w'). b \<and> N = -1 \<and> \<not> locked (bm_impl m') \<and> trace w' = [])"
proof -
  have p: "pending mutex_world (waiters (bm_impl held_mutex)) []"
    by (simp add: pending_def is_bilist_def link_def mutex_world_def held_mutex_def some_mutex_def heap_access)
  have t: "trace start_world = []" by (simp add: sam_eval)
  show ?thesis
    using mutex_bench_completes[OF start_ok held_mutex_reachable p, of 1 7 some_hints some_ctx "-1" "some_handler 1" 3]
    by (auto simp: t elim!: ok_conseq)
qed

subsection \<open>The condition variable benchmark\<close>

text \<open>
  \<open>impl::operator()\<close> waits with the predicate \<open>i % 4 == 0\<close> of the captured \<open>i\<close>, notifies, and posts itself with
  \<open>i - 1\<close>; what it posts is the first component of the result.  A predicate is known by the captured value.
\<close>

definition bench_predicate :: "nat \<Rightarrow> bool" where
  "bench_predicate i \<longleftrightarrow> (of_nat i :: 64 word) mod 4 = 0"

definition cv_bench_call ::
  "handler \<Rightarrow> basic_condition_variable \<Rightarrow> error_code \<Rightarrow> 64 word \<Rightarrow> world \<Rightarrow>
   ((error_code \<times> 64 word) option \<times> basic_condition_variable \<times> world) option" where
  "cv_bench_call detached cv ec i w = do {
     (cv, w) \<leftarrow> (if i \<noteq> 0 then async_predicate_wait cv (user_predicate (unat i)) detached w else Some (cv, w));
     (cv, w) \<leftarrow> (if i mod 100 = 0 then basic_condition_variable_notify_all bench_predicate cv w
                else basic_condition_variable_notify_one bench_predicate cv w);
     Some (if i \<noteq> 0 then Some (ec, i - 1) else None, cv, w) }"

text \<open>The context runs what has been posted.  The handlers of the completed waits, \<open>net::detached\<close>, do nothing.\<close>

partial_function (option) cv_bench_run ::
  "handler \<Rightarrow> basic_condition_variable \<Rightarrow> error_code \<Rightarrow> 64 word \<Rightarrow> world \<Rightarrow>
   (basic_condition_variable \<times> world) option" where
  "cv_bench_run detached cv ec i w = do {
     (posted, cv, w) \<leftarrow> cv_bench_call detached cv ec i w;
     (case posted of None \<Rightarrow> Some (cv, w) | Some (ec, j) \<Rightarrow> cv_bench_run detached cv ec j w) }"

definition cv_bench ::
  "executor \<Rightarrow> asio_hints \<Rightarrow> execution_context \<Rightarrow> int \<Rightarrow> handler \<Rightarrow> 64 word \<Rightarrow> op_list_service \<Rightarrow> world \<Rightarrow>
   (basic_condition_variable \<times> op_list_service \<times> world) option" where
  "cv_bench ex A ctx hint detached n svc w = do {
     (cv, svc, w) \<leftarrow> basic_condition_variable_ctor ex A ctx hint svc w;
     (cv, w) \<leftarrow> cv_bench_run detached cv success n w;
     Some (cv, svc, w) }"

lemma bench_predicate_iff: "bench_predicate i \<longleftrightarrow> i mod 4 = 0"
proof -
  have "bench_predicate i \<longleftrightarrow> unat ((of_nat i :: 64 word) mod 4) = 0" by (simp add: bench_predicate_def unat_eq_zero)
  also have "unat ((of_nat i :: 64 word) mod 4) = i mod 2 ^ 64 mod 4" by (simp add: unat_mod_distrib unat_of_nat)
  also have "\<dots> = i mod 4" by (rule mod_mod_cancel) simp
  finally show ?thesis .
qed

abbreviation unmet :: "(addr \<times> wait_op) list \<Rightarrow> (addr \<times> wait_op) list" where
  "unmet \<equiv> filter (\<lambda>p. \<not> satisfied bench_predicate p)"

text \<open>A notification completes waits whose predicate holds, and only those.\<close>

lemma bench_notify_ok:
  assumes "cv_rel (cv_impl cv) w q"
  shows "ok (if (i :: 64 word) mod 100 = 0 then basic_condition_variable_notify_all bench_predicate cv w
             else basic_condition_variable_notify_one bench_predicate cv w)
    (\<lambda>(cv', w'). cv' = cv \<and> (\<exists>q'. cv_rel (cv_impl cv) w' q' \<and> unmet q' = unmet q \<and>
      (i mod 100 = 0 \<longrightarrow> q' = unmet q) \<and> length (trace w') + length q' = length (trace w) + length q))"
proof (cases "i mod 100 = 0")
  case True
  have "length (concat (map (\<lambda>(a, x). signals success a x) (filter (satisfied bench_predicate) q))) + length (unmet q) = length q"
    by (induction q) (auto simp: case_prod_unfold)
  with True notify_all_ok[OF assms, of bench_predicate] show ?thesis
    by (auto simp: basic_condition_variable_notify_all_def elim!: okE)
next
  case False
  from notify_one_ok[OF assms, of bench_predicate] obtain w' where
    n: "condition_variable_impl_notify_one bench_predicate (cv_impl cv) w = Some ((), cv_impl cv, w')"
      "case q of [] \<Rightarrow> w' = w | (a, x) # p \<Rightarrow> if satisfied bench_predicate (a, x)
         then cv_rel (cv_impl cv) w' p \<and> trace w' = trace w @ signals success a x else w' = w"
    by (auto elim!: okE)
  let ?q' = "if q \<noteq> [] \<and> satisfied bench_predicate (hd q) then tl q else q"
  have "cv_rel (cv_impl cv) w' ?q' \<and> unmet ?q' = unmet q \<and> length (trace w') + length ?q' = length (trace w) + length q"
  proof (cases q)
    case (Cons ax p)
    obtain a x where "ax = (a, x)" by force
    with n(2) Cons assms show ?thesis by (cases "satisfied bench_predicate ax") auto
  qed (use n(2) assms in simp)
  with n(1) False show ?thesis by (auto simp: basic_condition_variable_notify_one_def)
qed

lemma cv_bench_call_ok:
  assumes "cv_rel (cv_impl cv) w q"
  shows "ok (cv_bench_call h cv ec i w) (\<lambda>(p, cv', w'). cv' = cv \<and> p = (if i \<noteq> 0 then Some (ec, i - 1) else None) \<and>
    (\<exists>q'. cv_rel (cv_impl cv) w' q' \<and> map snd (unmet q') = map snd (unmet q) @
         map (\<lambda>k. waiting cv (user_predicate k) h) (filter (\<lambda>k. k mod 4 \<noteq> 0) (if i \<noteq> 0 then [unat i] else [])) \<and>
       (i = 0 \<longrightarrow> q' = unmet q) \<and> length (trace w') + length q' = length (trace w) + length q + of_bool (i \<noteq> 0)))"
proof (cases "i = 0")
  case True
  with bench_notify_ok[OF assms, of i] show ?thesis
    by (auto simp: cv_bench_call_def elim!: okE)
next
  case False
  from async_predicate_wait_ok[OF assms, of "user_predicate (unat i)" h] obtain w1 where
    1: "async_predicate_wait cv (user_predicate (unat i)) h w = Some (cv, w1)"
      "cv_rel (cv_impl cv) w1 (q @ [(brk w, waiting cv (user_predicate (unat i)) h)])" "trace w1 = trace w"
    by (auto elim!: okE)
  from bench_notify_ok[OF 1(2), of i] obtain w2 q2 where
    2: "(if i mod 100 = 0 then basic_condition_variable_notify_all bench_predicate cv w1
         else basic_condition_variable_notify_one bench_predicate cv w1) = Some (cv, w2)"
      "cv_rel (cv_impl cv) w2 q2" "unmet q2 = unmet (q @ [(brk w, waiting cv (user_predicate (unat i)) h)])"
      "length (trace w2) + length q2 = length (trace w1) + Suc (length q)"
    by (auto elim!: okE)
  have "map snd (unmet q2) = map snd (unmet q) @
      map (\<lambda>k. waiting cv (user_predicate k) h) (filter (\<lambda>k. k mod 4 \<noteq> 0) [unat i])"
    unfolding 2(3) by (simp add: bench_predicate_iff)
  then show ?thesis
    using False 1(1,3) 2(1,2,4) by (auto simp: cv_bench_call_def)
qed

text \<open>The waits that are left at the end: those of the numbers that are not multiples of four.\<close>

definition never_met :: "nat \<Rightarrow> nat list" where
  "never_met n = filter (\<lambda>k. k mod 4 \<noteq> 0) (rev [1..<Suc n])"

lemma never_met_Suc: "never_met (Suc n) = filter (\<lambda>k. k mod 4 \<noteq> 0) [Suc n] @ never_met n"
  by (simp add: never_met_def)

lemma cv_bench_run_ok:
  assumes "cv_rel (cv_impl cv) w q"
  shows "ok (cv_bench_run h cv ec i w) (\<lambda>(cv', w'). cv' = cv \<and> (\<exists>q'. cv_rel (cv_impl cv) w' q' \<and>
    map snd q' = map snd (unmet q) @ map (\<lambda>k. waiting cv (user_predicate k) h) (never_met (unat i)) \<and>
    length (trace w') + length q' = length (trace w) + length q + unat i))"
  using assms
proof (induction "unat i" arbitrary: i w q)
  case 0
  then have "i = 0" by (simp add: unat_eq_zero)
  with cv_bench_call_ok[OF 0(2), of h ec i] show ?case
    by (subst cv_bench_run.simps) (auto simp: never_met_def elim!: okE)
next
  case (Suc k)
  then have "i \<noteq> 0" by auto
  with Suc(2) have i: "i \<noteq> 0" "k = unat (i - 1)" by (simp_all add: unat_minus_one)
  from cv_bench_call_ok[OF Suc(3), of h ec i] i(1) obtain w1 q1 where
    1: "cv_bench_call h cv ec i w = Some (Some (ec, i - 1), cv, w1)" "cv_rel (cv_impl cv) w1 q1"
      "map snd (unmet q1) = map snd (unmet q) @ map (\<lambda>k. waiting cv (user_predicate k) h) (filter (\<lambda>k. k mod 4 \<noteq> 0) [unat i])"
      "length (trace w1) + length q1 = length (trace w) + length q + 1"
    by (auto elim!: okE)
  from Suc(1)[OF i(2) 1(2)] obtain w2 q2 where
    2: "cv_bench_run h cv ec (i - 1) w1 = Some (cv, w2)" "cv_rel (cv_impl cv) w2 q2"
      "map snd q2 = map snd (unmet q1) @ map (\<lambda>k. waiting cv (user_predicate k) h) (never_met k)"
      "length (trace w2) + length q2 = length (trace w1) + length q1 + k"
    unfolding i(2)[symmetric] by (auto elim!: okE)
  have "map snd q2 = map snd (unmet q) @ map (\<lambda>k. waiting cv (user_predicate k) h) (never_met (unat i))"
    unfolding 2(3) 1(3) Suc(2)[symmetric] never_met_Suc by simp
  with 1(1,4) 2(1,2,4) Suc(2) show ?case by (subst cv_bench_run.simps) auto
qed

text \<open>
  C30: The benchmark of the condition variable never gets rid of its waits.  It makes \<open>n\<close> waits, for \<open>n\<close> down to \<open>1\<close>, and
  notifies after each; when the last posted call has returned, with nothing left to post, the waits of the numbers
  that are not multiples of four are still in the list, each holding its work guard for the executor; the others
  have completed.
\<close>

theorem cv_bench_leaves_waiters:
  assumes "world_ok w" "registered w svc ms"
  shows "ok (cv_bench ex A ctx hint h n svc w) (\<lambda>(cv, svc', w'). \<exists>q. pending w' (cv_waiters (cv_impl cv)) q \<and>
    map snd q = map (\<lambda>k. Predicate_op \<lparr>work_guard = get_associated_executor h ex, op_handler = h,
        op_predicate = user_predicate k\<rparr>) (filter (\<lambda>k. k mod 4 \<noteq> 0) (rev [1..<Suc (unat n)])) \<and>
    length (trace w') + length q = length (trace w) + unat n)"
proof -
  from cv_ctor_ok[OF assms, of ex A ctx hint] obtain cv w1 where
    c: "basic_condition_variable_ctor ex A ctx hint svc w = Some (cv, svc, w1)" "cv_exec cv = ex" "cv_rel (cv_impl cv) w1 []"
      "trace w1 = trace w" by (auto elim!: okE)
  from cv_bench_run_ok[OF c(3), of h success n] obtain w2 q where
    r: "cv_bench_run h cv success n w1 = Some (cv, w2)" "cv_rel (cv_impl cv) w2 q"
      "map snd q = map (\<lambda>k. waiting cv (user_predicate k) h) (never_met (unat n))"
      "length (trace w2) + length q = length (trace w1) + unat n" by (auto elim!: okE)
  show ?thesis
    using c(1) r(1) cv_relD(2)[OF r(2)] r(3,4) unfolding never_met_def c(2,4)
    by (auto simp: cv_bench_def simp del: upt_Suc filter.simps)
qed

theorem cv_bench_leaves_waiters_witness:
  "ok (cv_bench 7 some_hints some_ctx (-1) (some_handler 1) 5 start_service start_world) (\<lambda>(cv, svc', w').
    \<exists>q. pending w' (cv_waiters (cv_impl cv)) q \<and> length q = 4 \<and> length (trace w') = 1)"
proof -
  have e: "trace start_world = []" "get_associated_executor (some_handler 1) 7 = 7" "unat (5 :: 64 word) = 5"
    "filter (\<lambda>k. k mod 4 \<noteq> 0) (rev [1..<Suc 5]) = [5, 3, 2, 1]"
    by (simp_all add: sam_eval upt_rec)
  show ?thesis
  proof (rule ok_conseq[OF cv_bench_leaves_waiters[OF start_ok, of 7 some_hints some_ctx "-1" "some_handler 1" 5]],
      clarsimp simp only: e split_paired_all prod.case)
    fix cv svc' w' q
    assume "pending w' (cv_waiters (cv_impl cv)) q" "length (trace w') + length q = length ([] :: event list) + 5"
      "map snd q = map (\<lambda>k. Predicate_op \<lparr>work_guard = 7, op_handler = some_handler 1, op_predicate = user_predicate k\<rparr>) [5, 3, 2, 1]"
    moreover from this(3) have "length q = 4" by (auto dest: map_eq_imp_length_eq)
    ultimately show "\<exists>q. pending w' (cv_waiters (cv_impl cv)) q \<and> length q = 4 \<and> length (trace w') = 1" by auto
  qed
qed

subsection \<open>The request of the example\<close>

text \<open>
  \<open>request_op\<close> is a coroutine that asio's \<open>async_compose\<close> calls with the result of each operation it starts; what it
  does with the request, the socket and its own completion are effects.  One call goes from the point where the
  coroutine stopped to its next \<open>yield\<close> or to the end.
\<close>

datatype request_point = At_start | After_write | After_read | At_end

datatype request_effect = Prepare_payload | Start_write | Start_read | Complete error_code

definition request_op_call :: "error_code \<Rightarrow> request_point \<Rightarrow> request_effect list \<times> request_point" where
  "request_op_call ec p =
     (let es = (if failed ec then [Complete ec] else []) in
      case p of
        At_start \<Rightarrow> (es @ [Prepare_payload, Start_write], After_write)
      | After_write \<Rightarrow> (es @ [Start_read], After_read)
      | After_read \<Rightarrow> (es @ [Complete ec], At_end)
      | At_end \<Rightarrow> (es, At_end))"

text \<open>The operation with the result \<open>wr\<close> of the write and the result \<open>rd\<close> of the read.\<close>

definition request_run :: "error_code \<Rightarrow> error_code \<Rightarrow> request_effect list" where
  "request_run wr rd =
     (let (es, p) = request_op_call success At_start;
          (es', p) = request_op_call wr p;
          (es'', p) = request_op_call rd p in es @ es' @ es'')"

text \<open>
  The request of the example completes once only if nothing fails: then it prepares the payload, writes, reads and
  completes.  A failure is reported, but the coroutine goes on, so that a failed write is followed by a read, and
  each failure adds one more completion.
\<close>

theorem request_completes_again_after_error:
  "(\<not> failed wr \<and> \<not> failed rd \<longrightarrow> request_run wr rd = [Prepare_payload, Start_write, Start_read, Complete rd]) \<and>
   (failed wr \<longrightarrow> (\<exists>es. request_run wr rd = [Prepare_payload, Start_write, Complete wr, Start_read] @ es)) \<and>
   length (filter (\<lambda>e. \<exists>ec. e = Complete ec) (request_run wr rd)) = 1 + of_bool (failed wr) + of_bool (failed rd)"
  by (simp add: request_run_def request_op_call_def failed_def)

theorem request_completes_again_after_error_witness:
  "length (filter (\<lambda>e. \<exists>ec. e = Complete ec) (request_run operation_aborted success)) = 2"
  using request_completes_again_after_error[of operation_aborted success] by (simp add: failed_def)

end
