(* ===== verification/Spec2Isabelle.thy ===== *)
theory Spec2Isabelle
  imports Guarded Lock_Guard Barrier_Props Condition_Variable_Props Binary_Semaphore Context_Shutdown Move_Props
    Construct_Throws Inline_Dispatch Process Client_Programs
begin

text \<open>
  Synchronisation primitives for asio: a verification library for sam.

  The program.  sam gives asio a mutex, a shared mutex, a semaphore, a barrier and a condition variable on which
  coroutines, callbacks and threads can wait.  All file names below are relative to \<open>src/include/boost/sam\<close>.  Every
  primitive \<open>basic_X\<close> is an executor and an \<open>X_impl\<close>; every \<open>X_impl\<close> is a \<open>service_member\<close>, that is a node in the list
  of the one \<open>op_list_service\<close> of its execution context with an internal mutex that is a no-op in single-threaded
  contexts; and every request that cannot be granted at once is an operation, a node in one of the intrusive
  lists of the primitive, which is completed later by a release, a cancellation, a shutdown or a destructor.
  \<open>lock_guard\<close>, \<open>shared_lock_guard\<close> and \<open>guarded\<close> are clients of the primitives.

  Theories and code.
    \<^item> \<open>Sam_Prelude\<close>: error codes, checked signed arithmetic, \<open>ok\<close> (total correctness), facts on lists.
    \<^item> \<open>Bilist\<close>: \<open>detail/bilist_node.hpp\<close>.  A heap from addresses to nodes; \<open>is_bilist h r xs\<close> says that the nodes \<open>xs\<close>
      hang behind the root \<open>r\<close>.  The locale \<open>intrusive_list\<close> states what the other theories use of it and is
      interpreted by the pointer operations.
    \<^item> \<open>Wait_Op\<close>: \<open>detail/basic_op.hpp\<close>, \<open>detail/predicate_op.hpp\<close>, the op models, the blocking operations.  The record
      \<open>world\<close> is all shared state: nodes, operations, cancellation slots, the trace of what was handed to asio or to a
      blocked thread, and the next address.  \<open>pending w r q\<close> relates a root to the queue of requests behind it;
      \<open>drained\<close> says what completing or shutting down a whole queue does; \<open>untouched\<close> is the frame.  The
      locale \<open>op_action\<close> has \<open>complete\<close> and \<open>shutdown\<close> as its two interpretations.
    \<^item> \<open>Service_Member\<close>: \<open>detail/service.hpp\<close>, \<open>detail/concurrency_hint.hpp\<close>, \<open>detail/conditionally_enabled_mutex.hpp\<close>,
      \<open>detail/impl/exception.ipp\<close>.  \<open>scoped\<close> is a critical section under the internal mutex; \<open>sync_resume\<close> is the rest of a blocked
      call, from \<open>op.wait(lock)\<close> on, which locks that mutex once more.
    \<^item> \<open>Shared_World\<close>: what one primitive leaves alone of the world it shares with the others (\<open>keeps\<close>), and the locale
      \<open>shared_primitive\<close> of a primitive among others, which all five interpret.
    \<^item> \<open>Call_Sequence\<close>: sequences of calls and their abstract counterpart; the locale \<open>refined_calls\<close>, interpreted by the
      mutex, the semaphore and the shared mutex, lifts the refinement of single calls to sequences.
    \<^item> \<open>Mutex_Impl\<close>, \<open>Semaphore_Impl\<close>, \<open>Shared_Mutex_Impl\<close>, \<open>Barrier_Impl\<close>, \<open>Condition_Variable_Impl\<close>: one theory per primitive,
      with \<open>detail/X_impl.hpp\<close>, \<open>detail/impl/X_impl.ipp\<close>, \<open>basic_X.hpp\<close> and \<open>impl/basic_X.hpp\<close>.  Each has the records and all operations
      in the order of the code, an abstract specification without pointers, the relation between the two, a
      refinement lemma per operation, a step relation whose steps are the calls and its reachable states, and the
      invariant of the step relation.
    \<^item> \<open>Mutex_Props\<close>, \<open>Semaphore_Props\<close>, \<open>Shared_Mutex_Props\<close>, \<open>Barrier_Props\<close>, \<open>Condition_Variable_Props\<close>: what callers rely on.
    \<^item> \<open>Barrier_Race\<close>: the histories of a barrier in which the two critical sections of \<open>async_arrive\<close> are steps of their own; those
      without overlapping arrivals are the histories of \<open>Barrier_Props\<close>.
    \<^item> \<open>Binary_Semaphore\<close>: a semaphore with one permit and a mutex are indistinguishable.
    \<^item> \<open>Process\<close>: any number of primitives of all kinds on one service, constructed, called, moved and destroyed in any order,
      and the calls that are blocked on them.
    \<^item> \<open>Client_Programs\<close>: the programs \<open>bench/mutex.cpp\<close>, \<open>bench/condition_variable.cpp\<close> and \<open>example/request.cpp\<close> of \<open>src\<close>.
    \<^item> \<open>Service_Shutdown\<close>, \<open>Context_Shutdown\<close>: \<open>op_list_service::shutdown\<close> of \<open>detail/impl/service.ipp\<close>, first over the interface
      \<open>service_client\<close> of a member, then over tables of primitives of all five kinds; and their destruction afterwards.
    \<^item> \<open>Move_Props\<close>: move assignment of the mutex, the semaphore and \<open>service_member\<close>, and what move construction copies.
    \<^item> \<open>Construct_Throws\<close>: the \<open>catch\<close> branches of the two \<open>construct\<close> functions and the asynchronous initiations when the move of
      a handler throws, into an operation or into what is dispatched.
    \<^item> \<open>Inline_Dispatch\<close>: the initiations of the mutex and the semaphore when the immediate executor of the handler runs it
      inside \<open>dispatch\<close>.
    \<^item> \<open>Permit_Source\<close>, \<open>Guarded\<close>: \<open>guarded.hpp\<close> and \<open>detail/guarded.hpp\<close>.  The locale \<open>permit_source\<close> is what \<open>guarded\<close> needs of a
      primitive; the mutex and the semaphore interpret it in their theories.  A history of guarded operations and of what
      the executors do later completes each of them exactly once, in a bounded number of steps, and loses no permit.
    \<^item> \<open>Lock_Guard\<close>: \<open>lock_guard.hpp\<close> and \<open>shared_lock_guard.hpp\<close>.

  Reading the definitions.  An operation takes the object and the world and returns both, updated, in the option
  monad.  \<open>None\<close> stands for everything that has no defined continuation: a dangling or null pointer, signed
  overflow, a failed assertion, locking the internal mutex twice, a loop that does not end.  So each theorem
  \<open>ok (op x w) P\<close> is total correctness: the operation returns, without undefined behaviour, and \<open>P\<close> holds of what it
  returned.  A call that blocks its thread returns \<open>Blocked a\<close>, where \<open>a\<close> is the operation it waits in; the event \<open>Wake a ec\<close>
  in the trace ends the wait and \<open>sync_resume\<close> is what the thread does then.  It needs the internal mutex of the object the call
  was made on; \<open>process_resume\<close> looks for that object among the live ones and is \<open>None\<close> when it has been destroyed.

  Concurrency.  A body that runs under the internal mutex is one step.  Interleavings are sequences of such steps: \<open>X_action\<close>
  has the calls on one primitive and \<open>X_step\<close> adds the rule \<open>other\<close>, for whatever else happens in the process that keeps the
  shared state well formed and leaves the lists of this primitive alone; \<open>async_arrive\<close> of the barrier, whose body is
  two critical sections, is one step in the histories of \<open>Barrier_Props\<close> and two in those of \<open>Barrier_Race\<close>, which are the ones
  that barriers have in a process.  That the other primitives
  of a process do behave as the rule \<open>other\<close> says is what \<open>Process\<close> proves: a state there is the list of the live primitives,
  their service, the world and the blocked calls with the object each of them locks; a step is a construction, a call, a move
  construction, a destruction or the return of a blocked call, and each primitive is always in a state that a history of its own reaches.  The lemmas \<open>X_action_local\<close> carry
  this: a call changes no other waiting list and no list of a service.  The two calls in the initiation of \<open>guarded\<close>,
  \<open>try_acquire\<close> and \<open>async_acquire\<close>, can be separate steps of a history too.

  Bounds.  \<open>int\<close> has 32 bits and the count of the semaphore is checked against them; \<open>std::ptrdiff_t\<close> has 64, which the barrier
  uses; \<open>std::size_t\<close> is a 64-bit word, so the reader count of the shared mutex and \<open>size\<close> wrap.  Hypotheses such as
  fewer than \<open>2 ^ 31\<close> waiting requests or fewer than \<open>2 ^ 64\<close> readers are stated where they are needed.  No fuel is used:
  the loops over lists are \<open>partial_function (option)\<close>, and the lemmas about them show that they return on every list
  that \<open>is_bilist\<close> describes, by induction on the list; each round unlinks a node or moves to the next one.

  What the groups of properties show.  Safety: mutual exclusion, readers and writers, conservation of
  permits, the limit of guarded operations, nothing delivered by a shutdown.  Refinement and
  equivalence: the mutex, the semaphore and the shared mutex against their abstract queues, for all sequences of calls; the
  binary semaphore against the mutex.  Composition: the primitives of a process do not disturb each other.  Functional
  behaviour of every release, in order of arrival, on every branch.  Liveness: requests wait only while
  somebody holds what they wait for; guarded operations all complete.  Error paths: cancellation, destruction,
  shutdown, the single-threaded mode, overflow.
  Several theorems describe behaviour that callers have to avoid: a blocking \<open>lock_shared\<close> that loses its
  reader, the guard of the wrong kind that \<open>lock_shared\<close> returns, a stale error code, two arrivals that race at a barrier,
  move assignment of the primitives and of their base class, the destruction of a primitive on which a call is blocked,
  an arrival that throws, a
  handler that releases inside the initiation that granted its request.

  Parameters.  What asio decides is an argument: the hints, the configuration and the executor of an execution context,
  \<open>async_initiate\<close> and \<open>async_compose\<close>, the associated executors and the cancellation slot of a handler (the fields of
  \<open>handler\<close>).  The predicates that the users of a condition variable supply are the parameter \<open>ev\<close>.

  Not modelled.  \<open>detail/config.hpp\<close> and the convenience headers (macros and type aliases), the type \<open>rebind_executor\<close>, \<open>test\<close>
  and \<open>doc\<close> (clients of the library and their text); of \<open>bench\<close> and \<open>example\<close> the stand-ins for the primitives made from asio
  channels and timers, the timing and the main functions.  In \<open>Process\<close>, primitives are not assigned.  A
  request that has been moved is cancelled through the object in which it was made; that this object can be destroyed
  before is not represented.  Allocation does not fail, and exceptions
  other than those of \<open>Construct_Throws\<close> do not occur.  Outside \<open>Inline_Dispatch\<close>, a handler does
  not run inside the call that dispatches it, and the destructor of a handler does not call back into a
  primitive.  Fairness of the scheduler and spurious wake-ups of the standard library
  are not represented; a blocked thread continues some time after its \<open>Wake\<close>.
\<close>

end
